(* ===== verification/Prelude.thy ===== *)
theory Prelude
  imports Main
begin

text \<open>
  The vocabulary every component shares: the outcome type of a C function (a fault where
  the C standard leaves the behaviour undefined, or a value), the conversions between
  \<^verbatim>\<open>int\<close> (32 bits) and \<^verbatim>\<open>size_t\<close> (64 bits), the C string functions of
  \<^verbatim>\<open>string.h\<close> over a memory region, and the part of the process state that every
  component draws on (the outcomes of \<^verbatim>\<open>malloc\<close>, the bytes that follow a heap block).
  A byte is a \<open>char\<close> (8 bits), a region of memory is a \<open>string\<close>.
\<close>

named_theorems wire \<open>the literal texts of the protocol\<close>

section \<open>Outcomes\<close>

datatype fault =
    Null_deref        \<comment> \<open>a null pointer is dereferenced (an unchecked \<^verbatim>\<open>malloc\<close>)\<close>
  | Out_of_bounds     \<comment> \<open>an access outside the object or its mapped surroundings\<close>
  | Use_after_free    \<comment> \<open>an access to freed memory that does not read as before\<close>
  | Uninitialised     \<comment> \<open>a read of bytes nobody wrote\<close>
  | Deadlock          \<comment> \<open>a lock that is not recursive is taken twice by one thread\<close>
  | Diverges          \<comment> \<open>a loop that does not end\<close>

type_synonym 'a res = "fault + 'a"

definition bindr :: "'a res \<Rightarrow> ('a \<Rightarrow> 'b res) \<Rightarrow> 'b res" where
  "bindr m f = (case m of Inl e \<Rightarrow> Inl e | Inr x \<Rightarrow> f x)"

lemma bindr_Inl [simp]: "bindr (Inl e) f = Inl e"
  by (simp add: bindr_def)

lemma bindr_Inr [simp]: "bindr (Inr x) f = f x"
  by (simp add: bindr_def)

lemma bindr_Inr_iff: "bindr m f = Inr y \<longleftrightarrow> (\<exists>x. m = Inr x \<and> f x = Inr y)"
  by (cases m) auto

lemma bindr_assoc: "bindr (bindr m f) g = bindr m (\<lambda>x. bindr (f x) g)"
  by (cases m) auto

text \<open>A loop is a \<open>partial_function\<close>, which is \<open>None\<close> where it does not end.\<close>

definition returned :: "'a res option \<Rightarrow> 'a res" where
  "returned r = (case r of None \<Rightarrow> Inl Diverges | Some x \<Rightarrow> x)"

lemma returned_simps [simp]: "returned None = Inl Diverges" "returned (Some x) = x"
  by (simp_all add: returned_def)

text \<open>A call for every element of a list, for its effect on the state.\<close>

fun iter_res :: "('a \<Rightarrow> 's \<Rightarrow> ('r \<times> 's) res) \<Rightarrow> 'a list \<Rightarrow> 's \<Rightarrow> 's res" where
  "iter_res f [] s = Inr s"
| "iter_res f (x # xs) s = bindr (f x s) (\<lambda>(_, s'). iter_res f xs s')"

section \<open>Machine integers\<close>

text \<open>
  An \<^verbatim>\<open>int\<close> is an \<open>int\<close>; a \<^verbatim>\<open>size_t\<close> is a \<open>nat\<close> below \<open>2 ^ 64\<close>. The conversions
  and the wrap-around of \<^verbatim>\<open>size_t\<close> arithmetic are written out.
\<close>

type_synonym size_t = nat

definition to_size :: "int \<Rightarrow> size_t" where
  "to_size i = nat (i mod 2 ^ 64)"

definition to_int :: "size_t \<Rightarrow> int" where
  "to_int n = (int n + 2 ^ 31) mod 2 ^ 32 - 2 ^ 31"

definition add_size :: "size_t \<Rightarrow> size_t \<Rightarrow> size_t" where
  "add_size a b = (a + b) mod 2 ^ 64"

definition sub_size :: "size_t \<Rightarrow> size_t \<Rightarrow> size_t" where
  "sub_size a b = nat ((int a - int b) mod 2 ^ 64)"

definition int_max :: nat where
  "int_max = 2 ^ 31"

lemma to_size_nonneg: "0 \<le> i \<Longrightarrow> i < 2 ^ 64 \<Longrightarrow> to_size i = nat i"
  by (simp add: to_size_def)

lemma to_size_of_nat: "n < 2 ^ 64 \<Longrightarrow> to_size (int n) = n"
  by (simp add: to_size_def)

lemma to_size_minus_one [simp]: "to_size (- 1) = 2 ^ 64 - 1"
  by (simp add: to_size_def)

lemma to_int_small: "n < int_max \<Longrightarrow> to_int n = int n"
  by (simp add: to_int_def int_max_def)

lemma to_int_max [simp]: "to_int (2 ^ 64 - 1) = - 1"
  by (simp add: to_int_def)

lemma add_size_small: "a + b < 2 ^ 64 \<Longrightarrow> add_size a b = a + b"
  by (simp add: add_size_def)

lemma sub_size_small: "b \<le> a \<Longrightarrow> a < 2 ^ 64 \<Longrightarrow> sub_size a b = a - b"
  by (simp add: sub_size_def)

lemma to_size_bound: "to_size i < 2 ^ 64"
  by (simp add: to_size_def nat_less_iff)

section \<open>The process state every component draws on\<close>

text \<open>
  \<open>mallocs\<close> scripts the outcomes of the coming calls of \<^verbatim>\<open>malloc\<close> (\<open>True\<close>: a block,
  \<open>False\<close>: null); when the script is used up every call succeeds. \<open>slack\<close> is what memory
  holds behind a heap block, up to the first unmapped byte: reading past a block reads these
  bytes and reading past them faults, so \<open>slack = []\<close> is the strict reading of the C
  standard. \<open>stale p\<close> is what the pointer field of a block that was just freed and that
  held \<open>p\<close> reads as: \<open>Some p\<close> where the allocator leaves that field alone.
\<close>

record sys =
  mallocs :: "bool list"
  slack :: string
  stale :: "nat \<Rightarrow> nat option"

definition malloc :: "'a sys_scheme \<Rightarrow> bool \<times> 'a sys_scheme" where
  "malloc s = (case mallocs s of [] \<Rightarrow> (True, s) | b # bs \<Rightarrow> (b, s\<lparr>mallocs := bs\<rparr>))"

text \<open>A \<^verbatim>\<open>malloc\<close> whose result is dereferenced without a check.\<close>

definition malloc_unchecked :: "'a sys_scheme \<Rightarrow> 'a sys_scheme res" where
  "malloc_unchecked s = (case malloc s of (True, s') \<Rightarrow> Inr s' | (False, s') \<Rightarrow> Inl Null_deref)"

definition plenty :: "'a sys_scheme \<Rightarrow> bool" where
  "plenty s \<longleftrightarrow> (\<forall>b \<in> set (mallocs s). b)"

lemma malloc_plenty:
  assumes "plenty s"
  shows "\<exists>ms. malloc s = (True, s\<lparr>mallocs := ms\<rparr>) \<and> (\<forall>b \<in> set ms. b)"
proof (cases "mallocs s")
  case Nil
  then have "malloc s = (True, s\<lparr>mallocs := []\<rparr>)" by (simp add: malloc_def)
  then show ?thesis by auto
next
  case (Cons b bs)
  with assms show ?thesis by (auto simp: malloc_def plenty_def)
qed

lemma malloc_cases:
  "\<exists>b ms. malloc s = (b, s\<lparr>mallocs := ms\<rparr>) \<and> set ms \<subseteq> set (mallocs s)"
proof (cases "mallocs s")
  case Nil
  then have "malloc s = (True, s\<lparr>mallocs := []\<rparr>)" by (simp add: malloc_def)
  then show ?thesis by auto
qed (auto simp: malloc_def)

section \<open>Lists\<close>

lemma in_set_tl: "x \<in> set (tl xs) \<Longrightarrow> x \<in> set xs"
  by (cases xs) auto

lemma nth_update_other: "c \<notin> S \<Longrightarrow> d \<in> S \<Longrightarrow> xs[c := x] ! d = xs ! d"
  by (metis nth_list_update_neq)

lemma last_notin_butlast: "distinct xs \<Longrightarrow> xs \<noteq> [] \<Longrightarrow> last xs \<notin> set (butlast xs)"
  by (cases xs rule: rev_cases) auto

section \<open>C strings\<close>

abbreviation NUL :: char where
  "NUL \<equiv> CHR 0x00"

abbreviation LF :: char where
  "LF \<equiv> CHR 0x0A"

text \<open>
  A pointer into memory is the list of the bytes from it up to the first unmapped byte. A
  function that runs off the end of that list faults.
\<close>

fun c_strlen :: "string \<Rightarrow> nat res" where
  "c_strlen [] = Inl Out_of_bounds"
| "c_strlen (c # cs) = (if c = NUL then Inr 0 else bindr (c_strlen cs) (\<lambda>n. Inr (Suc n)))"

text \<open>The string at a pointer: the bytes before the first NUL.\<close>

fun c_str :: "string \<Rightarrow> string res" where
  "c_str [] = Inl Out_of_bounds"
| "c_str (c # cs) = (if c = NUL then Inr [] else bindr (c_str cs) (\<lambda>s. Inr (c # s)))"

text \<open>\<^verbatim>\<open>strchr\<close> (and \<^verbatim>\<open>index\<close>): the offset of the first \<open>ch\<close>, \<open>None\<close> for null.\<close>

fun c_strchr :: "char \<Rightarrow> string \<Rightarrow> nat option res" where
  "c_strchr ch [] = Inl Out_of_bounds"
| "c_strchr ch (c # cs) =
     (if c = ch then Inr (Some 0)
      else if c = NUL then Inr None
      else bindr (c_strchr ch cs) (\<lambda>r. Inr (map_option Suc r)))"

text \<open>Does the string at a pointer start with \<open>needle\<close> (which has no NUL)?\<close>

fun c_match :: "string \<Rightarrow> string \<Rightarrow> bool res" where
  "c_match [] cs = Inr True"
| "c_match (p # ps) [] = Inl Out_of_bounds"
| "c_match (p # ps) (c # cs) = (if p = c then c_match ps cs else Inr False)"

text \<open>\<^verbatim>\<open>strstr\<close>: the offset of the first occurrence of a non-empty needle.\<close>

fun c_strstr :: "string \<Rightarrow> string \<Rightarrow> nat option res" where
  "c_strstr [] needle = Inl Out_of_bounds"
| "c_strstr (c # cs) needle =
     bindr (c_match needle (c # cs)) (\<lambda>b.
       if b then Inr (Some 0)
       else if c = NUL then Inr None
       else bindr (c_strstr cs needle) (\<lambda>r. Inr (map_option Suc r)))"

text \<open>\<^verbatim>\<open>memcpy\<close> of \<open>n\<close> bytes at offset \<open>off\<close> of a block.\<close>

definition splice_at :: "nat \<Rightarrow> string \<Rightarrow> string \<Rightarrow> string" where
  "splice_at off d b = take off b @ d @ drop (off + length d) b"

lemma length_splice_at [simp]: "off + length d \<le> length b \<Longrightarrow> length (splice_at off d b) = length b"
  by (simp add: splice_at_def)

lemma take_splice_at [simp]: "k \<le> off \<Longrightarrow> off \<le> length b \<Longrightarrow> take k (splice_at off d b) = take k b"
  by (simp add: splice_at_def)

lemma take_add_splice_at:
  "off \<le> length b \<Longrightarrow> take (off + length d) (splice_at off d b) = take off b @ d"
  by (simp add: splice_at_def)

lemma drop_splice_at [simp]:
  "off + length d \<le> k \<Longrightarrow> off \<le> length b \<Longrightarrow> drop k (splice_at off d b) = drop k b"
  by (simp add: splice_at_def add.commute)

lemma c_str_append: "NUL \<notin> set s \<Longrightarrow> c_str (s @ NUL # t) = Inr s"
  by (induction s) auto

lemma c_strlen_append: "NUL \<notin> set s \<Longrightarrow> c_strlen (s @ NUL # t) = Inr (length s)"
  by (induction s) auto

lemma c_strchr_hit: "ch \<notin> set s \<Longrightarrow> NUL \<notin> set s \<Longrightarrow> c_strchr ch (s @ ch # t) = Inr (Some (length s))"
  by (induction s) auto

lemma c_strchr_miss: "ch \<notin> set s \<Longrightarrow> NUL \<notin> set s \<Longrightarrow> ch \<noteq> NUL \<Longrightarrow> c_strchr ch (s @ NUL # t) = Inr None"
  by (induction s) auto

lemma c_strchr_runs_off: "ch \<notin> set s \<Longrightarrow> NUL \<notin> set s \<Longrightarrow> c_strchr ch s = Inl Out_of_bounds"
  by (induction s) auto

lemma c_match_prefix: "c_match p (p @ t) = Inr True"
  by (induction p) auto

lemma c_match_long: "length p \<le> length m \<Longrightarrow> c_match p m = Inr (take (length p) m = p)"
  by (induction p m rule: c_match.induct) auto

text \<open>\<^verbatim>\<open>strcmp\<close> on two strings: zero when they are equal (the only thing the program asks).\<close>

definition c_strcmp :: "string \<Rightarrow> string \<Rightarrow> int" where
  "c_strcmp a b = (if a = b then 0 else 1)"

lemma c_strcmp_eq_0 [simp]: "c_strcmp a b = 0 \<longleftrightarrow> a = b"
  by (simp add: c_strcmp_def)

text \<open>\<^verbatim>\<open>sprintf\<close> of the text \<open>s\<close> to the start of a block.\<close>

definition c_sprintf :: "string \<Rightarrow> string \<Rightarrow> string res" where
  "c_sprintf b s = (if length s < length b then Inr (splice_at 0 (s @ [NUL]) b) else Inl Out_of_bounds)"

lemma c_sprintf_exact: "length b = Suc (length s) \<Longrightarrow> c_sprintf b s = Inr (s @ [NUL])"
  by (simp add: c_sprintf_def splice_at_def)

lemma c_str_prefix: "c_str p = Inr s \<Longrightarrow> NUL \<notin> set s \<and> (\<exists>t. p = s @ NUL # t)"
proof (induction p arbitrary: s)
  case (Cons c cs)
  show ?case
  proof (cases "c = NUL")
    case True
    then show ?thesis using Cons.prems by auto
  next
    case False
    then obtain s' where s': "c_str cs = Inr s'" "s = c # s'" using Cons.prems by (auto simp: bindr_Inr_iff)
    then obtain t where "NUL \<notin> set s'" "cs = s' @ NUL # t" using Cons.IH by blast
    then show ?thesis using s'(2) False by auto
  qed
qed simp

lemma c_str_total: "NUL \<in> set p \<Longrightarrow> \<exists>s. c_str p = Inr s"
  by (induction p) auto

end
