(* ===== verification/CacheMod.thy ===== *)
theory CacheMod
  imports Prelude "HOL-Library.Multiset"
begin

text \<open>
  \<^verbatim>\<open>io/cache.c\<close>: the pool that reuses fixed-size memory blocks. A \<^verbatim>\<open>Cache\<close> is a
  block with its sizes; the pool keeps, for every size class, the queue of the blocks that
  wait to be reused (\<^verbatim>\<open>available_cache_node\<close>), and the list of all the blocks it ever
  made (\<^verbatim>\<open>all_node\<close>). A \<^verbatim>\<open>PCache\<close> is the number of its block in \<open>store\<close>: the module
  never frees a \<^verbatim>\<open>Cache\<close>, so numbers are never reused. A \<^verbatim>\<open>ListHead\<close> of list.h is
  the HOL list of its entries (the contract of theory ListH).
\<close>

section \<open>Data\<close>

record cache =
  allocated_size :: int
  cache_size :: int
  buff :: string

record size_class =
  allocated_cache_size :: int
  free_list :: "nat list"

text \<open>
  \<open>past_table i\<close> is the \<^verbatim>\<open>int\<close> that memory holds at index \<open>i\<close> of
  \<^verbatim>\<open>specified_cache_size\<close> when \<open>i\<close> is past its six entries.
\<close>

record pool = sys +
  available_cache_node :: "size_class list"
  all_node :: "nat list"
  store :: "cache list"
  spin_lock :: bool
  past_table :: "nat \<Rightarrow> int"

definition specified_cache_size :: "int list" where
  "specified_cache_size = [64, 128, 256, 512, 1024, 2048]"

text \<open>\<^verbatim>\<open>sizeof(specified_cache_size)\<close>: the size of the array in bytes, at 4 bytes an entry.\<close>

definition sizeof_specified_cache_size :: nat where
  "sizeof_specified_cache_size = 4 * length specified_cache_size"

definition table_entry :: "pool \<Rightarrow> nat \<Rightarrow> int" where
  "table_entry m i =
     (if i < length specified_cache_size then specified_cache_size ! i else past_table m i)"

section \<open>Operations\<close>

definition acquire :: "pool \<Rightarrow> pool res" where
  "acquire m = (if spin_lock m then Inl Deadlock else Inr (m\<lparr>spin_lock := True\<rparr>))"

definition release :: "pool \<Rightarrow> pool" where
  "release m = m\<lparr>spin_lock := False\<rparr>"

text \<open>\<^verbatim>\<open>initialise_cache_module\<close> has no return statement: the value its caller tests is \<open>garbage\<close>.\<close>

definition initialise_cache_module :: "int \<Rightarrow> pool \<Rightarrow> int \<times> pool" where
  "initialise_cache_module garbage m = (garbage, m\<lparr>spin_lock := False\<rparr>)"

text \<open>The loop body of \<^verbatim>\<open>make_sure_cache_mm\<close>, once for every index of a list.\<close>

fun make_classes :: "nat list \<Rightarrow> pool \<Rightarrow> pool res" where
  "make_classes [] m = Inr m"
| "make_classes (i # is) m =
     bindr (malloc_unchecked m) (\<lambda>m1.
       make_classes is (m1\<lparr>available_cache_node := available_cache_node m1 @
         [\<lparr>allocated_cache_size = table_entry m1 i, free_list = []\<rparr>]\<rparr>))"

definition make_sure_cache_mm :: "pool \<Rightarrow> pool res" where
  "make_sure_cache_mm m =
     (if available_cache_node m = [] then make_classes [0..<sizeof_specified_cache_size] m
      else Inr m)"

text \<open>The first class that satisfies the condition of a loop over \<^verbatim>\<open>available_cache_node\<close>.\<close>

fun find_class :: "(int \<Rightarrow> bool) \<Rightarrow> size_class list \<Rightarrow> nat option" where
  "find_class p [] = None"
| "find_class p (c # cs) =
     (if p (allocated_cache_size c) then Some 0 else map_option Suc (find_class p cs))"

text \<open>A block that is new to the pool: three unchecked \<^verbatim>\<open>malloc\<close>s.\<close>

definition fresh_cache :: "int \<Rightarrow> int \<Rightarrow> pool \<Rightarrow> (nat \<times> pool) res" where
  "fresh_cache allocated expected_size m =
     bindr (malloc_unchecked m) (\<lambda>m1.
     bindr (malloc_unchecked m1) (\<lambda>m2.
     bindr (malloc_unchecked m2) (\<lambda>m3.
       if allocated < 0 then Inl Null_deref
       else let c = length (store m3);
                b = \<lparr>allocated_size = allocated, cache_size = expected_size,
                     buff = replicate (nat allocated) NUL\<rparr>
            in Inr (c, m3\<lparr>all_node := all_node m3 @ [c], store := store m3 @ [b]\<rparr>))))"

text \<open>
  The first waiting block of class \<open>k\<close>. The list node is freed before its \<^verbatim>\<open>cache\<close>
  field is read, so the field reads as \<open>stale\<close> says.
\<close>

definition reuse_cache :: "nat \<Rightarrow> int \<Rightarrow> pool \<Rightarrow> (nat \<times> pool) res" where
  "reuse_cache k expected_size m =
     (let cls = available_cache_node m ! k;
          m1 = m\<lparr>available_cache_node := (available_cache_node m)[k := cls\<lparr>free_list := tl (free_list cls)\<rparr>]\<rparr>
      in case stale m1 (hd (free_list cls)) of
           None \<Rightarrow> Inl Use_after_free
         | Some c \<Rightarrow>
             if c < length (store m1)
             then Inr (c, m1\<lparr>store := (store m1)[c := (store m1 ! c)\<lparr>cache_size := expected_size\<rparr>]\<rparr>)
             else Inl Use_after_free)"

definition get_new_cache :: "int \<Rightarrow> pool \<Rightarrow> (nat option \<times> pool) res" where
  "get_new_cache expected_size m =
     bindr (acquire m) (\<lambda>m1.
     bindr (make_sure_cache_mm m1) (\<lambda>m2.
       case find_class (\<lambda>a. a \<ge> expected_size) (available_cache_node m2) of
         None \<Rightarrow> Inr (None, release m2)
       | Some k \<Rightarrow>
           let cls = available_cache_node m2 ! k
           in bindr (if free_list cls = [] then fresh_cache (allocated_cache_size cls) expected_size m2
                     else reuse_cache k expected_size m2)
                (\<lambda>(c, m3). Inr (Some c, release m3))))"

definition recycle_cache :: "nat \<Rightarrow> pool \<Rightarrow> (int \<times> pool) res" where
  "recycle_cache c m =
     bindr (acquire m) (\<lambda>m1.
     bindr (make_sure_cache_mm m1) (\<lambda>m2.
       if c \<ge> length (store m2) then Inl Out_of_bounds
       else
         let b = store m2 ! c;
             m3 = m2\<lparr>store := (store m2)[c := b\<lparr>buff := replicate (nat (allocated_size b)) NUL, cache_size := 0\<rparr>]\<rparr>
         in case find_class (\<lambda>a. a = allocated_size b) (available_cache_node m3) of
              None \<Rightarrow> Inr (- 1, release m3)
            | Some k \<Rightarrow>
                bindr (malloc_unchecked m3) (\<lambda>m4.
                  let cls = available_cache_node m4 ! k
                  in Inr (0, release (m4\<lparr>available_cache_node :=
                       (available_cache_node m4)[k := cls\<lparr>free_list := free_list cls @ [c]\<rparr>]\<rparr>)))))"

text \<open>
  The accesses of the other modules to the memory of a block: \<open>n\<close> bytes read or \<open>d\<close>
  written at an offset of \<^verbatim>\<open>cache->buff\<close>, and the string a pointer into it points to.
\<close>

definition cache_read :: "nat \<Rightarrow> int \<Rightarrow> nat \<Rightarrow> pool \<Rightarrow> string res" where
  "cache_read c off n m =
     (if c < length (store m) \<and> 0 \<le> off \<and> nat off + n \<le> length (buff (store m ! c))
      then Inr (take n (drop (nat off) (buff (store m ! c)))) else Inl Out_of_bounds)"

definition cache_write :: "nat \<Rightarrow> int \<Rightarrow> string \<Rightarrow> pool \<Rightarrow> pool res" where
  "cache_write c off d m =
     (if c < length (store m) \<and> 0 \<le> off \<and> nat off + length d \<le> length (buff (store m ! c))
      then Inr (m\<lparr>store := (store m)[c := (store m ! c)\<lparr>buff := splice_at (nat off) d (buff (store m ! c))\<rparr>]\<rparr>)
      else Inl Out_of_bounds)"

definition cache_pointer :: "nat \<Rightarrow> int \<Rightarrow> pool \<Rightarrow> string res" where
  "cache_pointer c off m =
     (if c < length (store m) \<and> 0 \<le> off \<and> nat off \<le> length (buff (store m ! c))
      then Inr (drop (nat off) (buff (store m ! c)) @ slack m) else Inl Out_of_bounds)"

definition release_cache_module :: "pool \<Rightarrow> pool" where
  "release_cache_module m = m"

section \<open>The invariant of the pool\<close>

text \<open>
  \<open>used\<close> are the blocks the clients of the module hold. No block is both held and waiting,
  none waits twice, and a waiting block is zeroed and sits in the class of its size. Blocks
  that are neither held nor waiting (leaked ones) are allowed.
\<close>

definition class_sizes :: "(nat \<Rightarrow> int) \<Rightarrow> int list" where
  "class_sizes tbl = specified_cache_size @ map tbl [6..<24]"

definition blank :: "int \<Rightarrow> int \<Rightarrow> cache" where
  "blank a n = \<lparr>allocated_size = a, cache_size = n, buff = replicate (nat a) NUL\<rparr>"

definition cache_wf :: "(nat \<Rightarrow> int) \<Rightarrow> cache \<Rightarrow> bool" where
  "cache_wf tbl b \<longleftrightarrow> 0 \<le> allocated_size b \<and> length (buff b) = nat (allocated_size b)
     \<and> allocated_size b \<in> set (class_sizes tbl)"

definition free_ids :: "size_class list \<Rightarrow> nat list" where
  "free_ids cs = concat (map free_list cs)"

definition pool_parts :: "size_class list \<Rightarrow> cache list \<Rightarrow> (nat \<Rightarrow> int) \<Rightarrow> nat list \<Rightarrow> bool" where
  "pool_parts cs st tbl used \<longleftrightarrow>
     (cs = [] \<or> map allocated_cache_size cs = class_sizes tbl)
     \<and> distinct (used @ free_ids cs)
     \<and> (\<forall>c \<in> set (used @ free_ids cs). c < length st)
     \<and> (\<forall>b \<in> set st. cache_wf tbl b)
     \<and> (\<forall>k \<in> set cs. \<forall>c \<in> set (free_list k). st ! c = blank (allocated_cache_size k) 0)"

definition pool_ok :: "pool \<Rightarrow> nat list \<Rightarrow> bool" where
  "pool_ok m used \<longleftrightarrow>
     \<not> spin_lock m \<and> pool_parts (available_cache_node m) (store m) (past_table m) used"

text \<open>Freeing a list node leaves its \<^verbatim>\<open>cache\<close> field readable (as glibc does).\<close>

definition benign_free :: "'a sys_scheme \<Rightarrow> bool" where
  "benign_free m \<longleftrightarrow> (\<forall>c. stale m c = Some c)"

text \<open>What every operation leaves alone: the environment, and the blocks of \<open>keep\<close>.\<close>

definition pool_frame :: "pool \<Rightarrow> pool \<Rightarrow> nat set \<Rightarrow> bool" where
  "pool_frame m m' keep \<longleftrightarrow>
     slack m' = slack m \<and> stale m' = stale m \<and> past_table m' = past_table m
     \<and> length (store m) \<le> length (store m') \<and> set (mallocs m') \<subseteq> set (mallocs m)
     \<and> (\<forall>c \<in> keep. c < length (store m) \<longrightarrow> store m' ! c = store m ! c)"

lemma pool_frame_refl [simp]: "pool_frame m m keep"
  by (simp add: pool_frame_def)

lemma pool_frame_trans:
  "pool_frame m1 m2 keep \<Longrightarrow> pool_frame m2 m3 keep \<Longrightarrow> pool_frame m1 m3 keep"
  by (auto simp: pool_frame_def)

lemma pool_frame_mono: "pool_frame m m' keep \<Longrightarrow> keep' \<subseteq> keep \<Longrightarrow> pool_frame m m' keep'"
  by (auto simp: pool_frame_def)

lemma pool_frame_env:
  assumes "pool_frame m m' keep"
  shows "benign_free m \<Longrightarrow> benign_free m'" and "plenty m \<Longrightarrow> plenty m'" and "slack m' = slack m"
  using assms by (auto simp: pool_frame_def benign_free_def plenty_def)

section \<open>Size classes\<close>

lemma find_class_Some:
  assumes "find_class p cs = Some k"
  obtains as c bs where "cs = as @ c # bs" "k = length as" "p (allocated_cache_size c)"
    "\<forall>a \<in> set as. \<not> p (allocated_cache_size a)"
proof -
  have "\<exists>as c bs. cs = as @ c # bs \<and> k = length as \<and> p (allocated_cache_size c)
      \<and> (\<forall>a \<in> set as. \<not> p (allocated_cache_size a))"
    using assms
  proof (induction cs arbitrary: k)
    case (Cons c cs)
    show ?case
    proof (cases "p (allocated_cache_size c)")
      case True
      then have "c # cs = [] @ c # cs \<and> k = length [] \<and> p (allocated_cache_size c)" using Cons.prems by simp
      then show ?thesis by (metis empty_iff list.set(1))
    next
      case False
      then obtain j where j: "find_class p cs = Some j" "k = Suc j" using Cons.prems by auto
      from Cons.IH[OF j(1)] obtain as d bs where "cs = as @ d # bs" "j = length as"
        "p (allocated_cache_size d)" "\<forall>a \<in> set as. \<not> p (allocated_cache_size a)" by blast
      then have "c # cs = (c # as) @ d # bs \<and> k = length (c # as) \<and> p (allocated_cache_size d)
          \<and> (\<forall>a \<in> set (c # as). \<not> p (allocated_cache_size a))"
        using False j by simp
      then show ?thesis by blast
    qed
  qed simp
  then show ?thesis using that by blast
qed

lemma find_class_None: "find_class p cs = None \<longleftrightarrow> (\<forall>a \<in> set (map allocated_cache_size cs). \<not> p a)"
  by (induction cs) auto

lemma malloc_unchecked_cases:
  "malloc_unchecked m = Inr m' \<Longrightarrow> \<exists>ms. m' = m\<lparr>mallocs := ms\<rparr> \<and> set ms \<subseteq> set (mallocs m)"
  using malloc_cases[of m] by (auto simp: malloc_unchecked_def split: bool.splits)

lemma malloc_unchecked_plenty:
  "plenty m \<Longrightarrow> \<exists>ms. malloc_unchecked m = Inr (m\<lparr>mallocs := ms\<rparr>) \<and> (\<forall>b \<in> set ms. b)"
  using malloc_plenty[of m] by (auto simp: malloc_unchecked_def)

lemma table_entry_cong: "past_table m' = past_table m \<Longrightarrow> table_entry m' = table_entry m"
  by (auto simp: table_entry_def)

lemma make_classes_Inr:
  "make_classes is m = Inr m' \<Longrightarrow> \<exists>ms. m' = m\<lparr>mallocs := ms, available_cache_node :=
     available_cache_node m @ map (\<lambda>i. \<lparr>allocated_cache_size = table_entry m i, free_list = []\<rparr>) is\<rparr>
     \<and> set ms \<subseteq> set (mallocs m)"
proof (induction "is" arbitrary: m)
  case Nil
  then have "m' = m\<lparr>mallocs := mallocs m, available_cache_node := available_cache_node m @ []\<rparr>" by simp
  then show ?case by (metis list.simps(8) subset_refl)
next
  case (Cons i "is")
  then obtain m1 where m1: "malloc_unchecked m = Inr m1"
    and r: "make_classes is (m1\<lparr>available_cache_node := available_cache_node m1 @
         [\<lparr>allocated_cache_size = table_entry m1 i, free_list = []\<rparr>]\<rparr>) = Inr m'"
    by (auto simp: bindr_Inr_iff)
  obtain ms where ms: "m1 = m\<lparr>mallocs := ms\<rparr>" "set ms \<subseteq> set (mallocs m)"
    using malloc_unchecked_cases[OF m1] by blast
  define m2 where "m2 = m1\<lparr>available_cache_node := available_cache_node m1 @
         [\<lparr>allocated_cache_size = table_entry m1 i, free_list = []\<rparr>]\<rparr>"
  have te: "table_entry m2 = table_entry m" "table_entry m1 = table_entry m"
    by (rule table_entry_cong, simp add: ms(1) m2_def)+
  from Cons.IH[OF r[folded m2_def]] obtain ms' where m': "m' = m2\<lparr>mallocs := ms', available_cache_node :=
      available_cache_node m2 @ map (\<lambda>i. \<lparr>allocated_cache_size = table_entry m i, free_list = []\<rparr>) is\<rparr>"
    and sub: "set ms' \<subseteq> set (mallocs m2)"
    unfolding te by blast
  have "m' = m\<lparr>mallocs := ms', available_cache_node :=
      available_cache_node m @ map (\<lambda>i. \<lparr>allocated_cache_size = table_entry m i, free_list = []\<rparr>) (i # is)\<rparr>"
    unfolding m' unfolding m2_def te(2) by (simp add: ms(1))
  moreover have "set ms' \<subseteq> set (mallocs m)" using sub ms by (simp add: m2_def)
  ultimately show ?case by blast
qed

lemma make_classes_plenty: "plenty m \<Longrightarrow> \<exists>m'. make_classes is m = Inr m'"
proof (induction "is" arbitrary: m)
  case (Cons i "is")
  then obtain ms where "malloc_unchecked m = Inr (m\<lparr>mallocs := ms\<rparr>)" "\<forall>b \<in> set ms. b"
    using malloc_unchecked_plenty by blast
  then show ?case using Cons.IH by (simp add: plenty_def)
qed simp

lemma table_entries: "map (table_entry m) [0..<sizeof_specified_cache_size] = class_sizes (past_table m)"
proof (rule nth_equalityI)
  show "length (map (table_entry m) [0..<sizeof_specified_cache_size]) = length (class_sizes (past_table m))"
    by (simp add: sizeof_specified_cache_size_def specified_cache_size_def class_sizes_def)
next
  fix i assume "i < length (map (table_entry m) [0..<sizeof_specified_cache_size])"
  then have "i < 24" by (simp add: sizeof_specified_cache_size_def specified_cache_size_def)
  then show "map (table_entry m) [0..<sizeof_specified_cache_size] ! i = class_sizes (past_table m) ! i"
    by (simp add: sizeof_specified_cache_size_def specified_cache_size_def class_sizes_def
        table_entry_def nth_append nth_Cons' del: upt_conv_Cons upt_rec_numeral)
qed

lemma pool_parts_unused:
  assumes "pool_parts [] st tbl used" and "map allocated_cache_size cs = class_sizes tbl"
    and "\<forall>k \<in> set cs. free_list k = []"
  shows "pool_parts cs st tbl used"
proof -
  have "free_ids cs = []" using assms(3) by (simp add: free_ids_def)
  then show ?thesis using assms by (simp add: pool_parts_def free_ids_def[of "[]"])
qed

lemma make_sure_Inr:
  assumes "make_sure_cache_mm m = Inr m'"
    and "pool_parts (available_cache_node m) (store m) (past_table m) used"
  obtains ms cs where "m' = m\<lparr>mallocs := ms, available_cache_node := cs\<rparr>" "set ms \<subseteq> set (mallocs m)"
    "map allocated_cache_size cs = class_sizes (past_table m)"
    "pool_parts cs (store m) (past_table m) used"
proof (cases "available_cache_node m = []")
  case False
  then have "m' = m\<lparr>mallocs := mallocs m, available_cache_node := available_cache_node m\<rparr>"
    using assms(1) by (simp add: make_sure_cache_mm_def)
  moreover have "map allocated_cache_size (available_cache_node m) = class_sizes (past_table m)"
    using assms(2) False by (simp add: pool_parts_def)
  ultimately show ?thesis using that[OF _ subset_refl _ assms(2)] by blast
next
  case True
  let ?cs = "map (\<lambda>i. \<lparr>allocated_cache_size = table_entry m i, free_list = []\<rparr>) [0..<sizeof_specified_cache_size]"
  obtain ms where "m' = m\<lparr>mallocs := ms, available_cache_node := ?cs\<rparr>" "set ms \<subseteq> set (mallocs m)"
    using make_classes_Inr[of _ m m'] assms(1) True by (auto simp: make_sure_cache_mm_def)
  moreover have sizes: "map allocated_cache_size ?cs = class_sizes (past_table m)"
    unfolding table_entries[symmetric] by simp
  moreover have "\<forall>k \<in> set ?cs. free_list k = []" by auto
  moreover have "pool_parts ?cs (store m) (past_table m) used"
    using assms(2) True pool_parts_unused[OF _ sizes] \<open>\<forall>k \<in> set ?cs. free_list k = []\<close> by metis
  ultimately show ?thesis using that by blast
qed

lemma make_sure_plenty: "plenty m \<Longrightarrow> \<exists>m'. make_sure_cache_mm m = Inr m'"
  using make_classes_plenty by (auto simp: make_sure_cache_mm_def)

text \<open>The smallest class that is big enough, for the sizes of the table proper.\<close>

definition class_for :: "int \<Rightarrow> int" where
  "class_for n = (if n \<le> 64 then 64 else if n \<le> 128 then 128 else if n \<le> 256 then 256
     else if n \<le> 512 then 512 else if n \<le> 1024 then 1024 else 2048)"

lemma find_class_small:
  assumes "map allocated_cache_size cs = class_sizes tbl" and "n \<le> 2048"
  shows "\<exists>k. find_class (\<lambda>a. a \<ge> n) cs = Some k \<and> k < length cs \<and> allocated_cache_size (cs ! k) = class_for n"
proof -
  have hd6: "\<exists>c0 c1 c2 c3 c4 c5 r. cs = c0 # c1 # c2 # c3 # c4 # c5 # r
      \<and> map allocated_cache_size [c0, c1, c2, c3, c4, c5] = specified_cache_size"
    using assms(1) unfolding class_sizes_def specified_cache_size_def
    by (auto simp: map_eq_append_conv map_eq_Cons_conv)
  then show ?thesis
    using assms(2) by (auto simp: specified_cache_size_def class_for_def)
qed

section \<open>get_new_cache keeps the invariant\<close>

lemma pool_parts_fresh:
  assumes "pool_parts cs st tbl used" and "0 \<le> a" and "a \<in> set (class_sizes tbl)"
  shows "pool_parts cs (st @ [blank a n]) tbl (length st # used)"
proof -
  have lt: "\<forall>c \<in> set (used @ free_ids cs). c < length st" and d: "distinct (used @ free_ids cs)"
    using assms(1) by (auto simp: pool_parts_def)
  then have "length st \<notin> set (used @ free_ids cs)" by blast
  with d have "distinct ((length st # used) @ free_ids cs)" by simp
  moreover have "\<forall>c \<in> set ((length st # used) @ free_ids cs). c < length (st @ [blank a n])"
    using lt by (auto intro: less_SucI)
  moreover have "cache_wf tbl (blank a n)" using assms(2,3) by (simp add: cache_wf_def blank_def)
  moreover have "\<forall>k \<in> set cs. \<forall>c \<in> set (free_list k). (st @ [blank a n]) ! c = st ! c"
    using lt by (auto simp: nth_append free_ids_def)
  ultimately show ?thesis using assms(1) unfolding pool_parts_def by auto
qed

lemma pool_parts_reuse:
  assumes p: "pool_parts (as @ k # bs) st tbl used" and fl: "free_list k = c # fs"
  shows "pool_parts (as @ k\<lparr>free_list := fs\<rparr> # bs) (st[c := (st ! c)\<lparr>cache_size := n\<rparr>]) tbl (c # used)"
    and "c < length st" and "c \<notin> set used" and "st ! c = blank (allocated_cache_size k) 0"
proof -
  show c: "c < length st" "c \<notin> set used" "st ! c = blank (allocated_cache_size k) 0"
    using p fl by (auto simp: pool_parts_def free_ids_def)
  have d: "distinct (used @ free_ids (as @ k # bs))" using p by (simp add: pool_parts_def)
  then have "distinct ((c # used) @ free_ids (as @ k\<lparr>free_list := fs\<rparr> # bs))"
    using fl by (auto simp: free_ids_def)
  moreover have "st[c := (st ! c)\<lparr>cache_size := n\<rparr>] ! e = blank (allocated_cache_size j) 0"
    if j: "j \<in> set (as @ k\<lparr>free_list := fs\<rparr> # bs)" and e: "e \<in> set (free_list j)" for j e
  proof -
    have "e \<noteq> c" using d fl j e by (auto simp: free_ids_def)
    moreover have "st ! e = blank (allocated_cache_size j) 0" using p fl j e by (auto simp: pool_parts_def)
    ultimately show ?thesis by simp
  qed
  moreover have "\<forall>b \<in> set (st[c := (st ! c)\<lparr>cache_size := n\<rparr>]). cache_wf tbl b"
  proof
    fix b assume "b \<in> set (st[c := (st ! c)\<lparr>cache_size := n\<rparr>])"
    then have "b \<in> set st \<or> b = (st ! c)\<lparr>cache_size := n\<rparr>" using set_update_subset_insert by fast
    moreover have "cache_wf tbl (st ! c)" using p c(1) by (simp add: pool_parts_def)
    ultimately show "cache_wf tbl b" using p by (auto simp: pool_parts_def cache_wf_def)
  qed
  moreover have "\<forall>d \<in> set ((c # used) @ free_ids (as @ k\<lparr>free_list := fs\<rparr> # bs)). d < length st"
    using p fl by (auto simp: pool_parts_def free_ids_def)
  moreover have "map allocated_cache_size (as @ k\<lparr>free_list := fs\<rparr> # bs) = class_sizes tbl"
    using p by (auto simp: pool_parts_def)
  ultimately show "pool_parts (as @ k\<lparr>free_list := fs\<rparr> # bs) (st[c := (st ! c)\<lparr>cache_size := n\<rparr>]) tbl (c # used)"
    unfolding pool_parts_def by auto
qed

lemma fresh_cache_Inr:
  assumes "fresh_cache a n m = Inr (c, m')"
  shows "0 \<le> a" and "c = length (store m)"
    and "\<exists>ms. m' = m\<lparr>mallocs := ms, all_node := all_node m @ [c], store := store m @ [blank a n]\<rparr>
      \<and> set ms \<subseteq> set (mallocs m)"
proof -
  obtain m1 m2 m3 where m: "malloc_unchecked m = Inr m1" "malloc_unchecked m1 = Inr m2"
      "malloc_unchecked m2 = Inr m3" and a: "0 \<le> a" and c: "c = length (store m3)"
    and m': "m' = m3\<lparr>all_node := all_node m3 @ [c], store := store m3 @ [blank a n]\<rparr>"
    using assms unfolding fresh_cache_def bindr_Inr_iff Let_def blank_def
    by (auto split: if_splits)
  from m obtain ms where "m3 = m\<lparr>mallocs := ms\<rparr>" "set ms \<subseteq> set (mallocs m)"
    using malloc_unchecked_cases by (fastforce dest!: malloc_unchecked_cases)
  then show "0 \<le> a" "c = length (store m)"
    "\<exists>ms. m' = m\<lparr>mallocs := ms, all_node := all_node m @ [c], store := store m @ [blank a n]\<rparr>
      \<and> set ms \<subseteq> set (mallocs m)"
    using a c m' by auto
qed

lemma fresh_cache_plenty:
  assumes "plenty m" and "0 \<le> a"
  shows "\<exists>r. fresh_cache a n m = Inr r"
proof -
  obtain ms where m1: "malloc_unchecked m = Inr (m\<lparr>mallocs := ms\<rparr>)" "plenty (m\<lparr>mallocs := ms\<rparr>)"
    using malloc_unchecked_plenty[OF assms(1)] by (auto simp: plenty_def)
  obtain ms' where m2: "malloc_unchecked (m\<lparr>mallocs := ms\<rparr>) = Inr (m\<lparr>mallocs := ms'\<rparr>)" "plenty (m\<lparr>mallocs := ms'\<rparr>)"
    using malloc_unchecked_plenty[OF m1(2)] by (auto simp: plenty_def)
  obtain m3 where m3: "malloc_unchecked (m\<lparr>mallocs := ms'\<rparr>) = Inr m3"
    using malloc_unchecked_plenty[OF m2(2)] by auto
  show ?thesis using assms(2) by (simp add: fresh_cache_def m1 m2 m3 Let_def)
qed

text \<open>What a successful call promises about the block it hands out.\<close>

definition handed_out :: "int \<Rightarrow> pool \<Rightarrow> pool \<Rightarrow> nat list \<Rightarrow> nat \<Rightarrow> bool" where
  "handed_out n m m' used c \<longleftrightarrow>
     c \<notin> set used \<and> pool_ok m' (c # used) \<and> pool_frame m m' (set used)
     \<and> (\<exists>a \<ge> n. a \<in> set (class_sizes (past_table m)) \<and> 0 \<le> a
         \<and> store m' ! c = blank a n \<and> (n \<le> 2048 \<longrightarrow> a = class_for n))"

lemma class_at: "map allocated_cache_size cs = class_sizes tbl \<Longrightarrow> k < length cs
    \<Longrightarrow> allocated_cache_size (cs ! k) \<in> set (class_sizes tbl)"
  by (metis length_map nth_map nth_mem)

lemma acquire_ok: "pool_ok m used \<Longrightarrow> acquire m = Inr (m\<lparr>spin_lock := True\<rparr>)"
  by (simp add: acquire_def pool_ok_def)

lemma blank_resize [simp]: "(blank a n)\<lparr>cache_size := k\<rparr> = blank a k"
  by (simp add: blank_def)

lemma reuse_cache_Inr:
  assumes r: "reuse_cache k n m = Inr (c, m')" and k: "k < length (available_cache_node m)"
    and ne: "free_list (available_cache_node m ! k) \<noteq> []" and b: "benign_free m"
    and p: "pool_parts (available_cache_node m) (store m) (past_table m) used"
  shows "\<exists>cs. m' = m\<lparr>available_cache_node := cs, store := (store m)[c := blank (allocated_cache_size (available_cache_node m ! k)) n]\<rparr>
      \<and> pool_parts cs (store m') (past_table m) (c # used)"
    and "c \<notin> set used" and "c < length (store m)"
proof -
  let ?cs = "available_cache_node m" and ?cl = "available_cache_node m ! k"
  obtain d fs where fl: "free_list ?cl = d # fs" using ne by (cases "free_list ?cl") auto
  have sp: "?cs = take k ?cs @ ?cl # drop (Suc k) ?cs" using k by (simp add: id_take_nth_drop)
  have p': "pool_parts (take k ?cs @ ?cl # drop (Suc k) ?cs) (store m) (past_table m) used" using p sp by simp
  note pr = pool_parts_reuse[OF p' fl]
  have c: "c = d" and m': "m' = m\<lparr>available_cache_node := ?cs[k := ?cl\<lparr>free_list := fs\<rparr>],
      store := (store m)[c := (store m ! c)\<lparr>cache_size := n\<rparr>]\<rparr>"
    using r fl b by (auto simp: reuse_cache_def benign_free_def Let_def split: if_splits)
  show "c \<notin> set used" "c < length (store m)" using pr c by auto
  have "?cs[k := ?cl\<lparr>free_list := fs\<rparr>] = take k ?cs @ ?cl\<lparr>free_list := fs\<rparr> # drop (Suc k) ?cs"
    using k by (simp add: upd_conv_take_nth_drop)
  then show "\<exists>cs. m' = m\<lparr>available_cache_node := cs, store := (store m)[c := blank (allocated_cache_size ?cl) n]\<rparr>
      \<and> pool_parts cs (store m') (past_table m) (c # used)"
    using pr(1)[of n] pr(4) unfolding m' c by auto
qed

text \<open>The state once the lock is taken and the classes exist.\<close>

lemma make_sure_free:
  "make_sure_cache_mm m = Inr m' \<Longrightarrow> free_ids (available_cache_node m') = free_ids (available_cache_node m)"
  using make_classes_Inr[of "[0..<sizeof_specified_cache_size]" m m']
  by (auto simp: make_sure_cache_mm_def free_ids_def o_def split: if_splits)

lemma locked_classes:
  assumes ms: "make_sure_cache_mm (m\<lparr>spin_lock := True\<rparr>) = Inr m2" and ok: "pool_ok m used"
  shows "\<exists>ms cs. m2 = m\<lparr>spin_lock := True, mallocs := ms, available_cache_node := cs\<rparr>
      \<and> set ms \<subseteq> set (mallocs m) \<and> map allocated_cache_size cs = class_sizes (past_table m)
      \<and> pool_parts cs (store m) (past_table m) used"
proof -
  let ?l = "m\<lparr>spin_lock := True\<rparr>"
  have "pool_parts (available_cache_node ?l) (store ?l) (past_table ?l) used"
    using ok by (simp add: pool_ok_def)
  then obtain ms cs where "m2 = ?l\<lparr>mallocs := ms, available_cache_node := cs\<rparr>"
      "set ms \<subseteq> set (mallocs ?l)" "map allocated_cache_size cs = class_sizes (past_table ?l)"
      "pool_parts cs (store ?l) (past_table ?l) used"
    using make_sure_Inr[OF ms] by blast
  then have "m2 = m\<lparr>spin_lock := True, mallocs := ms, available_cache_node := cs\<rparr>"
      "set ms \<subseteq> set (mallocs m)" "map allocated_cache_size cs = class_sizes (past_table m)"
      "pool_parts cs (store m) (past_table m) used"
    by simp_all
  then show ?thesis by blast
qed

text \<open>The two ways \<^verbatim>\<open>get_new_cache\<close> returns, with the class it chose.\<close>

lemma get_new_cache_cases:
  assumes g: "get_new_cache n m = Inr (r, m')" and ok: "pool_ok m used"
  obtains (none) ms cs where "r = None" "m' = m\<lparr>mallocs := ms, available_cache_node := cs\<rparr>"
      "set ms \<subseteq> set (mallocs m)" "pool_parts cs (store m) (past_table m) used"
      "\<forall>a \<in> set (class_sizes (past_table m)). \<not> n \<le> a"
  | (some) m2 k c m3 where "r = Some c" "m' = release m3"
      "pool_parts (available_cache_node m2) (store m) (past_table m) used"
      "map allocated_cache_size (available_cache_node m2) = class_sizes (past_table m)"
      "store m2 = store m" "slack m2 = slack m" "stale m2 = stale m" "past_table m2 = past_table m"
      "set (mallocs m2) \<subseteq> set (mallocs m)"
      "find_class (\<lambda>a. n \<le> a) (available_cache_node m2) = Some k"
      "(if free_list (available_cache_node m2 ! k) = []
        then fresh_cache (allocated_cache_size (available_cache_node m2 ! k)) n m2
        else reuse_cache k n m2) = Inr (c, m3)"
proof -
  obtain m2 where ms: "make_sure_cache_mm (m\<lparr>spin_lock := True\<rparr>) = Inr m2"
    using g acquire_ok[OF ok] by (auto simp: get_new_cache_def bindr_Inr_iff)
  obtain ms cs where m2: "m2 = m\<lparr>spin_lock := True, mallocs := ms, available_cache_node := cs\<rparr>"
      "set ms \<subseteq> set (mallocs m)" "map allocated_cache_size cs = class_sizes (past_table m)"
      "pool_parts cs (store m) (past_table m) used"
    using locked_classes[OF ms ok] by blast
  show ?thesis
  proof (cases "find_class (\<lambda>a. n \<le> a) cs")
    case None
    then have "r = None" "m' = release m2"
      using g acquire_ok[OF ok] ms m2(1) by (auto simp: get_new_cache_def)
    moreover have "m' = m\<lparr>mallocs := ms, available_cache_node := cs\<rparr>"
      using ok by (simp add: \<open>m' = release m2\<close> m2(1) release_def pool_ok_def)
    moreover have "\<forall>a \<in> set (class_sizes (past_table m)). \<not> n \<le> a"
      using None find_class_None m2(3) by metis
    ultimately show ?thesis using none m2 by blast
  next
    case (Some k)
    then obtain c m3 where "r = Some c" "m' = release m3"
      "(if free_list (cs ! k) = [] then fresh_cache (allocated_cache_size (cs ! k)) n m2 else reuse_cache k n m2) = Inr (c, m3)"
      using g acquire_ok[OF ok] ms m2(1) by (auto simp: get_new_cache_def bindr_Inr_iff Let_def)
    moreover have sel: "available_cache_node m2 = cs" "store m2 = store m" "slack m2 = slack m"
      "stale m2 = stale m" "past_table m2 = past_table m" "mallocs m2 = ms"
      by (simp_all add: m2(1))
    ultimately show ?thesis using some[of c m3 m2 k, unfolded sel] Some m2(2-4) by blast
  qed
qed

lemma get_new_cache_None:
  assumes g: "get_new_cache n m = Inr (None, m')" and ok: "pool_ok m used"
  shows "pool_ok m' used" and "pool_frame m m' keep" and "store m' = store m"
    and "\<forall>a \<in> set (class_sizes (past_table m)). a < n"
  using g ok
  by (cases rule: get_new_cache_cases[OF g ok]; force simp: pool_ok_def pool_frame_def not_le)+

lemma get_new_cache_Some:
  assumes g: "get_new_cache n m = Inr (Some c, m')" and ok: "pool_ok m used" and b: "benign_free m"
  shows "handed_out n m m' used c"
  using g ok
proof (cases rule: get_new_cache_cases)
  case (some m2 k c' m3)
  note m2 = some(3-9) and c = some(1) and m' = some(2)
  let ?a = "allocated_cache_size (available_cache_node m2 ! k)"
  obtain as cl bs where sp: "available_cache_node m2 = as @ cl # bs" "k = length as" "n \<le> allocated_cache_size cl"
    using find_class_Some[OF some(10)] by blast
  have k: "k < length (available_cache_node m2)" and a: "n \<le> ?a" using sp by auto
  have acl: "?a \<in> set (class_sizes (past_table m))" by (rule class_at[OF m2(2) k])
  have small: "n \<le> 2048 \<Longrightarrow> ?a = class_for n" using find_class_small[OF m2(2), of n] some(10) by auto
  show ?thesis
  proof (cases "free_list (available_cache_node m2 ! k) = []")
    case True
    then have f: "fresh_cache ?a n m2 = Inr (c', m3)" using some(11) by simp
    obtain ms where m3: "m3 = m2\<lparr>mallocs := ms, all_node := all_node m2 @ [c'], store := store m2 @ [blank ?a n]\<rparr>"
        "set ms \<subseteq> set (mallocs m2)" and c': "c' = length (store m)" and a0: "0 \<le> ?a"
      using fresh_cache_Inr[OF f] m2(3) by auto
    have "pool_parts (available_cache_node m2) (store m @ [blank ?a n]) (past_table m) (c' # used)"
      using pool_parts_fresh[OF m2(1) a0 acl] c' by simp
    moreover have "c' \<notin> set used" using m2(1) c' by (auto simp: pool_parts_def)
    ultimately show ?thesis
      using m2 m3 c c' a a0 acl small
      unfolding handed_out_def m' pool_ok_def pool_frame_def release_def by (auto simp: nth_append)
  next
    case False
    then have f: "reuse_cache k n m2 = Inr (c', m3)" using some(11) by simp
    have p2: "pool_parts (available_cache_node m2) (store m2) (past_table m2) used" using m2 by simp
    have "benign_free m2" using b m2(5) by (simp add: benign_free_def)
    from reuse_cache_Inr[OF f k False this p2] obtain cs where
      m3: "m3 = m2\<lparr>available_cache_node := cs, store := (store m2)[c' := blank ?a n]\<rparr>"
        "pool_parts cs (store m3) (past_table m2) (c' # used)" and c': "c' \<notin> set used" "c' < length (store m2)"
      by blast
    have "cache_wf (past_table m) (blank ?a n)"
    proof -
      have "blank ?a n \<in> set (store m3)" using m3(1) c'(2) by (simp add: set_update_memI)
      then show ?thesis using m3(2) m2(6) by (simp add: pool_parts_def)
    qed
    then have "0 \<le> ?a" by (simp add: cache_wf_def blank_def)
    then show ?thesis
      using nth_update_other[OF c'(1)] m2 m3 c c' a acl small
      unfolding handed_out_def m' pool_ok_def pool_frame_def release_def by auto
  qed
qed simp


lemma get_new_cache_total:
  assumes ok: "pool_ok m used" and b: "benign_free m" and pl: "plenty m" and n: "0 \<le> n"
  shows "\<exists>r m'. get_new_cache n m = Inr (r, m')"
proof -
  let ?l = "m\<lparr>spin_lock := True\<rparr>"
  have "plenty ?l" using pl by (simp add: plenty_def)
  then obtain m2 where ms: "make_sure_cache_mm ?l = Inr m2" using make_sure_plenty by blast
  obtain ms cs where m2: "m2 = m\<lparr>spin_lock := True, mallocs := ms, available_cache_node := cs\<rparr>"
      "set ms \<subseteq> set (mallocs m)" "pool_parts cs (store m) (past_table m) used"
    using locked_classes[OF ms ok] by blast
  show ?thesis
  proof (cases "find_class (\<lambda>a. n \<le> a) cs")
    case None
    then show ?thesis using acquire_ok[OF ok] ms m2(1) by (simp add: get_new_cache_def)
  next
    case (Some k)
    then obtain as cl bs where cs: "cs = as @ cl # bs" "k = length as" "n \<le> allocated_cache_size cl"
      using find_class_Some[OF Some] by blast
    have "\<exists>r. (if free_list cl = [] then fresh_cache (allocated_cache_size cl) n m2 else reuse_cache k n m2) = Inr r"
    proof (cases "free_list cl")
      case Nil
      have "plenty m2" using pl m2(1,2) by (auto simp: plenty_def)
      then show ?thesis using fresh_cache_plenty[of m2 "allocated_cache_size cl" n] n cs(3) Nil by simp
    next
      case (Cons d fs)
      then have "d < length (store m)" using m2(3) cs by (auto simp: pool_parts_def free_ids_def)
      then show ?thesis using Cons m2(1) cs b by (simp add: reuse_cache_def benign_free_def Let_def)
    qed
    then show ?thesis using acquire_ok[OF ok] ms m2(1) Some cs(1,2)
      by (auto simp: get_new_cache_def Let_def)
  qed
qed

text \<open>The only fault of a good pool is a \<^verbatim>\<open>malloc\<close> whose result is not checked.\<close>

lemma malloc_unchecked_Inl: "malloc_unchecked m = Inl e \<Longrightarrow> e = Null_deref"
  by (auto simp: malloc_unchecked_def split: prod.splits bool.splits)

lemma make_classes_Inl: "make_classes is m = Inl e \<Longrightarrow> e = Null_deref"
proof (induction "is" arbitrary: m)
  case (Cons i "is")
  then show ?case by (cases "malloc_unchecked m") (auto dest: malloc_unchecked_Inl)
qed simp

lemma fresh_cache_Inl: "fresh_cache a n m = Inl e \<Longrightarrow> e = Null_deref"
  by (auto simp: fresh_cache_def bindr_def Let_def dest!: malloc_unchecked_Inl split: sum.splits if_splits)

lemma get_new_cache_Inl:
  assumes g: "get_new_cache n m = Inl e" and ok: "pool_ok m used" and b: "benign_free m"
  shows "e = Null_deref"
proof (cases "make_sure_cache_mm (m\<lparr>spin_lock := True\<rparr>)")
  case (Inl e')
  then have "e' = Null_deref" by (auto simp: make_sure_cache_mm_def dest: make_classes_Inl split: if_splits)
  then show ?thesis using g Inl acquire_ok[OF ok] by (simp add: get_new_cache_def)
next
  case (Inr m2)
  obtain ms cs where m2: "m2 = m\<lparr>spin_lock := True, mallocs := ms, available_cache_node := cs\<rparr>"
      "pool_parts cs (store m) (past_table m) used"
    using locked_classes[OF Inr ok] by blast
  obtain k where k: "find_class (\<lambda>a. n \<le> a) cs = Some k"
    using g Inr acquire_ok[OF ok] m2(1) by (auto simp: get_new_cache_def split: option.splits)
  then obtain as cl bs where cs: "cs = as @ cl # bs" "k = length as" using find_class_Some[OF k] by blast
  have "free_list cl = []"
  proof (rule ccontr)
    assume "free_list cl \<noteq> []"
    then obtain d fs where f: "free_list cl = d # fs" by (cases "free_list cl") auto
    then have "d < length (store m)" using m2(2) cs by (auto simp: pool_parts_def free_ids_def)
    then have "\<exists>r. reuse_cache k n m2 = Inr r" using f m2(1) cs b by (simp add: reuse_cache_def benign_free_def Let_def)
    then show False using g Inr acquire_ok[OF ok] m2(1) k cs f by (auto simp: get_new_cache_def Let_def)
  qed
  then show ?thesis using g Inr acquire_ok[OF ok] m2(1) k cs
    by (cases "fresh_cache (allocated_cache_size cl) n m2") (auto simp: get_new_cache_def Let_def dest: fresh_cache_Inl)
qed

lemma get_new_cache_small:
  assumes ok: "pool_ok m used" and b: "benign_free m" and pl: "plenty m" and n: "0 \<le> n" "n \<le> 2048"
  shows "\<exists>c m'. get_new_cache n m = Inr (Some c, m') \<and> handed_out n m m' used c"
proof -
  obtain r m' where g: "get_new_cache n m = Inr (r, m')" using get_new_cache_total[OF ok b pl n(1)] by blast
  moreover have "r \<noteq> None"
  proof
    assume "r = None"
    then have "\<forall>a \<in> set (class_sizes (past_table m)). a < n" using get_new_cache_None(4) g ok by blast
    then show False using n by (auto simp: class_sizes_def specified_cache_size_def)
  qed
  ultimately show ?thesis using get_new_cache_Some ok b by blast
qed

section \<open>recycle_cache keeps the invariant\<close>

lemma pool_parts_zero:
  assumes "pool_parts cs st tbl used" and "c \<in> set used" and "b = st ! c"
  shows "pool_parts cs (st[c := blank (allocated_size b) 0]) tbl (remove1 c used)"
    and "distinct (remove1 c used @ free_ids cs)" and "c \<notin> set (remove1 c used @ free_ids cs)"
    and "c < length st" and "allocated_size b \<in> set (class_sizes tbl)" and "0 \<le> allocated_size b"
proof -
  have d: "distinct used" "c \<notin> set (free_ids cs)" and c: "c < length st"
    using assms(1,2) by (auto simp: pool_parts_def)
  show "c < length st" by (rule c)
  show wf: "allocated_size b \<in> set (class_sizes tbl)" "0 \<le> allocated_size b"
    using assms(1,3) c by (auto simp: pool_parts_def cache_wf_def)
  show "distinct (remove1 c used @ free_ids cs)" "c \<notin> set (remove1 c used @ free_ids cs)"
    using assms(1) d by (auto simp: pool_parts_def)
  moreover have "\<forall>k \<in> set cs. \<forall>e \<in> set (free_list k). e \<noteq> c" using d(2) by (auto simp: free_ids_def)
  moreover have "\<forall>x \<in> set (st[c := blank (allocated_size b) 0]). cache_wf tbl x"
  proof
    fix x assume "x \<in> set (st[c := blank (allocated_size b) 0])"
    then have "x \<in> set st \<or> x = blank (allocated_size b) 0" using set_update_subset_insert by fast
    then show "cache_wf tbl x" using assms(1) wf by (auto simp: pool_parts_def cache_wf_def blank_def)
  qed
  moreover have "\<forall>k \<in> set cs. \<forall>e \<in> set (free_list k). st[c := x] ! e = st ! e" for x
    using calculation by (metis nth_list_update_neq)
  ultimately show "pool_parts cs (st[c := blank (allocated_size b) 0]) tbl (remove1 c used)"
    using assms(1) unfolding pool_parts_def by (auto dest: notin_set_remove1 set_remove1_subset[THEN subsetD])
qed

lemma pool_parts_enqueue:
  assumes p: "pool_parts (as @ k # bs) st tbl used" and c: "c < length st"
    and d: "c \<notin> set (used @ free_ids (as @ k # bs))" and b: "st ! c = blank (allocated_cache_size k) 0"
  shows "pool_parts (as @ k\<lparr>free_list := free_list k @ [c]\<rparr> # bs) st tbl used"
proof -
  have "distinct (used @ free_ids (as @ k\<lparr>free_list := free_list k @ [c]\<rparr> # bs))"
    using p d by (auto simp: pool_parts_def free_ids_def)
  moreover have "\<forall>e \<in> set (used @ free_ids (as @ k\<lparr>free_list := free_list k @ [c]\<rparr> # bs)). e < length st"
    using p c by (auto simp: pool_parts_def free_ids_def)
  moreover have "map allocated_cache_size (as @ k\<lparr>free_list := free_list k @ [c]\<rparr> # bs) = class_sizes tbl"
    using p by (auto simp: pool_parts_def)
  ultimately show ?thesis using p b unfolding pool_parts_def by auto
qed

lemma find_class_exact:
  assumes "map allocated_cache_size cs = class_sizes tbl" and "a \<in> set (class_sizes tbl)"
  obtains as k bs where "find_class (\<lambda>x. x = a) cs = Some (length as)" "cs = as @ k # bs" "allocated_cache_size k = a"
proof -
  have "find_class (\<lambda>x. x = a) cs \<noteq> None" unfolding find_class_None using assms by simp
  then obtain j where j: "find_class (\<lambda>x. x = a) cs = Some j" by auto
  obtain as k bs where "cs = as @ k # bs" "j = length as" "allocated_cache_size k = a"
    by (rule find_class_Some[OF j])
  then show ?thesis using that[of as k bs] j by simp
qed

lemma recycle_cache_ok:
  assumes r: "recycle_cache c m = Inr (ret, m')" and ok: "pool_ok m used" and c: "c \<in> set used"
  shows "ret = 0" and "pool_ok m' (remove1 c used)" and "pool_frame m m' (- {c})"
    and "c \<in> set (free_ids (available_cache_node m'))" and "length (store m') = length (store m)"
    and "set (free_ids (available_cache_node m')) = insert c (set (free_ids (available_cache_node m)))"
proof -
  obtain m2 where ms: "make_sure_cache_mm (m\<lparr>spin_lock := True\<rparr>) = Inr m2"
  proof (cases "make_sure_cache_mm (m\<lparr>spin_lock := True\<rparr>)")
    case (Inl e)
    then show ?thesis using r acquire_ok[OF ok] by (simp add: recycle_cache_def)
  qed (rule that)
  obtain ms cs where m2: "m2 = m\<lparr>spin_lock := True, mallocs := ms, available_cache_node := cs\<rparr>"
      "set ms \<subseteq> set (mallocs m)" "map allocated_cache_size cs = class_sizes (past_table m)"
      "pool_parts cs (store m) (past_table m) used"
    using locked_classes[OF ms ok] by blast
  let ?a = "allocated_size (store m ! c)" and ?st = "(store m)[c := blank (allocated_size (store m ! c)) 0]"
  note z = pool_parts_zero[OF m2(4) c refl]
  obtain as k bs where f: "find_class (\<lambda>x. x = ?a) cs = Some (length as)" and cs: "cs = as @ k # bs"
    and k: "allocated_cache_size k = ?a"
    by (rule find_class_exact[OF m2(3) z(5)])
  have zero: "(store m ! c)\<lparr>buff := replicate (nat ?a) NUL, cache_size := 0\<rparr> = blank ?a 0"
    by (simp add: blank_def)
  obtain m4 where m4: "malloc_unchecked (m2\<lparr>store := ?st\<rparr>) = Inr m4" and ret: "ret = 0"
    and m': "m' = release (m4\<lparr>available_cache_node := (available_cache_node m4)[length as :=
       (available_cache_node m4 ! length as)\<lparr>free_list := free_list (available_cache_node m4 ! length as) @ [c]\<rparr>]\<rparr>)"
    using r acquire_ok[OF ok] ms f z(4) unfolding recycle_cache_def
    by (auto simp: bindr_Inr_iff Let_def m2(1) zero)
  obtain ms' where m4': "m4 = m2\<lparr>store := ?st, mallocs := ms'\<rparr>" "set ms' \<subseteq> set ms"
    using malloc_unchecked_cases[OF m4] m2(1) by auto
  have m'': "m' = m\<lparr>spin_lock := False, mallocs := ms', store := ?st,
      available_cache_node := as @ k\<lparr>free_list := free_list k @ [c]\<rparr> # bs\<rparr>"
    unfolding m' m4' m2(1) release_def by (simp add: cs)
  have "pool_parts (as @ k\<lparr>free_list := free_list k @ [c]\<rparr> # bs) ?st (past_table m) (remove1 c used)"
    by (rule pool_parts_enqueue) (use z cs k in auto)
  moreover have "free_ids (available_cache_node m) = free_ids (as @ k # bs)" using make_sure_free[OF ms] m2(1) cs by simp
  ultimately show "ret = 0" "pool_ok m' (remove1 c used)" "pool_frame m m' (- {c})"
    "c \<in> set (free_ids (available_cache_node m'))" "length (store m') = length (store m)"
    "set (free_ids (available_cache_node m')) = insert c (set (free_ids (available_cache_node m)))"
    using ret m4'(2) m2(2) by (auto simp: m'' pool_ok_def pool_frame_def free_ids_def)
qed

lemma recycle_cache_total:
  assumes ok: "pool_ok m used" and c: "c \<in> set used" and pl: "plenty m"
  shows "\<exists>m'. recycle_cache c m = Inr (0, m')"
proof -
  have "plenty (m\<lparr>spin_lock := True\<rparr>)" using pl by (simp add: plenty_def)
  then obtain m2 where ms: "make_sure_cache_mm (m\<lparr>spin_lock := True\<rparr>) = Inr m2" using make_sure_plenty by blast
  obtain ms cs where m2: "m2 = m\<lparr>spin_lock := True, mallocs := ms, available_cache_node := cs\<rparr>"
      "set ms \<subseteq> set (mallocs m)" "map allocated_cache_size cs = class_sizes (past_table m)"
      "pool_parts cs (store m) (past_table m) used"
    using locked_classes[OF ms ok] by blast
  note z = pool_parts_zero[OF m2(4) c refl]
  let ?m3 = "m2\<lparr>store := (store m)[c := (store m ! c)\<lparr>buff := replicate (nat (allocated_size (store m ! c))) NUL,
    cache_size := 0\<rparr>]\<rparr>"
  have "plenty ?m3" using pl m2(1,2) by (auto simp: plenty_def)
  then obtain m4 where "malloc_unchecked ?m3 = Inr m4" using malloc_unchecked_plenty by blast
  moreover have "find_class (\<lambda>a. a = allocated_size (store m ! c)) cs \<noteq> None"
    using find_class_None[of _ cs] m2(3) z(5) by auto
  ultimately have "\<exists>r. recycle_cache c m = Inr r"
    using acquire_ok[OF ok] ms z(4) by (auto simp: recycle_cache_def Let_def m2(1))
  then show ?thesis using recycle_cache_ok(1)[OF _ ok c] by fastforce
qed

section \<open>Accesses to a held block\<close>

abbreviation block :: "pool \<Rightarrow> nat \<Rightarrow> string" where
  "block m c \<equiv> buff (store m ! c)"

definition held_ok :: "pool \<Rightarrow> nat list \<Rightarrow> bool" where
  "held_ok m used \<longleftrightarrow> pool_ok m used \<and> benign_free m"

lemma pool_parts_write:
  assumes "pool_parts cs st tbl used" and "c \<in> set used"
    and "length b = length (buff (st ! c))"
  shows "pool_parts cs (st[c := (st ! c)\<lparr>buff := b\<rparr>]) tbl used"
proof -
  have c: "c < length st" "c \<notin> set (free_ids cs)" using assms(1,2) by (auto simp: pool_parts_def)
  have "\<forall>x \<in> set (st[c := (st ! c)\<lparr>buff := b\<rparr>]). cache_wf tbl x"
  proof
    fix x assume "x \<in> set (st[c := (st ! c)\<lparr>buff := b\<rparr>])"
    then have "x \<in> set st \<or> x = (st ! c)\<lparr>buff := b\<rparr>" using set_update_subset_insert by fast
    moreover have "cache_wf tbl (st ! c)" using assms(1) c(1) by (simp add: pool_parts_def)
    ultimately show "cache_wf tbl x" using assms by (auto simp: pool_parts_def cache_wf_def)
  qed
  moreover have "\<forall>k \<in> set cs. \<forall>e \<in> set (free_list k). e \<noteq> c" using c(2) by (auto simp: free_ids_def)
  then have "\<forall>k \<in> set cs. \<forall>e \<in> set (free_list k). st[c := x] ! e = st ! e" for x
    by (metis nth_list_update_neq)
  ultimately show ?thesis using assms(1) unfolding pool_parts_def by auto
qed

lemma cache_write_Inr:
  assumes w: "cache_write c off d m = Inr m'" and ok: "held_ok m used" and c: "c \<in> set used"
  shows "held_ok m' used" and "block m' c = splice_at (nat off) d (block m c)"
    and "allocated_size (store m' ! c) = allocated_size (store m ! c)"
    and "pool_frame m m' (- {c})" and "length (store m') = length (store m)"
    and "length (block m' c) = length (block m c)"
proof -
  have b: "c < length (store m)" "0 \<le> off" "nat off + length d \<le> length (block m c)"
    and m': "m' = m\<lparr>store := (store m)[c := (store m ! c)\<lparr>buff := splice_at (nat off) d (block m c)\<rparr>]\<rparr>"
    using w by (auto simp: cache_write_def split: if_splits)
  have "pool_parts (available_cache_node m) ((store m)[c := (store m ! c)\<lparr>buff := splice_at (nat off) d (block m c)\<rparr>])
      (past_table m) used"
    by (rule pool_parts_write) (use ok c b(3) in \<open>auto simp: held_ok_def pool_ok_def\<close>)
  then show "held_ok m' used"
    using ok by (simp add: m' held_ok_def pool_ok_def benign_free_def)
  show "block m' c = splice_at (nat off) d (block m c)"
    "allocated_size (store m' ! c) = allocated_size (store m ! c)"
    "pool_frame m m' (- {c})" "length (store m') = length (store m)"
    "length (block m' c) = length (block m c)"
    using b by (auto simp: m' pool_frame_def)
qed

lemma cache_write_total:
  "c < length (store m) \<Longrightarrow> 0 \<le> off \<Longrightarrow> nat off + length d \<le> length (block m c)
    \<Longrightarrow> \<exists>m'. cache_write c off d m = Inr m'"
  by (simp add: cache_write_def)

lemma held_lt: "held_ok m used \<Longrightarrow> c \<in> set used \<Longrightarrow> c < length (store m)"
  by (auto simp: held_ok_def pool_ok_def pool_parts_def)

lemma held_distinct: "held_ok m used \<Longrightarrow> distinct used"
  by (auto simp: held_ok_def pool_ok_def pool_parts_def)

lemma held_perm: "held_ok m used \<Longrightarrow> mset used' = mset used \<Longrightarrow> held_ok m used'"
  unfolding held_ok_def pool_ok_def pool_parts_def
  by (metis distinct_append mset_eq_imp_distinct_iff mset_eq_setD set_append)

lemma held_drop: "held_ok m (us @ vs) \<Longrightarrow> held_ok m vs"
  unfolding held_ok_def pool_ok_def pool_parts_def by auto

section \<open>The contract of the pool\<close>

text \<open>
  What the clients of the pool rely on: \<open>held m us\<close> says that the blocks \<open>us\<close> are in
  their hands, each once, and none of them waits in the pool (a block that is neither is lost). A block is handed out to one holder at a time, and no call for one block
  changes the contents of another that is held.
\<close>

locale block_pool =
  fixes get :: "int \<Rightarrow> 'm \<Rightarrow> ('c option \<times> 'm) res"
    and recycle :: "'c \<Rightarrow> 'm \<Rightarrow> (int \<times> 'm) res"
    and poke :: "'c \<Rightarrow> int \<Rightarrow> string \<Rightarrow> 'm \<Rightarrow> 'm res"
    and held :: "'m \<Rightarrow> 'c list \<Rightarrow> bool"
    and content :: "'m \<Rightarrow> 'c \<Rightarrow> string"
  assumes distinct_held: "held m us \<Longrightarrow> distinct us"
    and get_none: "get n m = Inr (None, m') \<Longrightarrow> held m us
      \<Longrightarrow> held m' us \<and> (\<forall>d \<in> set us. content m' d = content m d)"
    and get_some: "get n m = Inr (Some c, m') \<Longrightarrow> held m us
      \<Longrightarrow> held m' (c # us) \<and> (\<forall>d \<in> set us. content m' d = content m d)"
    and recycle: "recycle c m = Inr (r, m') \<Longrightarrow> held m (c # us)
      \<Longrightarrow> held m' us \<and> (\<forall>d \<in> set us. content m' d = content m d)"
    and poke: "poke c off b m = Inr m' \<Longrightarrow> held m us \<Longrightarrow> c \<in> set us
      \<Longrightarrow> held m' us \<and> content m' c = splice_at (nat off) b (content m c)
        \<and> (\<forall>d \<in> set us - {c}. content m' d = content m d)"
begin

lemma get_fresh: "get n m = Inr (Some c, m') \<Longrightarrow> held m us \<Longrightarrow> c \<notin> set us"
  using distinct_held get_some by fastforce

text \<open>Borrowing a block as scratch space leaves what is held as it was.\<close>

lemma borrow:
  assumes "get n m = Inr (Some c, m1)" and "poke c off b m1 = Inr m2"
    and "recycle c m2 = Inr (r, m3)" and "held m us"
  shows "held m3 us" and "\<forall>e \<in> set us. content m3 e = content m e"
proof -
  have 1: "held m1 (c # us)" "\<forall>d \<in> set us. content m1 d = content m d" "c \<notin> set us"
    using get_some[OF assms(1,4)] get_fresh[OF assms(1,4)] by auto
  have 2: "held m2 (c # us)" "\<forall>d \<in> set us. content m2 d = content m1 d"
    using poke[OF assms(2) 1(1)] 1(3) by auto
  show "held m3 us" "\<forall>e \<in> set us. content m3 e = content m e"
    using recycle[OF assms(3) 2(1)] 1(2) 2(2) by auto
qed

text \<open>Giving back a list of blocks one by one.\<close>

lemma recycle_each:
  "iter_res recycle cs m = Inr m' \<Longrightarrow> held m (cs @ us)
    \<Longrightarrow> held m' us \<and> (\<forall>e \<in> set us. content m' e = content m e)"
proof (induction cs arbitrary: m)
  case (Cons c cs)
  then obtain r m1 where r: "recycle c m = Inr (r, m1)" "iter_res recycle cs m1 = Inr m'"
    by (auto simp: bindr_Inr_iff)
  have "held m1 (cs @ us)" "\<forall>e \<in> set (cs @ us). content m1 e = content m e"
    using recycle[OF r(1)] Cons.prems(2) by auto
  then show ?case using Cons.IH[OF r(2)] by auto
qed simp

end

interpretation bp: block_pool get_new_cache recycle_cache cache_write held_ok block
proof unfold_locales
  fix m us assume "held_ok m us"
  then show "distinct us" by (rule held_distinct)
next
  fix n m m' us assume "get_new_cache n m = Inr (None, m')" "held_ok m us"
  then show "held_ok m' us \<and> (\<forall>d \<in> set us. block m' d = block m d)"
    using get_new_cache_None[of n m m' us] pool_frame_env(1)[OF get_new_cache_None(2)]
    unfolding held_ok_def by fastforce
next
  fix n m c m' us assume g: "get_new_cache n m = Inr (Some c, m')" "held_ok m us"
  then have h: "handed_out n m m' us c" using get_new_cache_Some by (simp add: held_ok_def)
  then have "held_ok m' (c # us)" using g(2) pool_frame_env(1) by (auto simp: held_ok_def handed_out_def)
  moreover have "block m' d = block m d" if "d \<in> set us" for d
    using h that held_lt[OF g(2) that] by (simp add: handed_out_def pool_frame_def)
  ultimately show "held_ok m' (c # us) \<and> (\<forall>d \<in> set us. block m' d = block m d)" by blast
next
  fix c m r m' us assume r: "recycle_cache c m = Inr (r, m')" "held_ok m (c # us)"
  then have "c \<notin> set us" using held_distinct by fastforce
  moreover have "pool_ok m (c # us)" using r(2) by (simp add: held_ok_def)
  note rc = recycle_cache_ok[OF r(1) this]
  moreover have "block m' d = block m d" if "d \<in> set us" for d
    using rc(3) that calculation(1) held_lt[OF r(2), of d] by (auto simp: pool_frame_def)
  ultimately show "held_ok m' us \<and> (\<forall>d \<in> set us. block m' d = block m d)"
    using r(2) pool_frame_env(1)[OF rc(3)] by (simp add: held_ok_def)
next
  fix c off b m m' us assume w: "cache_write c off b m = Inr m'" "held_ok m us" "c \<in> set us"
  have "block m' d = block m d" if "d \<in> set us - {c}" for d
    using cache_write_Inr(4)[OF w] that held_lt[OF w(2), of d] by (auto simp: pool_frame_def)
  then show "held_ok m' us \<and> block m' c = splice_at (nat off) b (block m c)
      \<and> (\<forall>d \<in> set us - {c}. block m' d = block m d)"
    using cache_write_Inr(1,2)[OF w] by blast
qed

lemma recycle_each_frame:
  "iter_res recycle_cache cs m = Inr m' \<Longrightarrow> held_ok m (cs @ us) \<Longrightarrow> pool_frame m m' (- set cs)"
proof (induction cs arbitrary: m)
  case (Cons c cs)
  then obtain r m1 where r: "recycle_cache c m = Inr (r, m1)" "iter_res recycle_cache cs m1 = Inr m'"
    by (auto simp: bindr_Inr_iff)
  have "held_ok m1 (cs @ us)" using bp.recycle[OF r(1)] Cons.prems(2) by simp
  then have "pool_frame m1 m' (- set cs)" by (rule Cons.IH[OF r(2)])
  then have "pool_frame m1 m' (- set (c # cs))" by (rule pool_frame_mono) auto
  moreover have "pool_frame m m1 (- {c})"
    by (rule recycle_cache_ok(3)[OF r(1), of "(c # cs) @ us"]) (use Cons.prems(2) in \<open>auto simp: held_ok_def\<close>)
  then have "pool_frame m m1 (- set (c # cs))" by (rule pool_frame_mono) auto
  ultimately show ?case by (rule pool_frame_trans[rotated])
qed simp

lemma recycle_each_total:
  "held_ok m (cs @ us) \<Longrightarrow> plenty m \<Longrightarrow> \<exists>m'. iter_res recycle_cache cs m = Inr m'"
proof (induction cs arbitrary: m)
  case (Cons c cs)
  obtain m1 where r: "recycle_cache c m = Inr (0, m1)"
    using recycle_cache_total[of m "(c # cs) @ us" c] Cons.prems by (auto simp: held_ok_def)
  have "held_ok m1 (cs @ us)" using bp.recycle[OF r] Cons.prems(1) by simp
  moreover have "plenty m1"
    using recycle_cache_ok(3)[OF r, of "(c # cs) @ us"] Cons.prems pool_frame_env(2) by (auto simp: held_ok_def)
  ultimately show ?case using Cons.IH[of m1] r by simp
qed simp

lemma recycle_each_free:
  "iter_res recycle_cache cs m = Inr m' \<Longrightarrow> held_ok m (cs @ us)
    \<Longrightarrow> set (free_ids (available_cache_node m')) = set cs \<union> set (free_ids (available_cache_node m))"
proof (induction cs arbitrary: m)
  case (Cons c cs)
  then obtain r m1 where r: "recycle_cache c m = Inr (r, m1)" "iter_res recycle_cache cs m1 = Inr m'"
    by (auto simp: bindr_Inr_iff)
  have "held_ok m1 (cs @ us)" using bp.recycle[OF r(1)] Cons.prems(2) by simp
  moreover have "set (free_ids (available_cache_node m1)) = insert c (set (free_ids (available_cache_node m)))"
    by (rule recycle_cache_ok(6)[OF r(1), of "(c # cs) @ us"]) (use Cons.prems(2) in \<open>auto simp: held_ok_def\<close>)
  ultimately show ?case using Cons.IH[OF r(2)] by auto
qed simp

text \<open>A block that waits for its next holder: in the class of its size, with nothing but zeros.\<close>

definition waits :: "pool \<Rightarrow> nat \<Rightarrow> bool" where
  "waits m c \<longleftrightarrow> (\<exists>k \<in> set (available_cache_node m). c \<in> set (free_list k) \<and> store m ! c = blank (allocated_cache_size k) 0)"

lemma waits_iff: "held_ok m used \<Longrightarrow> waits m c \<longleftrightarrow> c \<in> set (free_ids (available_cache_node m))"
  by (auto simp: waits_def held_ok_def pool_ok_def pool_parts_def free_ids_def)

text \<open>A block that is handed out was waiting, or is new.\<close>

lemma get_new_cache_source:
  assumes g: "get_new_cache n m = Inr (Some c, m')" and h: "held_ok m us"
  shows "waits m c \<or> length (store m) \<le> c"
proof -
  let ?us = "filter (\<lambda>c. c \<notin> set (free_ids (available_cache_node m))) [0..<length (store m)]"
  have "pool_parts (available_cache_node m) (store m) (past_table m) ?us"
    using h unfolding held_ok_def pool_ok_def pool_parts_def by auto
  then have h': "held_ok m ?us" using h by (simp add: held_ok_def pool_ok_def)
  then have "handed_out n m m' ?us c" using get_new_cache_Some[OF g] by (simp add: held_ok_def)
  then have "c \<notin> set ?us" unfolding handed_out_def by (rule conjunct1)
  then show ?thesis using waits_iff[OF h, of c] by (cases "c < length (store m)") simp_all
qed

end
