(* ===== verification/Buffer.thy ===== *)
theory Buffer
  imports CacheMod
begin

text \<open>
  \<^verbatim>\<open>io/buffer.c\<close>: a byte queue kept in a list of 512-byte blocks of the pool. Bytes
  enter at the write offset of the last node (from a socket or from memory) and leave at
  the read offset of the first node. The list \<^verbatim>\<open>cache_list\<close> is the HOL list of its nodes
  (the contract of theory ListH); \<^verbatim>\<open>node\<close>, the pointer of the filling loops, always points
  to the last node of the temporary list, or of the buffer while that list is empty.

  Sockets are scripts of system call outcomes: \<open>read_result\<close>s for what the coming calls of
  \<^verbatim>\<open>read\<close> find, \<open>write_result\<close>s for what the coming calls of \<^verbatim>\<open>write\<close> accept.
\<close>

section \<open>Data\<close>

record inner_node =
  w_offset :: int
  r_offset :: int
  node_cache :: nat

type_synonym buffer = "inner_node list"

abbreviation CACHE_SIZE :: int where
  "CACHE_SIZE \<equiv> 512"

definition NODE_SIZE :: "inner_node \<Rightarrow> int" where
  "NODE_SIZE n = w_offset n - r_offset n"

definition new_node :: "nat \<Rightarrow> inner_node" where
  "new_node c = \<lparr>w_offset = 0, r_offset = 0, node_cache = c\<rparr>"

section \<open>System calls\<close>

datatype read_result = Read_fail | Read_data string

text \<open>\<^verbatim>\<open>read\<close> of at most \<open>n\<close> bytes: its result, the bytes, and what is left to be read.\<close>

fun sys_read :: "nat \<Rightarrow> read_result list \<Rightarrow> int \<times> string \<times> read_result list" where
  "sys_read n [] = (0, [], [])"
| "sys_read n (Read_fail # rs) = (- 1, [], rs)"
| "sys_read n (Read_data d # rs) =
     (int (length (take n d)), take n d, if length d \<le> n then rs else Read_data (drop n d) # rs)"

datatype write_result = Write_fail | Write_some nat

text \<open>A socket to write to: the coming outcomes (when they are used up all is accepted) and the bytes sent.\<close>

record out_socket =
  outcomes :: "write_result list"
  sent :: string

fun sys_write :: "string \<Rightarrow> out_socket \<Rightarrow> int \<times> out_socket" where
  "sys_write d s =
     (case outcomes s of
        [] \<Rightarrow> (int (length d), s\<lparr>sent := sent s @ d\<rparr>)
      | Write_fail # ws \<Rightarrow> (- 1, s\<lparr>outcomes := ws\<rparr>)
      | Write_some k # ws \<Rightarrow> (int (length (take k d)), s\<lparr>outcomes := ws, sent := sent s @ take k d\<rparr>))"

section \<open>Creation and destruction\<close>

definition create_new_buffer :: "pool \<Rightarrow> buffer option \<times> pool" where
  "create_new_buffer m = (case malloc m of (True, m') \<Rightarrow> (Some [], m') | (False, m') \<Rightarrow> (None, m'))"

definition destroy_buffer :: "pool \<Rightarrow> buffer \<Rightarrow> (int \<times> pool) res" where
  "destroy_buffer m nodes =
     bindr (iter_res recycle_cache (rev (map node_cache nodes)) m) (\<lambda>m'. Inr (0, m'))"

section \<open>Filling\<close>

text \<open>A node for the temporary list: \<^verbatim>\<open>malloc\<close> and a block of the pool, both checked.\<close>

definition attach_cache :: "pool \<Rightarrow> (nat option \<times> pool) res" where
  "attach_cache m =
     (case malloc m of
        (False, m1) \<Rightarrow> Inr (None, m1)
      | (True, m1) \<Rightarrow> get_new_cache CACHE_SIZE m1)"

definition cur_node :: "buffer \<Rightarrow> inner_node list \<Rightarrow> inner_node" where
  "cur_node nodes tmp = (if tmp = [] then last nodes else last tmp)"

definition put_node :: "inner_node \<Rightarrow> buffer \<times> inner_node list \<Rightarrow> buffer \<times> inner_node list" where
  "put_node n b =
     (if snd b = [] then (butlast (fst b) @ [n], []) else (fst b, butlast (snd b) @ [n]))"

definition advance_w :: "int \<Rightarrow> inner_node \<Rightarrow> inner_node" where
  "advance_w k n = n\<lparr>w_offset := w_offset n + k\<rparr>"

text \<open>
  How the loop of \<^verbatim>\<open>read_into_buffer\<close> and of \<^verbatim>\<open>write_into_buffer\<close> is left: \<open>Done ret\<close>
  by a break (or at once), \<open>Failed ret\<close> by the jump to \<^verbatim>\<open>error_with_read\<close>.
\<close>

datatype loop_exit = Done int | Failed int

partial_function (option) read_loop ::
  "size_t \<Rightarrow> size_t \<Rightarrow> buffer \<Rightarrow> inner_node list \<Rightarrow> read_result list \<Rightarrow> pool
    \<Rightarrow> (loop_exit \<times> buffer \<times> inner_node list \<times> read_result list \<times> pool) res option" where
  "read_loop sz already nodes tmp inp m =
     (if \<not> already < sz then Some (Inr (Done 0, nodes, tmp, inp, m))
      else
        let node = cur_node nodes tmp;
            read_size = min (sz - already) (to_size (CACHE_SIZE - w_offset node))
        in case sys_read read_size inp of (tmp_read_size, d, inp1) \<Rightarrow>
          if tmp_read_size < 0 then Some (Inr (Failed tmp_read_size, nodes, tmp, inp1, m))
          else case cache_write (node_cache node) (w_offset node) d m of
            Inl e \<Rightarrow> Some (Inl e)
          | Inr m1 \<Rightarrow>
              let already1 = add_size already (to_size tmp_read_size);
                  b = put_node (advance_w tmp_read_size node) (nodes, tmp)
              in if already1 = sz \<or> to_size tmp_read_size < read_size
                 then Some (Inr (Done (to_int already1), fst b, snd b, inp1, m1))
                 else case attach_cache m1 of
                   Inl e \<Rightarrow> Some (Inl e)
                 | Inr (None, m2) \<Rightarrow> Some (Inr (Done (to_int already1), fst b, snd b, inp1, m2))
                 | Inr (Some c, m2) \<Rightarrow>
                     read_loop sz already1 (fst b) (snd b @ [new_node c]) inp1 m2)"

partial_function (option) write_loop ::
  "size_t \<Rightarrow> size_t \<Rightarrow> string \<Rightarrow> buffer \<Rightarrow> inner_node list \<Rightarrow> pool
    \<Rightarrow> (loop_exit \<times> buffer \<times> inner_node list \<times> pool) res option" where
  "write_loop sz already src nodes tmp m =
     (if \<not> already < sz then Some (Inr (Done 0, nodes, tmp, m))
      else
        let node = cur_node nodes tmp;
            read_size = min (sz - already) (to_size (CACHE_SIZE - w_offset node))
        in if already + read_size > length src then Some (Inl Out_of_bounds)
        else case cache_write (node_cache node) (w_offset node) (take read_size (drop already src)) m of
            Inl e \<Rightarrow> Some (Inl e)
          | Inr m1 \<Rightarrow>
              let tmp_read_size = to_int read_size in
              if tmp_read_size < 0 then Some (Inr (Failed tmp_read_size, nodes, tmp, m1))
              else
                let already1 = add_size already (to_size tmp_read_size);
                    b = put_node (advance_w tmp_read_size node) (nodes, tmp)
                in if already1 = sz \<or> to_size tmp_read_size < read_size
                   then Some (Inr (Done (to_int already1), fst b, snd b, m1))
                   else case attach_cache m1 of
                     Inl e \<Rightarrow> Some (Inl e)
                   | Inr (None, m2) \<Rightarrow> Some (Inr (Done (to_int already1), fst b, snd b, m2))
                   | Inr (Some c, m2) \<Rightarrow>
                       write_loop sz already1 src (fst b) (snd b @ [new_node c]) m2)"

text \<open>
  The error path. The test \<^verbatim>\<open>last_w_offset >= 0\<close> is made on an unsigned value, so the write
  offset of the last node is always reset; when the buffer is empty the "last node" is memory
  in front of the buffer's own block.
\<close>

definition error_with_read :: "size_t \<Rightarrow> int \<Rightarrow> buffer \<Rightarrow> inner_node list \<Rightarrow> pool \<Rightarrow> (int \<times> buffer \<times> pool) res" where
  "error_with_read last_w_offset ret nodes tmp m =
     (if 0 \<le> last_w_offset \<and> nodes = [] then Inl Out_of_bounds
      else
        let nodes1 = (if 0 \<le> last_w_offset
                      then butlast nodes @ [(last nodes)\<lparr>w_offset := to_int last_w_offset\<rparr>] else nodes)
        in bindr (iter_res recycle_cache (rev (map node_cache tmp)) m) (\<lambda>m'. Inr (ret, nodes1, m')))"

text \<open>The temporary list is appended when something was read; otherwise its nodes are dropped.\<close>

definition merge_tmp :: "int \<Rightarrow> buffer \<Rightarrow> inner_node list \<Rightarrow> buffer" where
  "merge_tmp ret nodes tmp = (if ret > 0 \<and> tmp \<noteq> [] then nodes @ tmp else nodes)"

text \<open>
  The prologue both functions share: the temporary list and \<^verbatim>\<open>last_w_offset\<close>, or \<open>None\<close>
  when no node could be made.
\<close>

definition first_node :: "buffer \<Rightarrow> pool \<Rightarrow> ((inner_node list \<times> size_t) option \<times> pool) res" where
  "first_node nodes m =
     (if nodes = [] \<or> w_offset (last nodes) = CACHE_SIZE
      then bindr (attach_cache m) (\<lambda>(r, m1).
             Inr (map_option (\<lambda>c. ([new_node c], to_size (- 1))) r, m1))
      else Inr (Some ([], to_size (w_offset (last nodes))), m))"

definition read_into_buffer ::
  "pool \<Rightarrow> read_result list \<Rightarrow> buffer \<Rightarrow> size_t \<Rightarrow> (size_t \<times> buffer \<times> read_result list \<times> pool) res" where
  "read_into_buffer m inp nodes sz =
     bindr (first_node nodes m) (\<lambda>(p, m1).
       case p of
         None \<Rightarrow> Inr (to_size (- 1), nodes, inp, m1)
       | Some (tmp, last_w_offset) \<Rightarrow>
           bindr (returned (read_loop sz 0 nodes tmp inp m1)) (\<lambda>(exit, nodes1, tmp1, inp1, m2).
             case exit of
               Done ret \<Rightarrow> Inr (to_size ret, merge_tmp ret nodes1 tmp1, inp1, m2)
             | Failed ret \<Rightarrow>
                 bindr (error_with_read last_w_offset ret nodes1 tmp1 m2) (\<lambda>(ret, nodes2, m3).
                   Inr (to_size ret, nodes2, inp1, m3))))"

definition write_into_buffer ::
  "pool \<Rightarrow> buffer \<Rightarrow> string \<Rightarrow> size_t \<Rightarrow> (size_t \<times> buffer \<times> pool) res" where
  "write_into_buffer m nodes src sz =
     bindr (first_node nodes m) (\<lambda>(p, m1).
       case p of
         None \<Rightarrow> Inr (to_size (- 1), nodes, m1)
       | Some (tmp, last_w_offset) \<Rightarrow>
           bindr (returned (write_loop sz 0 src nodes tmp m1)) (\<lambda>(exit, nodes1, tmp1, m2).
             case exit of
               Done ret \<Rightarrow> Inr (to_size ret, merge_tmp ret nodes1 tmp1, m2)
             | Failed ret \<Rightarrow>
                 bindr (error_with_read last_w_offset ret nodes1 tmp1 m2) (\<lambda>(ret, nodes2, m3).
                   Inr (to_size ret, nodes2, m3))))"

section \<open>Draining\<close>

text \<open>
  The result of \<^verbatim>\<open>write\<close> is kept in a \<^verbatim>\<open>size_t\<close>, so the test \<^verbatim>\<open>tmp_write_size < 0\<close> never
  holds and a failure (\<open>- 1\<close>) is added to both counters like any other result.
\<close>

partial_function (option) write_out_loop ::
  "size_t \<Rightarrow> size_t \<Rightarrow> buffer \<Rightarrow> out_socket \<Rightarrow> pool \<Rightarrow> (size_t \<times> buffer \<times> out_socket \<times> pool) res option" where
  "write_out_loop sz already nodes sock m =
     (if \<not> already < sz then Some (Inr (already, nodes, sock, m))
      else case nodes of
        [] \<Rightarrow> Some (Inr (already, nodes, sock, m))
      | node # rest \<Rightarrow>
          let write_size = min (to_size (NODE_SIZE node)) (sz - already)
          in case cache_read (node_cache node) (r_offset node) write_size m of
            Inl e \<Rightarrow> Some (Inl e)
          | Inr d \<Rightarrow>
              (case sys_write d sock of (r, sock1) \<Rightarrow>
                let tmp_write_size = to_size r;
                    already1 = add_size already tmp_write_size;
                    node1 = node\<lparr>r_offset := to_int (add_size (to_size (r_offset node)) tmp_write_size)\<rparr>
                in if r_offset node1 = w_offset node1
                   then case recycle_cache (node_cache node1) m of
                     Inl e \<Rightarrow> Some (Inl e)
                   | Inr (_, m1) \<Rightarrow> write_out_loop sz already1 rest sock1 m1
                   else write_out_loop sz already1 (node1 # rest) sock1 m))"

definition write_from_buffer ::
  "pool \<Rightarrow> out_socket \<Rightarrow> buffer \<Rightarrow> size_t \<Rightarrow> (size_t \<times> buffer \<times> out_socket \<times> pool) res" where
  "write_from_buffer m sock nodes sz =
     (if nodes = [] then Inr (0, nodes, sock, m) else returned (write_out_loop sz 0 nodes sock m))"

text \<open>How many bytes there are to read, but no more than \<open>sz\<close>.\<close>

fun expected_size :: "size_t \<Rightarrow> inner_node list \<Rightarrow> size_t \<Rightarrow> size_t" where
  "expected_size sz [] expected = expected"
| "expected_size sz (n # ns) expected =
     (let expected1 = add_size expected (to_size (NODE_SIZE n))
      in if sz \<le> expected1 then sz else expected_size sz ns expected1)"

partial_function (option) read_out_loop ::
  "size_t \<Rightarrow> size_t \<Rightarrow> buffer \<Rightarrow> string \<Rightarrow> pool \<Rightarrow> (size_t \<times> buffer \<times> string \<times> pool) res option" where
  "read_out_loop expected already nodes target m =
     (if \<not> already < expected then Some (Inr (already, nodes, target, m))
      else case nodes of
        [] \<Rightarrow> Some (Inr (already, nodes, target, m))
      | node # rest \<Rightarrow>
          let write_size = to_int (min (to_size (NODE_SIZE node)) (expected - already))
          in case cache_read (node_cache node) (r_offset node) (to_size write_size) m of
            Inl e \<Rightarrow> Some (Inl e)
          | Inr d \<Rightarrow>
              let node1 = node\<lparr>r_offset := r_offset node + write_size\<rparr>;
                  already1 = add_size already (to_size write_size);
                  target1 = splice_at already d target
              in if r_offset node1 = w_offset node1
                 then case recycle_cache (node_cache node1) m of
                   Inl e \<Rightarrow> Some (Inl e)
                 | Inr (_, m1) \<Rightarrow> read_out_loop expected already1 rest target1 m1
                 else read_out_loop expected already1 (node1 # rest) target1 m)"

text \<open>The result: the number of bytes, the buffer, the new block with the bytes, and the pool.\<close>

definition read_from_buffer :: "pool \<Rightarrow> buffer \<Rightarrow> size_t \<Rightarrow> (size_t \<times> buffer \<times> string \<times> pool) res" where
  "read_from_buffer m nodes sz =
     (let expected = (if nodes = [] then 0 else expected_size sz nodes 0)
      in bindr (malloc_unchecked m) (\<lambda>m1.
           returned (read_out_loop expected 0 nodes (replicate expected NUL) m1)))"

section \<open>Searching\<close>

text \<open>
  An index function is given the memory at a pointer, the size of the data there and its
  argument, and answers with an offset; \<open>- 1\<close> as a \<^verbatim>\<open>size_t\<close> stands for "not found".
\<close>

type_synonym index_fun = "string \<Rightarrow> int \<Rightarrow> char \<Rightarrow> size_t res"

definition simple_index_func :: index_fun where
  "simple_index_func ptr sz arg =
     bindr (c_strchr arg ptr) (\<lambda>t. case t of
       None \<Rightarrow> Inr (to_size (- 1))
     | Some k \<Rightarrow> if int k \<ge> sz then Inr k else Inr (to_size (- 1)))"

text \<open>
  The loop over the nodes. Both tests \<^verbatim>\<open>node_index_pos >= 0\<close> are on an unsigned value; the
  second component of the result is \<^verbatim>\<open>node_index_pos\<close> after the loop.
\<close>

fun find_loop :: "index_fun \<Rightarrow> char \<Rightarrow> size_t \<Rightarrow> pool \<Rightarrow> buffer \<Rightarrow> size_t \<Rightarrow> size_t \<Rightarrow> (size_t \<times> size_t) res" where
  "find_loop index arg start_pos m [] first_pos index_pos = Inr (first_pos, index_pos)"
| "find_loop index arg start_pos m (cur # rest) first_pos index_pos =
     (if first_pos \<ge> start_pos then
        bindr (cache_pointer (node_cache cur) (r_offset cur) m) (\<lambda>start_ptr.
        bindr (index start_ptr (NODE_SIZE cur) arg) (\<lambda>pos.
          if pos \<ge> 0 then Inr (add_size first_pos pos, pos)
          else find_loop index arg start_pos m rest (add_size first_pos (to_size (NODE_SIZE cur))) pos))
      else if add_size first_pos (to_size (NODE_SIZE cur)) > start_pos then
        (let start_pos_in_node = to_int (sub_size start_pos first_pos)
         in bindr (cache_pointer (node_cache cur) (r_offset cur + start_pos_in_node) m) (\<lambda>start_ptr.
            bindr (index start_ptr (NODE_SIZE cur - start_pos_in_node) arg) (\<lambda>pos.
              if pos \<ge> 0 then Inr (add_size first_pos (add_size (to_size start_pos_in_node) pos), pos)
              else find_loop index arg start_pos m rest (add_size first_pos (to_size (NODE_SIZE cur))) pos)))
      else find_loop index arg start_pos m rest (add_size first_pos (to_size (NODE_SIZE cur))) index_pos)"

definition find_in_buffer :: "pool \<Rightarrow> buffer \<Rightarrow> size_t \<Rightarrow> index_fun option \<Rightarrow> char \<Rightarrow> size_t res" where
  "find_in_buffer m nodes start_pos index arg =
     (let index = (case index of None \<Rightarrow> simple_index_func | Some f \<Rightarrow> f)
      in bindr (find_loop index arg start_pos m nodes 0 (to_size (- 1))) (\<lambda>(first_pos, index_pos).
           Inr (if index_pos \<ge> 0 then first_pos else to_size (- 1))))"

definition buffer_size :: "buffer \<Rightarrow> size_t" where
  "buffer_size nodes = fold (\<lambda>node n. add_size n (to_size (NODE_SIZE node))) nodes 0"

section \<open>The bytes a buffer holds\<close>

definition node_data :: "pool \<Rightarrow> inner_node \<Rightarrow> string" where
  "node_data m n = take (nat (NODE_SIZE n)) (drop (nat (r_offset n)) (block m (node_cache n)))"

definition contents :: "pool \<Rightarrow> buffer \<Rightarrow> string" where
  "contents m nodes = concat (map (node_data m) nodes)"

definition node_ok :: "pool \<Rightarrow> inner_node \<Rightarrow> bool" where
  "node_ok m n \<longleftrightarrow> 0 \<le> r_offset n \<and> r_offset n \<le> w_offset n \<and> w_offset n \<le> CACHE_SIZE
     \<and> length (block m (node_cache n)) = 512"

text \<open>All nodes but the last are filled up to the end, and no node but a new one is exhausted.\<close>

definition nodes_ok :: "pool \<Rightarrow> inner_node list \<Rightarrow> bool" where
  "nodes_ok m ns \<longleftrightarrow> (\<forall>n \<in> set ns. node_ok m n)
     \<and> (\<forall>n \<in> set (butlast ns). w_offset n = CACHE_SIZE \<and> r_offset n < w_offset n)
     \<and> (ns \<noteq> [] \<longrightarrow> r_offset (last ns) < w_offset (last ns) \<or> w_offset (last ns) = 0)"

text \<open>
  A buffer in the company of others: \<open>others\<close> are the blocks that everybody else holds.
\<close>

definition buffer_ok :: "pool \<Rightarrow> nat list \<Rightarrow> buffer \<Rightarrow> bool" where
  "buffer_ok m others nodes \<longleftrightarrow> held_ok m (map node_cache nodes @ others) \<and> nodes_ok m nodes"

section \<open>Lemmas about nodes and contents\<close>

lemma NODE_SIZE_ok:
  assumes "node_ok m n"
  shows "0 \<le> NODE_SIZE n" and "NODE_SIZE n \<le> 512" and "to_size (NODE_SIZE n) = nat (NODE_SIZE n)"
    and "length (node_data m n) = nat (NODE_SIZE n)"
  using assms by (auto simp: node_ok_def NODE_SIZE_def to_size_def node_data_def nat_less_iff)

lemma contents_simps [simp]:
  "contents m [] = []" "contents m (n # ns) = node_data m n @ contents m ns"
  "contents m (ns @ ns') = contents m ns @ contents m ns'"
  by (simp_all add: contents_def)

lemma node_data_cong:
  "block m' (node_cache n) = block m (node_cache n) \<Longrightarrow> node_data m' n = node_data m n"
  by (simp add: node_data_def)

lemma contents_cong:
  "(\<And>n. n \<in> set ns \<Longrightarrow> block m' (node_cache n) = block m (node_cache n)) \<Longrightarrow> contents m' ns = contents m ns"
  by (induction ns) (auto intro: node_data_cong)

text \<open>The same bytes block by block.\<close>

definition chunks :: "pool \<Rightarrow> buffer \<Rightarrow> string list" where
  "chunks m nodes = map (node_data m) nodes"

lemma contents_chunks: "contents m nodes = concat (chunks m nodes)"
  by (simp add: contents_def chunks_def)

lemma chunks_cong:
  "(\<And>n. n \<in> set ns \<Longrightarrow> block m' (node_cache n) = block m (node_cache n)) \<Longrightarrow> chunks m' ns = chunks m ns"
  by (auto simp: chunks_def intro: node_data_cong)

lemma nodes_ok_cong:
  "(\<And>n. n \<in> set ns \<Longrightarrow> block m' (node_cache n) = block m (node_cache n)) \<Longrightarrow> nodes_ok m' ns = nodes_ok m ns"
  by (auto simp: nodes_ok_def node_ok_def)

lemma node_data_new [simp]: "node_data m (new_node c) = []"
  by (simp add: node_data_def new_node_def NODE_SIZE_def)

lemma new_node_sel [simp]:
  "w_offset (new_node c) = 0" "r_offset (new_node c) = 0" "node_cache (new_node c) = c"
  by (simp_all add: new_node_def)

lemma advance_w_sel [simp]:
  "w_offset (advance_w k n) = w_offset n + k" "r_offset (advance_w k n) = r_offset n"
  "node_cache (advance_w k n) = node_cache n"
  by (simp_all add: advance_w_def)

text \<open>What a change that keeps every held block leaves of a buffer.\<close>

lemma buffer_ok_held: "buffer_ok m others ns \<Longrightarrow> held_ok m (map node_cache ns @ others)"
  by (simp add: buffer_ok_def)

lemma frame_block: "pool_frame m m' keep \<Longrightarrow> c \<in> keep \<Longrightarrow> c < length (store m) \<Longrightarrow> block m' c = block m c"
  by (auto simp: pool_frame_def)

section \<open>One round of a filling loop\<close>

definition fill_ok :: "pool \<Rightarrow> nat list \<Rightarrow> inner_node list \<Rightarrow> bool" where
  "fill_ok m others ns \<longleftrightarrow> ns \<noteq> [] \<and> buffer_ok m others ns \<and> w_offset (last ns) < CACHE_SIZE"

lemma cur_node_last: "nodes @ tmp \<noteq> [] \<Longrightarrow> cur_node nodes tmp = last (nodes @ tmp)"
  by (simp add: cur_node_def)

lemma put_node_append:
  "nodes @ tmp \<noteq> [] \<Longrightarrow> fst (put_node n (nodes, tmp)) @ snd (put_node n (nodes, tmp)) = butlast (nodes @ tmp) @ [n]"
  by (simp add: put_node_def butlast_append)

lemma last_split: "ns \<noteq> [] \<Longrightarrow> ns = butlast ns @ [last ns]"
  by simp

text \<open>The bytes \<open>d\<close> go behind what the last node holds.\<close>

lemma node_data_written:
  assumes "node_ok m n" and "c = node_cache n" and "w_offset n + int (length d) \<le> CACHE_SIZE"
    and "block m' c = splice_at (nat (w_offset n)) d (block m c)"
  shows "node_data m' (advance_w (int (length d)) n) = node_data m n @ d"
proof -
  let ?w = "nat (w_offset n)" and ?r = "nat (r_offset n)"
  have len: "length (block m c) = 512" and rw: "?r \<le> ?w" "?w + length d \<le> 512"
    using assms(1,2,3) by (auto simp: node_ok_def)
  have sz: "nat (NODE_SIZE (advance_w (int (length d)) n)) = ?w + length d - ?r" "nat (NODE_SIZE n) = ?w - ?r"
    using assms(1) by (auto simp: NODE_SIZE_def node_ok_def)
  have "node_data m' (advance_w (int (length d)) n) = drop ?r (take (?w + length d) (block m' c))"
    unfolding node_data_def sz using rw(1) by (simp add: assms(2) drop_take)
  also have "\<dots> = drop ?r (take ?w (block m c)) @ d"
    using take_add_splice_at[of ?w "block m c" d] len rw by (simp add: assms(4))
  also have "drop ?r (take ?w (block m c)) = node_data m n"
    unfolding node_data_def sz by (simp add: assms(2) drop_take)
  finally show ?thesis .
qed

lemma held_last_distinct:
  assumes "held_ok m (map node_cache ns @ others)" and "ns \<noteq> []" and "x \<in> set (butlast ns)"
  shows "node_cache x \<noteq> node_cache (last ns)"
proof -
  have "distinct (map node_cache (butlast ns @ [last ns]))"
    using held_distinct[OF assms(1)] assms(2) by simp
  moreover have "node_cache x \<in> set (map node_cache (butlast ns))" using assms(3) by simp
  ultimately show ?thesis by (metis distinct_append disjoint_iff list.set_intros(1) map_append list.simps(9))
qed

lemma nodes_ok_advance:
  assumes "nodes_ok m ns" and "ns \<noteq> []" and "w_offset (last ns) + int k \<le> CACHE_SIZE"
    and "\<And>x. x \<in> set ns \<Longrightarrow> length (block m1 (node_cache x)) = length (block m (node_cache x))"
  shows "nodes_ok m1 (butlast ns @ [advance_w (int k) (last ns)])"
proof -
  have last: "node_ok m (last ns)" "r_offset (last ns) < w_offset (last ns) \<or> w_offset (last ns) = 0"
    using assms(1,2) by (auto simp: nodes_ok_def)
  then have "r_offset (advance_w (int k) (last ns)) < w_offset (advance_w (int k) (last ns))
      \<or> w_offset (advance_w (int k) (last ns)) = 0"
    by (cases "k = 0") (auto simp: node_ok_def)
  moreover have "node_ok m1 (advance_w (int k) (last ns))"
    using last(1) assms(2,3) assms(4)[of "last ns"] by (auto simp: node_ok_def)
  moreover have "\<forall>x \<in> set (butlast ns). node_ok m1 x"
    using assms(1,4) by (auto simp: nodes_ok_def node_ok_def dest: in_set_butlastD)
  ultimately show ?thesis using assms(1) by (auto simp: nodes_ok_def)
qed

lemma fill_store:
  assumes f: "fill_ok m others ns" and n: "n = last ns" and d: "w_offset n + int (length d) \<le> CACHE_SIZE"
  obtains m1 where "cache_write (node_cache n) (w_offset n) d m = Inr m1"
    "buffer_ok m1 others (butlast ns @ [advance_w (int (length d)) n])"
    "contents m1 (butlast ns @ [advance_w (int (length d)) n]) = contents m ns @ d"
    "pool_frame m m1 (- {node_cache n})"
    "take (nat (w_offset n)) (block m1 (node_cache n)) = take (nat (w_offset n)) (block m (node_cache n))"
proof -
  have ns: "ns = butlast ns @ [n]" and ne: "ns \<noteq> []" using f n by (simp_all add: fill_ok_def)
  have ok: "held_ok m (map node_cache ns @ others)" "nodes_ok m ns"
    using f by (auto simp: fill_ok_def buffer_ok_def)
  have nok: "node_ok m n" and c: "node_cache n \<in> set (map node_cache ns @ others)"
    using ok(2) ne n by (auto simp: nodes_ok_def)
  have bounds: "nat (w_offset n) + length d \<le> length (block m (node_cache n))" "0 \<le> w_offset n"
    using nok d by (auto simp: node_ok_def)
  obtain m1 where w: "cache_write (node_cache n) (w_offset n) d m = Inr m1"
    using cache_write_total[OF held_lt[OF ok(1) c] bounds(2,1)] by blast
  note wr = cache_write_Inr[OF w ok(1) c]
  let ?n = "advance_w (int (length d)) n"
  have same: "block m1 (node_cache x) = block m (node_cache x)" if "x \<in> set (butlast ns)" for x
    using frame_block[OF wr(4)] held_last_distinct[OF ok(1) ne that] held_lt[OF ok(1)]
      in_set_butlastD[OF that] n by simp
  have "contents m1 (butlast ns) = contents m (butlast ns)" by (rule contents_cong) (rule same)
  moreover have "node_data m1 ?n = node_data m n @ d" by (rule node_data_written[OF nok refl d wr(2)])
  moreover have "contents m ns = contents m (butlast ns) @ node_data m n" by (subst ns) simp
  ultimately have cont: "contents m1 (butlast ns @ [?n]) = contents m ns @ d" by simp
  have "length (block m1 (node_cache x)) = length (block m (node_cache x))" if "x \<in> set ns" for x
    using that same wr(6) by (subst (asm) ns) auto
  then have "nodes_ok m1 (butlast ns @ [?n])" using nodes_ok_advance[OF ok(2) ne] n d by simp
  moreover have "map node_cache (butlast ns @ [?n]) = map node_cache ns" by (subst (2) ns) simp
  ultimately have "buffer_ok m1 others (butlast ns @ [?n])" using wr(1) by (simp add: buffer_ok_def)
  moreover have "take (nat (w_offset n)) (block m1 (node_cache n)) = take (nat (w_offset n)) (block m (node_cache n))"
    using wr(2) bounds by simp
  ultimately show ?thesis using that w cont wr(4) by blast
qed

text \<open>Attaching a new node behind a full one.\<close>

lemma attach_cases:
  assumes "attach_cache m = Inr (r, m')"
  obtains (no_node) ms where "r = None" "m' = m\<lparr>mallocs := ms\<rparr>" "set ms \<subseteq> set (mallocs m)" "\<not> plenty m"
  | (got) ms where "get_new_cache CACHE_SIZE (m\<lparr>mallocs := ms\<rparr>) = Inr (r, m')" "set ms \<subseteq> set (mallocs m)"
proof -
  obtain b ms where m: "malloc m = (b, m\<lparr>mallocs := ms\<rparr>)" "set ms \<subseteq> set (mallocs m)"
    using malloc_cases by blast
  show ?thesis
  proof (cases b)
    case True
    then show ?thesis using assms m got by (simp add: attach_cache_def)
  next
    case False
    moreover have "\<not> plenty m" using malloc_plenty[of m] m(1) False by auto
    ultimately show ?thesis using assms m no_node[of ms] by (simp add: attach_cache_def)
  qed
qed

lemma held_mallocs: "held_ok (m\<lparr>mallocs := ms\<rparr>) us \<longleftrightarrow> held_ok m us"
  by (simp add: held_ok_def pool_ok_def benign_free_def)

lemma frame_mallocs: "set ms \<subseteq> set (mallocs m) \<Longrightarrow> pool_frame m (m\<lparr>mallocs := ms\<rparr>) keep"
  by (simp add: pool_frame_def)

lemma attach_ok:
  assumes a: "attach_cache m = Inr (r, m')" and h: "held_ok m us"
  shows "pool_frame m m' (set us)" and "plenty m \<Longrightarrow> r \<noteq> None" and "r = None \<Longrightarrow> held_ok m' us"
    and "r = Some c \<Longrightarrow> held_ok m' (c # us) \<and> length (block m' c) = 512"
proof -
  have g512: "\<not> (\<forall>a \<in> set (class_sizes t). a < 512)" for t
    by (simp add: class_sizes_def specified_cache_size_def)
  have some: "pool_frame m m' (set us) \<and> held_ok m' (c # us) \<and> length (block m' c) = 512"
    if r: "r = Some c" for c
  proof -
    obtain ms where g: "get_new_cache CACHE_SIZE (m\<lparr>mallocs := ms\<rparr>) = Inr (Some c, m')" and
      ms: "set ms \<subseteq> set (mallocs m)" using a r by (cases rule: attach_cases) auto
    have h': "held_ok (m\<lparr>mallocs := ms\<rparr>) us" using h by (simp add: held_mallocs)
    then have "handed_out CACHE_SIZE (m\<lparr>mallocs := ms\<rparr>) m' us c"
      using get_new_cache_Some[OF g] by (simp add: held_ok_def)
    then have "length (block m' c) = 512" "pool_frame (m\<lparr>mallocs := ms\<rparr>) m' (set us)"
      by (auto simp: handed_out_def blank_def class_for_def)
    then show ?thesis
      using bp.get_some[OF g h'] pool_frame_trans[OF frame_mallocs[OF ms]] by blast
  qed
  have none: "pool_frame m m' (set us) \<and> held_ok m' us \<and> \<not> plenty m" if "r = None"
    using a that
  proof (cases rule: attach_cases)
    case (no_node ms)
    then show ?thesis using h by (simp add: held_mallocs frame_mallocs)
  next
    case (got ms)
    then show ?thesis
      using get_new_cache_None(4)[of CACHE_SIZE "m\<lparr>mallocs := ms\<rparr>" m' us] g512 h that
      by (simp add: held_ok_def pool_ok_def)
  qed
  show "pool_frame m m' (set us)" using some none by (cases r) auto
  show "plenty m \<Longrightarrow> r \<noteq> None" "r = None \<Longrightarrow> held_ok m' us"
    "r = Some c \<Longrightarrow> held_ok m' (c # us) \<and> length (block m' c) = 512"
    using some none by auto
qed

lemma attach_total:
  assumes "held_ok m us" and "plenty m"
  shows "\<exists>c m'. attach_cache m = Inr (Some c, m')"
proof -
  obtain ms where ms: "malloc m = (True, m\<lparr>mallocs := ms\<rparr>)" "\<forall>b \<in> set ms. b" using malloc_plenty[OF assms(2)] by blast
  have "pool_ok (m\<lparr>mallocs := ms\<rparr>) us" "benign_free (m\<lparr>mallocs := ms\<rparr>)" "plenty (m\<lparr>mallocs := ms\<rparr>)"
    using assms(1) ms(2) by (auto simp: held_ok_def pool_ok_def benign_free_def plenty_def)
  from get_new_cache_small[OF this, of CACHE_SIZE] show ?thesis using ms(1) by (auto simp: attach_cache_def)
qed

lemma attach_source:
  assumes "attach_cache m = Inr (Some c, m')" and "held_ok m us"
  shows "waits m c \<or> length (store m) \<le> c"
proof -
  obtain ms where "get_new_cache CACHE_SIZE (m\<lparr>mallocs := ms\<rparr>) = Inr (Some c, m')"
    using assms(1) by (cases rule: attach_cases) auto
  then show ?thesis using get_new_cache_source[of CACHE_SIZE "m\<lparr>mallocs := ms\<rparr>" c m' us] assms(2) by (simp add: held_mallocs waits_def)
qed

lemma attach_Inl:
  assumes "attach_cache m = Inl e" and "held_ok m us"
  shows "e = Null_deref"
proof -
  obtain ms where "malloc m = (True, m\<lparr>mallocs := ms\<rparr>)" "get_new_cache CACHE_SIZE (m\<lparr>mallocs := ms\<rparr>) = Inl e"
    using assms(1) malloc_cases[of m] by (auto simp: attach_cache_def split: prod.splits bool.splits)
  then show ?thesis using get_new_cache_Inl[of CACHE_SIZE _ e us] assms(2)
    by (auto simp: held_ok_def pool_ok_def benign_free_def)
qed

lemma attach_fill:
  assumes b: "buffer_ok m others ns" and full: "ns = [] \<or> w_offset (last ns) = CACHE_SIZE"
    and a: "attach_cache m = Inr (Some c, m')"
  shows "fill_ok m' others (ns @ [new_node c])" and "contents m' (ns @ [new_node c]) = contents m ns"
proof -
  note h = buffer_ok_held[OF b]
  note at = attach_ok[OF a h]
  have same: "block m' (node_cache n) = block m (node_cache n)" if "n \<in> set ns" for n
    using frame_block[OF at(1)] held_lt[OF h] that by simp
  have ns: "nodes_ok m' ns" using b nodes_ok_cong[OF same] by (simp add: buffer_ok_def)
  then have "\<forall>n \<in> set ns. w_offset n = CACHE_SIZE \<and> r_offset n < w_offset n"
    using full by (cases ns rule: rev_cases) (auto simp: nodes_ok_def)
  then have "nodes_ok m' (ns @ [new_node c])" using ns at(4) by (auto simp: nodes_ok_def node_ok_def)
  moreover have "held_ok m' (map node_cache (ns @ [new_node c]) @ others)"
    by (rule held_perm[of m' "c # map node_cache ns @ others"]) (use at(4) in auto)
  ultimately show "fill_ok m' others (ns @ [new_node c])" by (simp add: fill_ok_def buffer_ok_def)
  show "contents m' (ns @ [new_node c]) = contents m ns" using contents_cong[OF same] by simp
qed

text \<open>
  What a filling loop does to the buffer proper while the temporary list grows: only the
  write offset of its last node moves, and the bytes below the old offsets stay.
\<close>

definition kept :: "pool \<Rightarrow> pool \<Rightarrow> inner_node list \<Rightarrow> bool" where
  "kept m m' ns \<longleftrightarrow> (\<forall>n \<in> set ns. take (nat (w_offset n)) (block m' (node_cache n)) = take (nat (w_offset n)) (block m (node_cache n))
     \<and> length (block m' (node_cache n)) = length (block m (node_cache n)))"

definition grown :: "pool \<Rightarrow> buffer \<Rightarrow> pool \<Rightarrow> buffer \<Rightarrow> bool" where
  "grown m ns m' ns' \<longleftrightarrow> kept m m' ns
     \<and> (if ns = [] then ns' = [] else \<exists>k \<ge> 0. ns' = butlast ns @ [advance_w k (last ns)])"

lemma grownI:
  "kept m m' ns \<Longrightarrow> (ns \<noteq> [] \<Longrightarrow> ns' = butlast ns @ [advance_w k (last ns)]) \<Longrightarrow> (ns = [] \<Longrightarrow> ns' = []) \<Longrightarrow> 0 \<le> k
    \<Longrightarrow> grown m ns m' ns'"
  unfolding grown_def by (cases "ns = []") (simp, simp only: if_False, blast)

lemma kept_contents:
  assumes "kept m m' ns" and "nodes_ok m ns"
  shows "contents m' ns = contents m ns" and "nodes_ok m' ns" and "chunks m' ns = chunks m ns"
proof -
  have nd: "node_data m' n = node_data m n" if "n \<in> set ns" for n
  proof -
    have "0 \<le> r_offset n" "r_offset n \<le> w_offset n" using assms(2) that by (auto simp: nodes_ok_def node_ok_def)
    then have "node_data p n = drop (nat (r_offset n)) (take (nat (w_offset n)) (block p (node_cache n)))" for p
      by (simp add: node_data_def NODE_SIZE_def drop_take nat_diff_distrib)
    then show ?thesis using assms(1) that by (simp add: kept_def)
  qed
  show "contents m' ns = contents m ns" using nd by (simp add: contents_def cong: map_cong)
  show "chunks m' ns = chunks m ns" using nd by (simp add: chunks_def)
  show "nodes_ok m' ns" using assms by (auto simp: nodes_ok_def node_ok_def kept_def)
qed

lemma advance_w_advance_w: "advance_w a (advance_w b n) = advance_w (b + a) n"
  by (simp add: advance_w_def)

lemma grown_trans:
  assumes "grown m1 ns1 m2 ns2" and "grown m2 ns2 m3 ns3"
  shows "grown m1 ns1 m3 ns3"
proof (cases "ns1 = []")
  case True
  then show ?thesis using assms by (simp add: grown_def kept_def)
next
  case False
  then obtain k where k: "k \<ge> 0" "ns2 = butlast ns1 @ [advance_w k (last ns1)]"
    using assms(1) by (auto simp: grown_def)
  then obtain j where j: "j \<ge> 0" "ns3 = butlast ns2 @ [advance_w j (last ns2)]"
    using assms(2) by (auto simp: grown_def)
  have split: "ns1 = butlast ns1 @ [last ns1]" using False by simp
  have "take (nat (w_offset (last ns1))) (block m3 (node_cache (last ns1)))
      = take (nat (w_offset (last ns1))) (take (nat (w_offset (last ns1) + k)) (block m3 (node_cache (last ns1))))"
    using k(1) by (simp add: min_def nat_le_iff)
  also have "\<dots> = take (nat (w_offset (last ns1))) (block m2 (node_cache (last ns1)))"
    using assms(2) k by (simp add: grown_def kept_def min_def nat_le_iff)
  finally have last: "take (nat (w_offset (last ns1))) (block m3 (node_cache (last ns1)))
      = take (nat (w_offset (last ns1))) (block m2 (node_cache (last ns1)))" .
  have k12: "kept m1 m2 ns1" and k23: "kept m2 m3 ns2" using assms by (auto simp: grown_def)
  have "take (nat (w_offset n)) (block m3 (node_cache n)) = take (nat (w_offset n)) (block m2 (node_cache n))
      \<and> length (block m3 (node_cache n)) = length (block m2 (node_cache n))" if n: "n \<in> set ns1" for n
  proof (cases "n \<in> set (butlast ns1)")
    case True
    then show ?thesis using k23 k(2) by (simp add: kept_def)
  next
    case False
    then have "n = last ns1" using n by (subst (asm) split) auto
    then show ?thesis using last k23 k(2) by (simp add: kept_def)
  qed
  then have "kept m1 m3 ns1" using k12 by (simp add: kept_def)
  moreover have "ns3 = butlast ns1 @ [advance_w (k + j) (last ns1)]" using j k by (simp add: advance_w_advance_w)
  moreover have "0 \<le> k + j" using j(1) k(1) by simp
  ultimately show ?thesis using False unfolding grown_def by metis
qed

lemma grown_refl_frame:
  assumes "pool_frame m m' keep" and "node_cache ` set ns \<subseteq> keep" and "held_ok m (map node_cache ns @ us)"
  shows "grown m ns m' ns"
proof -
  have "block m' (node_cache n) = block m (node_cache n)" if "n \<in> set ns" for n
    using frame_block[OF assms(1)] assms(2) held_lt[OF assms(3)] that by auto
  then have "kept m m' ns" by (simp add: kept_def)
  moreover have "ns = butlast ns @ [advance_w 0 (last ns)]" if "ns \<noteq> []" using that by (simp add: advance_w_def)
  ultimately show ?thesis by (auto simp: grown_def)
qed

lemma others_frame:
  assumes "pool_frame m m' (- {node_cache n})" and "held_ok m (map node_cache ns @ others)" and "n \<in> set ns"
  shows "pool_frame m m' (set others)"
  by (rule pool_frame_mono[OF assms(1)]) (use held_distinct[OF assms(2)] assms(3) in auto)

lemma put_node_pair:
  "put_node n (nodes, tmp) = (nodes1, tmp1) \<longleftrightarrow>
     (if tmp = [] then nodes1 = butlast nodes @ [n] \<and> tmp1 = []
      else nodes1 = nodes \<and> tmp1 = butlast tmp @ [n])"
  by (cases "tmp = []") (auto simp: put_node_def)

text \<open>One round of a loop: \<open>d\<close> is stored in the current node, whose offset moves.\<close>

lemma fill_round:
  assumes f: "fill_ok m others (nodes @ tmp)" and d: "w_offset (cur_node nodes tmp) + int (length d) \<le> CACHE_SIZE"
  obtains m1 nodes1 tmp1 where "cache_write (node_cache (cur_node nodes tmp)) (w_offset (cur_node nodes tmp)) d m = Inr m1"
    "put_node (advance_w (int (length d)) (cur_node nodes tmp)) (nodes, tmp) = (nodes1, tmp1)"
    "buffer_ok m1 others (nodes1 @ tmp1)" "contents m1 (nodes1 @ tmp1) = contents m (nodes @ tmp) @ d"
    "pool_frame m m1 (set others)" "grown m nodes m1 nodes1" "tmp1 = [] \<longleftrightarrow> tmp = []"
    "w_offset (last (nodes1 @ tmp1)) = w_offset (cur_node nodes tmp) + int (length d)"
proof -
  let ?n = "cur_node nodes tmp" and ?ns = "nodes @ tmp"
  have ne: "?ns \<noteq> []" and h: "held_ok m (map node_cache ?ns @ others)" and nok: "nodes_ok m ?ns"
    using f by (auto simp: fill_ok_def buffer_ok_def)
  have n: "?n = last ?ns" by (rule cur_node_last[OF ne])
  obtain m1 where m1: "cache_write (node_cache ?n) (w_offset ?n) d m = Inr m1"
    "buffer_ok m1 others (butlast ?ns @ [advance_w (int (length d)) ?n])"
    "contents m1 (butlast ?ns @ [advance_w (int (length d)) ?n]) = contents m ?ns @ d"
    "pool_frame m m1 (- {node_cache ?n})"
    "take (nat (w_offset ?n)) (block m1 (node_cache ?n)) = take (nat (w_offset ?n)) (block m (node_cache ?n))"
    by (rule fill_store[OF f n d])
  obtain nodes1 tmp1 where b: "put_node (advance_w (int (length d)) ?n) (nodes, tmp) = (nodes1, tmp1)"
    by fastforce
  have app: "nodes1 @ tmp1 = butlast ?ns @ [advance_w (int (length d)) ?n]"
    using put_node_append[OF ne, of "advance_w (int (length d)) ?n"] b by simp
  have nin: "?n \<in> set ?ns" using n ne by (metis last_in_set)
  have fr: "pool_frame m m1 (set others)" by (rule others_frame[OF m1(4) h nin])
  have tmp: "tmp1 = [] \<longleftrightarrow> tmp = []" using b by (auto simp: put_node_pair split: if_splits)
  have len: "length (block m1 (node_cache x)) = length (block m (node_cache x))" if x: "x \<in> set ?ns" for x
  proof -
    have "node_ok m x" using nok x by (simp add: nodes_ok_def)
    moreover have "node_cache x \<in> node_cache ` set (nodes1 @ tmp1)"
      using x unfolding app n by (subst (asm) append_butlast_last_id[OF ne, symmetric]) auto
    then have "length (block m1 (node_cache x)) = 512"
      using m1(2) app by (auto simp: buffer_ok_def nodes_ok_def node_ok_def)
    ultimately show ?thesis by (simp add: node_ok_def)
  qed
  have keep: "take (nat (w_offset x)) (block m1 (node_cache x)) = take (nat (w_offset x)) (block m (node_cache x))"
    if x: "x \<in> set ?ns" for x
  proof (cases "node_cache x = node_cache ?n")
    case True
    then have "x = ?n" using x held_last_distinct[OF h ne] n
      by (subst (asm) append_butlast_last_id[OF ne, symmetric]) auto
    then show ?thesis using m1(5) by simp
  next
    case False
    moreover have "node_cache x < length (store m)" by (rule held_lt[OF h]) (use x in auto)
    ultimately show ?thesis using frame_block[OF m1(4)] by simp
  qed
  have "kept m m1 nodes" using len keep by (simp add: kept_def)
  moreover have "nodes1 = butlast nodes @ [advance_w (if tmp = [] then int (length d) else 0) (last nodes)]"
    if "nodes \<noteq> []"
    using b that by (auto simp: put_node_pair cur_node_def advance_w_def split: if_splits)
  moreover have "nodes1 = []" if "nodes = []" using b that ne by (auto simp: put_node_pair)
  moreover have "0 \<le> (if tmp = [] then int (length d) else 0)" by simp
  ultimately have "grown m nodes m1 nodes1" by (rule grownI)
  moreover have "w_offset (last (nodes1 @ tmp1)) = w_offset ?n + int (length d)" by (simp add: app)
  ultimately show ?thesis using that m1 b app fr tmp by metis
qed

text \<open>The round that follows: a new node behind the one that was filled up.\<close>

lemma attach_round:
  assumes b: "buffer_ok m others (nodes @ tmp)" and full: "w_offset (last (nodes @ tmp)) = CACHE_SIZE"
    and a: "attach_cache m = Inr (r, m')"
  shows "r = Some c \<Longrightarrow> fill_ok m' others (nodes @ tmp @ [new_node c])"
    and "r = Some c \<Longrightarrow> contents m' (nodes @ tmp @ [new_node c]) = contents m (nodes @ tmp)"
    and "r = None \<Longrightarrow> buffer_ok m' others (nodes @ tmp)"
    and "r = None \<Longrightarrow> contents m' (nodes @ tmp) = contents m (nodes @ tmp)"
    and "pool_frame m m' (set others)" and "grown m nodes m' nodes"
    and "plenty m \<Longrightarrow> r \<noteq> None"
proof -
  have h: "held_ok m (map node_cache (nodes @ tmp) @ others)" by (rule buffer_ok_held[OF b])
  note at = attach_ok[OF a h]
  show "pool_frame m m' (set others)" by (rule pool_frame_mono[OF at(1)]) auto
  show "grown m nodes m' nodes"
    by (rule grown_refl_frame[OF at(1), of _ "map node_cache tmp @ others"]) (use h in auto)
  show "plenty m \<Longrightarrow> r \<noteq> None" by (rule at(2))
  have same: "block m' (node_cache n) = block m (node_cache n)" if "n \<in> set (nodes @ tmp)" for n
    by (rule frame_block[OF at(1)]) (use that held_lt[OF h, of "node_cache n"] in auto)
  show "contents m' (nodes @ tmp) = contents m (nodes @ tmp)" by (rule contents_cong) (rule same)
  show "buffer_ok m' others (nodes @ tmp)" if "r = None"
    using at(3)[OF that] nodes_ok_cong[of "nodes @ tmp", OF same] b by (simp add: buffer_ok_def)
  show "fill_ok m' others (nodes @ tmp @ [new_node c])"
    "contents m' (nodes @ tmp @ [new_node c]) = contents m (nodes @ tmp)" if "r = Some c"
    using attach_fill[OF b _ a[unfolded that]] full by auto
qed

definition filled :: "pool \<Rightarrow> nat list \<Rightarrow> buffer \<Rightarrow> inner_node list \<Rightarrow> pool \<Rightarrow> buffer \<Rightarrow> inner_node list \<Rightarrow> string \<Rightarrow> bool" where
  "filled m others nodes tmp m' nodes' tmp' d \<longleftrightarrow>
     buffer_ok m' others (nodes' @ tmp') \<and> contents m' (nodes' @ tmp') = contents m (nodes @ tmp) @ d
     \<and> pool_frame m m' (set others) \<and> grown m nodes m' nodes'"

lemma filled_trans:
  "filled m1 others n1 t1 m2 n2 t2 d \<Longrightarrow> filled m2 others n2 t2 m3 n3 t3 e \<Longrightarrow> filled m1 others n1 t1 m3 n3 t3 (d @ e)"
  unfolding filled_def by (auto intro: pool_frame_trans grown_trans)

lemma filled_refl: "buffer_ok m others (nodes @ tmp) \<Longrightarrow> filled m others nodes tmp m nodes tmp []"
  using grown_refl_frame[OF pool_frame_refl, where us = "map node_cache tmp @ others"]
  by (auto simp: filled_def buffer_ok_def)

lemma fill_room:
  assumes "fill_ok m others (nodes @ tmp)"
  shows "to_size (CACHE_SIZE - w_offset (cur_node nodes tmp)) = nat (CACHE_SIZE - w_offset (cur_node nodes tmp))"
    and "0 < CACHE_SIZE - w_offset (cur_node nodes tmp)" and "0 \<le> w_offset (cur_node nodes tmp)"
proof -
  have n: "cur_node nodes tmp = last (nodes @ tmp)" "nodes @ tmp \<noteq> []"
    using assms cur_node_last by (auto simp: fill_ok_def)
  then have "cur_node nodes tmp \<in> set (nodes @ tmp)" by (metis last_in_set)
  then have "node_ok m (cur_node nodes tmp)" using assms by (auto simp: fill_ok_def buffer_ok_def nodes_ok_def)
  then show "0 \<le> w_offset (cur_node nodes tmp)" by (simp add: node_ok_def)
  then show "to_size (CACHE_SIZE - w_offset (cur_node nodes tmp)) = nat (CACHE_SIZE - w_offset (cur_node nodes tmp))"
    "0 < CACHE_SIZE - w_offset (cur_node nodes tmp)"
    using assms n by (auto simp: fill_ok_def to_size_def nat_less_iff)
qed

section \<open>write_into_buffer\<close>

lemma write_loop_ok:
  assumes "fill_ok m others (nodes @ tmp)" and "already < sz" and "sz \<le> length src" and "sz < int_max"
  shows "\<exists>r. write_loop sz already src nodes tmp m = Some r \<and> (\<forall>e. r = Inl e \<longrightarrow> \<not> plenty m \<and> e = Null_deref)
    \<and> (\<forall>ex nodes' tmp' m'. r = Inr (ex, nodes', tmp', m') \<longrightarrow>
        (\<exists>k. already < k \<and> k \<le> sz \<and> ex = Done (int k) \<and> (plenty m \<longrightarrow> k = sz)
          \<and> filled m others nodes tmp m' nodes' tmp' (take (k - already) (drop already src))))"
  using assms
proof (induction "sz - already" arbitrary: already nodes tmp m rule: less_induct)
  case less
  let ?n = "cur_node nodes tmp"
  note room = fill_room[OF less.prems(1)]
  define rs where "rs = min (sz - already) (nat (CACHE_SIZE - w_offset ?n))"
  define d where "d = take rs (drop already src)"
  have rs: "0 < rs" "rs \<le> 512" "already + rs \<le> sz" and len: "length d = rs"
    using room less.prems by (auto simp: rs_def d_def)
  have lt: "already + rs < 2 ^ 64" "rs < int_max" "already + rs < int_max"
    using rs less.prems(4) by (auto simp: int_max_def)
  have fits: "w_offset ?n + int (length d) \<le> CACHE_SIZE" using room by (simp add: len rs_def)
  obtain m1 nodes1 tmp1 where w: "cache_write (node_cache ?n) (w_offset ?n) d m = Inr m1"
    "put_node (advance_w (int rs) ?n) (nodes, tmp) = (nodes1, tmp1)"
    "buffer_ok m1 others (nodes1 @ tmp1)" "contents m1 (nodes1 @ tmp1) = contents m (nodes @ tmp) @ d"
    "pool_frame m m1 (set others)" "grown m nodes m1 nodes1"
    "w_offset (last (nodes1 @ tmp1)) = w_offset ?n + int rs"
    by (rule fill_round[OF less.prems(1) fits]) (auto simp: len)
  have f1: "filled m others nodes tmp m1 nodes1 tmp1 d" using w by (simp add: filled_def)
  have pl: "plenty m \<Longrightarrow> plenty m1" using pool_frame_env(2)[OF w(5)] .
  have step: "write_loop sz already src nodes tmp m =
      (if already + rs = sz then Some (Inr (Done (int (already + rs)), nodes1, tmp1, m1))
       else case attach_cache m1 of Inl e \<Rightarrow> Some (Inl e)
         | Inr (None, m2) \<Rightarrow> Some (Inr (Done (int (already + rs)), nodes1, tmp1, m2))
         | Inr (Some c, m2) \<Rightarrow> write_loop sz (already + rs) src nodes1 (tmp1 @ [new_node c]) m2)"
    using less.prems(2,3) rs lt w(1,2)
    by (subst write_loop.simps)
      (simp add: room(1) rs_def[symmetric] d_def[symmetric] Let_def to_int_small to_size_of_nat
        add_size_small split: sum.splits option.splits prod.splits)
  show ?case
  proof (cases "already + rs = sz")
    case True
    then show ?thesis using step f1 rs less.prems by (auto simp: d_def intro!: exI[of _ sz])
  next
    case False
    then have full: "w_offset (last (nodes1 @ tmp1)) = CACHE_SIZE"
      using w(7) room rs(3) by (auto simp: rs_def min_def split: if_splits)
    show ?thesis
    proof (cases "attach_cache m1")
      case (Inl e)
      then show ?thesis
        using step False attach_total[OF buffer_ok_held[OF w(3)]] attach_Inl[OF Inl buffer_ok_held[OF w(3)]] pl by auto
    next
      case (Inr p)
      then obtain r m2 where a: "attach_cache m1 = Inr (r, m2)" by (cases p) auto
      note at = attach_round[OF w(3) full a]
      show ?thesis
      proof (cases r)
        case None
        then have "filled m1 others nodes1 tmp1 m2 nodes1 tmp1 []" using at by (simp add: filled_def)
        from filled_trans[OF f1 this] have "filled m others nodes tmp m2 nodes1 tmp1 d" by simp
        then show ?thesis using step False a None at(7) pl rs
          by (auto simp: d_def intro!: exI[of _ "already + rs"])
      next
        case (Some c)
        let ?t = "tmp1 @ [new_node c]"
        have f2: "fill_ok m2 others (nodes1 @ ?t)" using at(1)[OF Some] by simp
        have "filled m1 others nodes1 tmp1 m2 nodes1 ?t []"
          using at Some f2 by (simp add: filled_def fill_ok_def)
        from filled_trans[OF f1 this] have f12: "filled m others nodes tmp m2 nodes1 ?t d" by simp
        have "already + rs < sz" using False rs by simp
        from less.hyps[OF _ f2 this less.prems(3,4)] rs obtain q where
          q: "write_loop sz (already + rs) src nodes1 ?t m2 = Some q" "\<forall>e. q = Inl e \<longrightarrow> \<not> plenty m2 \<and> e = Null_deref"
          "\<forall>ex nodes' tmp' m'. q = Inr (ex, nodes', tmp', m') \<longrightarrow>
            (\<exists>k. already + rs < k \<and> k \<le> sz \<and> ex = Done (int k) \<and> (plenty m2 \<longrightarrow> k = sz)
              \<and> filled m2 others nodes1 ?t m' nodes' tmp' (take (k - (already + rs)) (drop (already + rs) src)))"
          using less.prems(2) by (smt (verit) diff_less_mono2 less_add_same_cancel1)
        have pl2: "plenty m \<Longrightarrow> plenty m2" using pl pool_frame_env(2)[OF at(5)] by blast
        have glue: "d @ take (k - (already + rs)) (drop (already + rs) src) = take (k - already) (drop already src)"
          if "already + rs < k" for k
        proof -
          have "k - already = rs + (k - (already + rs))" using that by simp
          then show ?thesis unfolding d_def by (simp add: take_add add.commute)
        qed
        show ?thesis
          unfolding step using False a Some q pl2 filled_trans[OF f12] glue
          by (auto simp del: append_assoc) (metis add_lessD1)+
      qed
    qed
  qed
qed

text \<open>The prologue: where the first bytes will go.\<close>

lemma first_node_Inl: "first_node nodes m = Inl e \<Longrightarrow> buffer_ok m others nodes \<Longrightarrow> \<not> plenty m"
  using attach_total[OF buffer_ok_held, of m others nodes] by (auto simp: first_node_def split: if_splits)

lemma first_node_fault: "first_node nodes m = Inl e \<Longrightarrow> buffer_ok m others nodes \<Longrightarrow> e = Null_deref"
  using attach_Inl[OF _ buffer_ok_held, of m e others nodes] by (auto simp: first_node_def bindr_def split: if_splits sum.splits)

lemma first_node_cases:
  assumes b: "buffer_ok m others nodes" and p: "first_node nodes m = Inr (p, m')"
  obtains (no_node) "p = None" "\<not> plenty m" "buffer_ok m' others nodes" "contents m' nodes = contents m nodes"
      "pool_frame m m' (set others)"
  | (same_node) "p = Some ([], nat (w_offset (last nodes)))" "m' = m" "nodes \<noteq> []" "fill_ok m others (nodes @ [])"
  | (fresh_node) c where "p = Some ([new_node c], to_size (- 1))" "nodes = [] \<or> w_offset (last nodes) = CACHE_SIZE"
      "fill_ok m' others (nodes @ [new_node c])" "filled m others nodes [] m' nodes [new_node c] []"
proof (cases "nodes = [] \<or> w_offset (last nodes) = CACHE_SIZE")
  case False
  then have "node_ok m (last nodes)" using b by (simp add: buffer_ok_def nodes_ok_def)
  then have "to_size (w_offset (last nodes)) = nat (w_offset (last nodes))" "w_offset (last nodes) < 512"
    using False by (auto simp: node_ok_def to_size_def nat_less_iff)
  then show ?thesis using same_node False b p by (simp add: first_node_def fill_ok_def)
next
  case True
  then obtain r where a: "attach_cache m = Inr (r, m')" and
    p': "p = map_option (\<lambda>c. ([new_node c], to_size (- 1))) r"
    using p by (auto simp: first_node_def bindr_Inr_iff)
  note h = buffer_ok_held[OF b]
  note at = attach_ok[OF a h]
  have fr: "pool_frame m m' (set others)" by (rule pool_frame_mono[OF at(1)]) auto
  have same: "block m' (node_cache n) = block m (node_cache n)" if "n \<in> set nodes" for n
    by (rule frame_block[OF at(1)]) (use that held_lt[OF h, of "node_cache n"] in auto)
  have g: "grown m nodes m' nodes" by (rule grown_refl_frame[OF at(1) _ h]) auto
  show ?thesis
  proof (cases r)
    case None
    have "buffer_ok m' others nodes" using at(3)[OF None] nodes_ok_cong[of nodes, OF same] b
      by (simp add: buffer_ok_def)
    moreover have "contents m' nodes = contents m nodes" by (rule contents_cong) (rule same)
    moreover have "\<not> plenty m" using at(2) None by blast
    ultimately show ?thesis using no_node None p' fr by simp
  next
    case (Some c)
    note af = attach_fill[OF b True a[unfolded Some]]
    then have "filled m others nodes [] m' nodes [new_node c] []"
      using fr g by (simp add: filled_def fill_ok_def)
    then show ?thesis using fresh_node Some p' True af by simp
  qed
qed

lemma filled_drop_tmp:
  assumes "filled m others nodes tmp m' nodes' tmp' d"
  shows "held_ok m' (map node_cache nodes' @ others)"
proof -
  have "held_ok m' (map node_cache tmp' @ (map node_cache nodes' @ others))"
    by (rule held_perm[of m' "map node_cache (nodes' @ tmp') @ others"]) (use assms in \<open>auto simp: filled_def buffer_ok_def\<close>)
  then show ?thesis by (rule held_drop)
qed

lemma first_node_filled:
  assumes b: "buffer_ok m others nodes" and p: "first_node nodes m = Inr (Some (tmp, w), m')"
  shows "fill_ok m' others (nodes @ tmp)" and "filled m others nodes [] m' nodes tmp []"
    and "plenty m \<Longrightarrow> plenty m'"
  using b p
proof (atomize (full), cases rule: first_node_cases)
  case same_node
  then show "fill_ok m' others (nodes @ tmp) \<and> filled m others nodes [] m' nodes tmp [] \<and> (plenty m \<longrightarrow> plenty m')"
    using filled_refl[of m others nodes "[]"] b by simp
next
  case (fresh_node c)
  then show "fill_ok m' others (nodes @ tmp) \<and> filled m others nodes [] m' nodes tmp [] \<and> (plenty m \<longrightarrow> plenty m')"
    using pool_frame_env(2) by (auto simp: filled_def)
qed simp

lemma write_into_buffer_Inl:
  assumes b: "buffer_ok m others nodes" and sz: "0 < sz" "sz \<le> length src" "sz < int_max"
    and r: "write_into_buffer m nodes src sz = Inl e"
  shows "\<not> plenty m" and "e = Null_deref"
proof -
  have "\<not> plenty m \<and> e = Null_deref"
  proof (cases "first_node nodes m")
    case (Inl e')
    then show ?thesis using first_node_Inl[OF Inl b] first_node_fault[OF Inl b] r by (simp add: write_into_buffer_def)
  next
    case (Inr q)
    then obtain p m1 where p: "first_node nodes m = Inr (p, m1)" by (cases q) auto
    show ?thesis
    proof (cases p)
      case None
      then show ?thesis using r p by (simp add: write_into_buffer_def)
    next
      case (Some q)
      then obtain tmp w where p: "first_node nodes m = Inr (Some (tmp, w), m1)" using p by (cases q) auto
      note fn = first_node_filled[OF b p]
      obtain q where "write_loop sz 0 src nodes tmp m1 = Some q" "\<forall>e. q = Inl e \<longrightarrow> \<not> plenty m1 \<and> e = Null_deref"
        "\<forall>ex nodes' tmp' m'. q = Inr (ex, nodes', tmp', m') \<longrightarrow> (\<exists>k. ex = Done (int k))"
        using write_loop_ok[OF fn(1) sz] by blast
      then show ?thesis using r p fn(3) by (cases q) (auto simp: write_into_buffer_def returned_def)
    qed
  qed
  then show "\<not> plenty m" "e = Null_deref" by simp_all
qed

lemma write_into_buffer_Inr:
  assumes b: "buffer_ok m others nodes" and sz: "0 < sz" "sz \<le> length src" "sz < int_max"
    and r: "write_into_buffer m nodes src sz = Inr (v, nodes', m')"
  obtains k where "k \<le> sz" "buffer_ok m' others nodes'" "contents m' nodes' = contents m nodes @ take k src"
    "pool_frame m m' (set others)" "v = k \<or> k = 0 \<and> v = to_size (- 1)" "plenty m \<Longrightarrow> k = sz \<and> v = sz"
proof -
  obtain p m1 where p: "first_node nodes m = Inr (p, m1)"
    using r by (auto simp: write_into_buffer_def bindr_Inr_iff)
  show ?thesis
  proof (cases p)
    case None
    then have "v = to_size (- 1)" "nodes' = nodes" "m' = m1" using r p by (auto simp: write_into_buffer_def)
    then show ?thesis using first_node_cases[OF b p] that[of 0] None by (cases rule: first_node_cases[OF b p]) auto
  next
    case (Some q)
    then obtain tmp w where p: "first_node nodes m = Inr (Some (tmp, w), m1)" using p by (cases q) auto
    note fn = first_node_filled[OF b p]
    obtain ex ns t m2 where q: "write_loop sz 0 src nodes tmp m1 = Some (Inr (ex, ns, t, m2))"
      using r p by (auto simp: write_into_buffer_def bindr_Inr_iff returned_def split: option.splits)
    then obtain k where k: "0 < k" "k \<le> sz" "ex = Done (int k)" "plenty m1 \<longrightarrow> k = sz"
      "filled m1 others nodes tmp m2 ns t (take k src)"
      using write_loop_ok[OF fn(1) sz] by auto
    have f: "filled m others nodes [] m2 ns t (take k src)" using filled_trans[OF fn(2) k(5)] by simp
    have "v = k" "nodes' = ns @ t" "m' = m2"
      using r p q k sz(3) by (auto simp: write_into_buffer_def returned_def merge_tmp_def to_size_of_nat int_max_def)
    then show ?thesis using that[of k] f k fn(3) by (auto simp: filled_def)
  qed
qed

section \<open>read_into_buffer\<close>

text \<open>What a script of \<^verbatim>\<open>read\<close> outcomes still delivers, and how many failures it holds.\<close>

fun stream :: "read_result list \<Rightarrow> string" where
  "stream [] = []"
| "stream (Read_fail # rs) = stream rs"
| "stream (Read_data d # rs) = d @ stream rs"

fun fails :: "read_result list \<Rightarrow> nat" where
  "fails [] = 0"
| "fails (Read_fail # rs) = Suc (fails rs)"
| "fails (Read_data d # rs) = fails rs"

lemma sys_read_cases:
  assumes "sys_read n inp = (r, d, inp')"
  obtains (fail) "r = - 1" "d = []" "stream inp' = stream inp" "fails inp = Suc (fails inp')"
  | (ok) "r = int (length d)" "length d \<le> n" "stream inp = d @ stream inp'" "fails inp' = fails inp"
      "length inp \<le> 1 \<Longrightarrow> length inp' \<le> 1 \<and> d = take n (stream inp)"
  using assms by (cases "(n, inp)" rule: sys_read.cases) auto

text \<open>The answer of the loop for the bytes \<open>d\<close> read since it held \<open>already\<close> bytes.\<close>

definition read_exit :: "size_t \<Rightarrow> size_t \<Rightarrow> pool \<Rightarrow> read_result list \<Rightarrow> loop_exit \<Rightarrow> string \<Rightarrow> read_result list \<Rightarrow> bool" where
  "read_exit sz already m inp ex d inp' \<longleftrightarrow> already + length d \<le> sz \<and> stream inp = d @ stream inp'
     \<and> (ex = Done (int (already + length d)) \<and> fails inp' = fails inp \<or> ex = Failed (- 1) \<and> fails inp = Suc (fails inp'))
     \<and> (plenty m \<and> length inp \<le> 1 \<and> fails inp = 0 \<longrightarrow> d = take (sz - already) (stream inp))"

lemma read_exit_more:
  assumes "read_exit sz (already + length d) m2 inp1 ex e inp'" and "stream inp = d @ stream inp1"
    and "fails inp1 = fails inp" and "length inp \<le> 1 \<Longrightarrow> length inp1 \<le> 1" and "plenty m \<Longrightarrow> plenty m2"
  shows "read_exit sz already m inp ex (d @ e) inp'"
proof -
  have le: "already + length d + length e \<le> sz" and s: "stream inp1 = e @ stream inp'"
    using assms(1) by (simp_all add: read_exit_def)
  have "d @ e = take (sz - already) (stream inp)" if "plenty m" "length inp \<le> 1" "fails inp = 0"
  proof -
    have "e = take (sz - (already + length d)) (stream inp1)"
      using assms(1) assms(3)[unfolded that(3)] assms(4)[OF that(2)] assms(5)[OF that(1)]
      unfolding read_exit_def by blast
    moreover have "take (sz - already) d = d" using le by simp
    ultimately show ?thesis unfolding assms(2) take_append by (metis diff_diff_left)
  qed
  moreover have "ex = Done (int (already + length (d @ e))) \<and> fails inp' = fails inp \<or> ex = Failed (- 1) \<and> fails inp = Suc (fails inp')"
    using assms(1,3) by (simp add: read_exit_def add.assoc)
  ultimately show ?thesis using le s assms(2) by (simp add: read_exit_def)
qed

lemma take_enough: "d = take r s \<Longrightarrow> r \<le> k \<Longrightarrow> length d = k \<or> length d < r \<Longrightarrow> d = take k s"
  by (auto simp: min_def split: if_splits)

lemma read_loop_ok:
  assumes "fill_ok m others (nodes @ tmp)" and "already < sz" and "sz < int_max"
  shows "\<exists>r. read_loop sz already nodes tmp inp m = Some r \<and> (\<forall>e. r = Inl e \<longrightarrow> \<not> plenty m)
    \<and> (\<forall>ex nodes' tmp' inp' m'. r = Inr (ex, nodes', tmp', inp', m') \<longrightarrow>
        (\<exists>d. read_exit sz already m inp ex d inp' \<and> filled m others nodes tmp m' nodes' tmp' d))"
  using assms
proof (induction "sz - already" arbitrary: already nodes tmp inp m rule: less_induct)
  case less
  let ?n = "cur_node nodes tmp"
  note room = fill_room[OF less.prems(1)]
  define rs where "rs = min (sz - already) (nat (CACHE_SIZE - w_offset ?n))"
  have rs: "0 < rs" "rs \<le> 512" "already + rs \<le> sz" using room less.prems by (auto simp: rs_def)
  obtain r d inp1 where sr: "sys_read rs inp = (r, d, inp1)" by (cases "sys_read rs inp") auto
  from sr show ?case
  proof (cases rule: sys_read_cases)
    case fail
    have "read_loop sz already nodes tmp inp m = Some (Inr (Failed (- 1), nodes, tmp, inp1, m))"
      using less.prems(2) sr fail
      by (subst read_loop.simps) (simp add: room(1) rs_def[symmetric] Let_def)
    moreover have "filled m others nodes tmp m nodes tmp []"
      using less.prems(1) filled_refl by (simp add: fill_ok_def)
    ultimately show ?thesis using fail less.prems(2) by (auto simp: read_exit_def intro!: exI[of _ "[]"])
  next
    case ok
    have lt: "length d < 2 ^ 64" "already + length d < 2 ^ 64" "already + length d < int_max" "already + length d \<le> sz"
      using rs less.prems(3) ok(2) by (auto simp: int_max_def)
    have fits: "w_offset ?n + int (length d) \<le> CACHE_SIZE" using room ok(2) by (auto simp: rs_def)
    obtain m1 nodes1 tmp1 where w: "cache_write (node_cache ?n) (w_offset ?n) d m = Inr m1"
      "put_node (advance_w (int (length d)) ?n) (nodes, tmp) = (nodes1, tmp1)"
      "buffer_ok m1 others (nodes1 @ tmp1)" "contents m1 (nodes1 @ tmp1) = contents m (nodes @ tmp) @ d"
      "pool_frame m m1 (set others)" "grown m nodes m1 nodes1"
      "w_offset (last (nodes1 @ tmp1)) = w_offset ?n + int (length d)"
      by (rule fill_round[OF less.prems(1) fits]) auto
    have f1: "filled m others nodes tmp m1 nodes1 tmp1 d" using w by (simp add: filled_def)
    have pl: "plenty m \<Longrightarrow> plenty m1" using pool_frame_env(2)[OF w(5)] .
    define stop where "stop \<longleftrightarrow> already + length d = sz \<or> length d < rs"
    have step: "read_loop sz already nodes tmp inp m =
        (if stop then Some (Inr (Done (int (already + length d)), nodes1, tmp1, inp1, m1))
         else case attach_cache m1 of Inl e \<Rightarrow> Some (Inl e)
           | Inr (None, m2) \<Rightarrow> Some (Inr (Done (int (already + length d)), nodes1, tmp1, inp1, m2))
           | Inr (Some c, m2) \<Rightarrow> read_loop sz (already + length d) nodes1 (tmp1 @ [new_node c]) inp1 m2)"
      unfolding stop_def using less.prems(2) rs lt w(1,2) ok(1) sr
      by (subst read_loop.simps)
        (simp add: room(1) rs_def[symmetric] Let_def to_int_small to_size_of_nat
          add_size_small split: sum.splits option.splits prod.splits)
    have ex1: "read_exit sz already m inp (Done (int (already + length d))) d inp1" if "stop \<or> \<not> plenty m"
    proof -
      have "d = take (sz - already) (stream inp)" if "plenty m" "length inp \<le> 1" "fails inp = 0"
      proof -
        have d: "d = take rs (stream inp)" and stop: stop using ok(5) that \<open>stop \<or> \<not> plenty m\<close> by auto
        have "rs \<le> sz - already" "length d = sz - already \<or> length d < rs"
          using rs stop by (auto simp: stop_def)
        with d show ?thesis by (rule take_enough)
      qed
      then show ?thesis using ok(3,4) lt(4) unfolding read_exit_def by blast
    qed
    show ?thesis
    proof (cases stop)
      case True
      then show ?thesis using step f1 ex1 by auto
    next
      case False
      then have full: "w_offset (last (nodes1 @ tmp1)) = CACHE_SIZE"
        using w(7) room rs(3) ok(2) by (auto simp: rs_def stop_def min_def split: if_splits)
      show ?thesis
      proof (cases "attach_cache m1")
        case (Inl e)
        then show ?thesis using step False attach_total[OF buffer_ok_held[OF w(3)]] pl by auto
      next
        case (Inr p)
        then obtain r m2 where a: "attach_cache m1 = Inr (r, m2)" by (cases p) auto
        note at = attach_round[OF w(3) full a]
        show ?thesis
        proof (cases r)
          case None
          then have "filled m1 others nodes1 tmp1 m2 nodes1 tmp1 []" using at by (simp add: filled_def)
          from filled_trans[OF f1 this] have "filled m others nodes tmp m2 nodes1 tmp1 d" by simp
          then show ?thesis using step False a None at(7) pl ex1 by auto
        next
          case (Some c)
          let ?t = "tmp1 @ [new_node c]"
          have f2: "fill_ok m2 others (nodes1 @ ?t)" using at(1)[OF Some] by simp
          have "filled m1 others nodes1 tmp1 m2 nodes1 ?t []"
            using at Some f2 by (simp add: filled_def fill_ok_def)
          from filled_trans[OF f1 this] have f12: "filled m others nodes tmp m2 nodes1 ?t d" by simp
          have "already + length d < sz" "sz - (already + length d) < sz - already"
            using False lt(4) rs(1) ok(2) less.prems(2) by (auto simp: stop_def)
          from less.hyps[OF this(2) f2 this(1) less.prems(3)] obtain q where
            q: "read_loop sz (already + length d) nodes1 ?t inp1 m2 = Some q" "\<forall>e. q = Inl e \<longrightarrow> \<not> plenty m2"
            "\<forall>ex nodes' tmp' inp' m'. q = Inr (ex, nodes', tmp', inp', m') \<longrightarrow>
              (\<exists>e. read_exit sz (already + length d) m2 inp1 ex e inp' \<and> filled m2 others nodes1 ?t m' nodes' tmp' e)"
            by blast
          have pl2: "plenty m \<Longrightarrow> plenty m2" using pl pool_frame_env(2)[OF at(5)] by blast
          have "\<exists>e. read_exit sz already m inp ex e inp' \<and> filled m others nodes tmp m' nodes' tmp' e"
            if r: "q = Inr (ex, nodes', tmp', inp', m')" for ex nodes' tmp' inp' m'
          proof -
            obtain e where e: "read_exit sz (already + length d) m2 inp1 ex e inp'"
              "filled m2 others nodes1 ?t m' nodes' tmp' e" using q(3) r by blast
            have "read_exit sz already m inp ex (d @ e) inp'"
              by (rule read_exit_more[OF e(1) ok(3,4) _ pl2]) (use ok(5) in auto)
            with filled_trans[OF f12 e(2)] show ?thesis by blast
          qed
          moreover have "read_loop sz already nodes tmp inp m = Some q" using step False a Some q(1) by simp
          ultimately show ?thesis using q(2) pl2 by blast
        qed
      qed
    qed
  qed
qed

text \<open>Only the temporary list got bytes, or nobody did: the buffer proper is as it was.\<close>

lemma grown_zero:
  assumes b: "buffer_ok m others nodes" and f: "filled m others nodes [] m' ns t d"
    and k: "d = [] \<or> nodes = [] \<or> w_offset (last nodes) = CACHE_SIZE"
  shows "ns = nodes" and "buffer_ok m' others nodes" and "contents m' nodes = contents m nodes"
proof -
  have g: "grown m nodes m' ns" and ok: "nodes_ok m' (ns @ t)" and
    c: "contents m' (ns @ t) = contents m nodes @ d" using f by (auto simp: filled_def buffer_ok_def)
  have kept: "kept m m' nodes" and nok: "nodes_ok m nodes" using g b by (auto simp: grown_def buffer_ok_def)
  note kc = kept_contents[OF kept nok]
  show same: "ns = nodes"
  proof (cases "nodes = []")
    case False
    then obtain j where j: "j \<ge> 0" "ns = butlast nodes @ [advance_w j (last nodes)]" using g by (auto simp: grown_def)
    have n: "node_ok m' (last nodes)" "node_ok m' (advance_w j (last nodes))"
      using kc(2) ok False j by (auto simp: nodes_ok_def)
    have "j = 0" if "w_offset (last nodes) = CACHE_SIZE" using n j that by (simp add: node_ok_def)
    moreover have "j = 0" if d: "d = []"
    proof -
      have "contents m' nodes = contents m' (butlast nodes) @ node_data m' (last nodes)"
        by (subst append_butlast_last_id[OF False, symmetric], subst contents_simps) simp
      then have "contents m' (butlast nodes) @ node_data m' (last nodes)
          = contents m' (butlast nodes) @ node_data m' (advance_w j (last nodes)) @ contents m' t"
        using c d kc(1) j(2) by simp
      then have "length (node_data m' (advance_w j (last nodes))) \<le> length (node_data m' (last nodes))" by simp
      then show ?thesis using NODE_SIZE_ok[OF n(1)] NODE_SIZE_ok[OF n(2)] j(1) by (simp add: NODE_SIZE_def)
    qed
    ultimately have "advance_w j (last nodes) = last nodes" using k False by (auto simp: advance_w_def)
    then show ?thesis by (simp add: j(2) False)
  qed (use g in \<open>simp add: grown_def\<close>)
  show "buffer_ok m' others nodes" "contents m' nodes = contents m nodes"
    using filled_drop_tmp[OF f] kc by (simp_all add: buffer_ok_def same)
qed

lemma error_with_read_Inr:
  assumes f: "filled m others nodes [] m' ns t d" and ne: "nodes \<noteq> []"
    and r: "error_with_read w ret ns t m' = Inr (v, ns', m'')"
  shows "v = ret" and "ns' = butlast nodes @ [(last nodes)\<lparr>w_offset := to_int w\<rparr>]"
    and "held_ok m'' (map node_cache nodes @ others)" and "pool_frame m m'' (set others)" and "kept m m'' nodes"
proof -
  have g: "grown m nodes m' ns" and h: "held_ok m' (map node_cache (ns @ t) @ others)"
    and fr: "pool_frame m m' (set others)" using f by (auto simp: filled_def buffer_ok_def)
  obtain j where j: "ns = butlast nodes @ [advance_w j (last nodes)]" using g ne by (auto simp: grown_def)
  have mp: "map node_cache ns = map node_cache nodes"
    using arg_cong[OF append_butlast_last_id[OF ne], of "map node_cache"] by (simp add: j del: append_butlast_last_id)
  have r': "iter_res recycle_cache (rev (map node_cache t)) m' = Inr m''" and
    v: "v = ret" "ns' = butlast ns @ [(last ns)\<lparr>w_offset := to_int w\<rparr>]"
    using r j by (auto simp: error_with_read_def bindr_Inr_iff Let_def)
  show "v = ret" "ns' = butlast nodes @ [(last nodes)\<lparr>w_offset := to_int w\<rparr>]"
    using v by (simp_all add: j advance_w_def)
  have h': "held_ok m' (rev (map node_cache t) @ (map node_cache nodes @ others))"
    by (rule held_perm[OF h]) (simp add: mp)
  show "held_ok m'' (map node_cache nodes @ others)" using bp.recycle_each[OF r' h'] by blast
  have fr2: "pool_frame m' m'' (- set (map node_cache t))" using recycle_each_frame[OF r' h'] by simp
  have d: "distinct (map node_cache t @ map node_cache nodes @ others)" using held_distinct[OF h'] by auto
  have "pool_frame m' m'' (set others)" by (rule pool_frame_mono[OF fr2]) (use d in auto)
  then show "pool_frame m m'' (set others)" by (rule pool_frame_trans[OF fr])
  have "block m'' (node_cache n) = block m' (node_cache n)" if "n \<in> set nodes" for n
  proof (rule frame_block[OF fr2])
    show "node_cache n \<in> - set (map node_cache t)" using d that by auto
    show "node_cache n < length (store m')" by (rule held_lt[OF h']) (use that in simp)
  qed
  then show "kept m m'' nodes" using g by (simp add: grown_def kept_def)
qed

lemma error_with_read_Inl:
  assumes f: "filled m others nodes [] m' ns t d" and ne: "nodes \<noteq> []"
    and r: "error_with_read w ret ns t m' = Inl e"
  shows "\<not> plenty m"
proof
  assume "plenty m"
  then have pl: "plenty m'" using f pool_frame_env(2) by (auto simp: filled_def)
  have h: "held_ok m' (map node_cache (ns @ t) @ others)" using f by (auto simp: filled_def buffer_ok_def)
  have h': "held_ok m' (rev (map node_cache t) @ (map node_cache ns @ others))"
    by (rule held_perm[OF h]) simp
  have "ns \<noteq> []" using f ne by (auto simp: filled_def grown_def)
  then show False using recycle_each_total[OF h' pl] r by (auto simp: error_with_read_def)
qed

lemma read_into_buffer_run:
  assumes b: "buffer_ok m others nodes" and sz: "0 < sz" "sz < int_max"
    and p: "first_node nodes m = Inr (Some (tmp, w), m1)"
  obtains (fault) e where "returned (read_loop sz 0 nodes tmp inp m1) = Inl e" "\<not> plenty m"
  | (exit) ex ns t inp' m2 d where "returned (read_loop sz 0 nodes tmp inp m1) = Inr (ex, ns, t, inp', m2)"
      "read_exit sz 0 m inp ex d inp'" "filled m others nodes [] m2 ns t d"
proof -
  note fn = first_node_filled[OF b p]
  obtain r where r: "read_loop sz 0 nodes tmp inp m1 = Some r" "\<forall>e. r = Inl e \<longrightarrow> \<not> plenty m1"
    "\<forall>ex nodes' tmp' inp' m'. r = Inr (ex, nodes', tmp', inp', m') \<longrightarrow>
      (\<exists>d. read_exit sz 0 m1 inp ex d inp' \<and> filled m1 others nodes tmp m' nodes' tmp' d)"
    using read_loop_ok[OF fn(1) sz] by blast
  show ?thesis
  proof (cases r)
    case (Inl e)
    then show ?thesis using fault r fn(3) by (auto simp: returned_def)
  next
    case (Inr q)
    then obtain ex ns t inp' m2 where r': "r = Inr (ex, ns, t, inp', m2)" by (cases q) auto
    then obtain d where d: "read_exit sz 0 m1 inp ex d inp'" "filled m1 others nodes tmp m2 ns t d"
      using r(3) by blast
    have "read_exit sz 0 m inp ex d inp'" using d(1) fn(3) unfolding read_exit_def by blast
    then show ?thesis using exit[of ex ns t inp' m2 d] filled_trans[OF fn(2) d(2)] r(1) r' by (simp add: returned_def)
  qed
qed

text \<open>
  How a call ends: with \<open>d\<close> bytes more in the buffer, without a node, or on the error path. On
  the error path the bytes already taken from the socket are lost, and the buffer is as it
  was only when its last node has room.
\<close>

lemma read_into_buffer_Inr:
  assumes b: "buffer_ok m others nodes" and sz: "0 < sz" "sz < int_max"
    and r: "read_into_buffer m inp nodes sz = Inr (v, nodes', inp', m')"
  obtains (ok) d where "v = length d" "length d \<le> sz" "buffer_ok m' others nodes'" "contents m' nodes' = contents m nodes @ d"
      "stream inp = d @ stream inp'" "fails inp' = fails inp" "pool_frame m m' (set others)"
      "plenty m \<Longrightarrow> length inp \<le> 1 \<Longrightarrow> fails inp = 0 \<Longrightarrow> d = take sz (stream inp)"
  | (no_node) "v = to_size (- 1)" "inp' = inp" "\<not> plenty m" "buffer_ok m' others nodes"
      "nodes' = nodes" "contents m' nodes = contents m nodes" "pool_frame m m' (set others)"
  | (failed) d where "v = to_size (- 1)" "stream inp = d @ stream inp'" "fails inp = Suc (fails inp')"
      "nodes \<noteq> []" "w_offset (last nodes) < CACHE_SIZE" "nodes' = nodes" "buffer_ok m' others nodes"
      "contents m' nodes = contents m nodes" "pool_frame m m' (set others)"
  | (damaged) "v = to_size (- 1)" "fails inp = Suc (fails inp')"
      "nodes \<noteq> []" "w_offset (last nodes) = CACHE_SIZE"
      "nodes' = butlast nodes @ [(last nodes)\<lparr>w_offset := - 1\<rparr>]" "pool_frame m m' (set others)"
proof -
  obtain p m1 where p: "first_node nodes m = Inr (p, m1)"
    using r by (auto simp: read_into_buffer_def bindr_Inr_iff)
  show ?thesis
  proof (cases p)
    case None
    then have "v = to_size (- 1)" "nodes' = nodes" "m' = m1" "inp' = inp" using r p by (auto simp: read_into_buffer_def)
    then show ?thesis using no_node None by (cases rule: first_node_cases[OF b p]) auto
  next
    case (Some q)
    then obtain tmp w where p: "first_node nodes m = Inr (Some (tmp, w), m1)" using p by (cases q) auto
    from b sz p show ?thesis
    proof (cases rule: read_into_buffer_run[where inp = inp])
      case (fault e)
      then show ?thesis using r p by (simp add: read_into_buffer_def)
    next
      case (exit ex ns t inp1 m2 d)
      note d = exit(2)[unfolded read_exit_def add_0 diff_zero]
      show ?thesis
      proof (cases "\<exists>k. ex = Done k")
        case True
        then have ex: "ex = Done (int (length d))" "fails inp1 = fails inp" using d by auto
        then have *: "v = length d" "nodes' = merge_tmp (int (length d)) ns t" "inp' = inp1" "m' = m2"
          using r p exit(1) d sz(2) by (auto simp: read_into_buffer_def to_size_of_nat int_max_def)
        have **: "buffer_ok m' others nodes' \<and> contents m' nodes' = contents m nodes @ d"
        proof (cases "d = []")
          case True
          then show ?thesis using * grown_zero[OF b exit(3)] by (simp add: merge_tmp_def)
        next
          case False
          then show ?thesis using * exit(3) by (auto simp: merge_tmp_def filled_def)
        qed
        have rest: "length d \<le> sz" "stream inp = d @ stream inp'" "fails inp' = fails inp"
          "pool_frame m m' (set others)"
          using d ex(2) exit(3) unfolding *(3,4) filled_def by blast+
        have all: "plenty m \<Longrightarrow> length inp \<le> 1 \<Longrightarrow> fails inp = 0 \<Longrightarrow> d = take sz (stream inp)"
          using d by blast
        show ?thesis by (rule ok[OF *(1) rest(1) conjunct1[OF **] conjunct2[OF **] rest(2-4) all])
      next
        case False
        then have ex: "ex = Failed (- 1)" "fails inp = Suc (fails inp1)" using d by auto
        then obtain v' where e: "error_with_read w (- 1) ns t m2 = Inr (v', nodes', m')" "v = to_size v'" "inp' = inp1"
          using r p exit(1) by (auto simp: read_into_buffer_def bindr_Inr_iff)
        have ne: "nodes \<noteq> []"
        proof
          assume "nodes = []"
          then have "ns = []" "0 \<le> w" using exit(3) by (auto simp: filled_def grown_def)
          then show False using e(1) by (simp add: error_with_read_def)
        qed
        note er = error_with_read_Inr[OF exit(3) ne e(1)]
        from b p show ?thesis
        proof (cases rule: first_node_cases)
          case no_node
          then show ?thesis by simp
        next
          case same_node
          then have w: "w = nat (w_offset (last nodes))" "w_offset (last nodes) < CACHE_SIZE" by (auto simp: fill_ok_def)
          have "node_ok m (last nodes)" using b ne by (simp add: buffer_ok_def nodes_ok_def)
          then have "to_int w = w_offset (last nodes)" using w by (subst w(1), subst to_int_small) (auto simp: node_ok_def int_max_def)
          then have same: "nodes' = nodes" using er(2) ne by simp
          have nok: "nodes_ok m nodes" using b by (simp add: buffer_ok_def)
          show ?thesis
            by (rule failed[of d])
              (use e er d ex ne w same kept_contents[OF er(5) nok] in \<open>auto simp: buffer_ok_def\<close>)
        next
          case (fresh_node c)
          then have "to_int w = - 1" by (simp add: to_int_def)
          moreover have "w_offset (last nodes) = CACHE_SIZE" using fresh_node ne by simp
          ultimately show ?thesis using damaged e er ex ne by simp
        qed
      qed
    qed
  qed
qed

lemma read_into_buffer_Inl:
  assumes b: "buffer_ok m others nodes" and sz: "0 < sz" "sz < int_max"
    and r: "read_into_buffer m inp nodes sz = Inl e"
  shows "\<not> plenty m \<or> nodes = [] \<and> 0 < fails inp"
proof (cases "first_node nodes m")
  case (Inl e)
  then show ?thesis using first_node_Inl b by blast
next
  case (Inr q)
  then obtain p m1 where p: "first_node nodes m = Inr (p, m1)" by (cases q) auto
  then obtain tmp w where p: "first_node nodes m = Inr (Some (tmp, w), m1)"
    using r by (cases p) (auto simp: read_into_buffer_def)
  from b sz p show ?thesis
  proof (cases rule: read_into_buffer_run[where inp = inp])
    case (fault e)
    then show ?thesis by simp
  next
    case (exit ex ns t inp1 m2 d)
    note d = exit(2)[unfolded read_exit_def]
    have "error_with_read w (- 1) ns t m2 = Inl e" "ex = Failed (- 1)" "0 < fails inp"
      using r p exit(1) d by (auto simp: read_into_buffer_def bindr_def split: loop_exit.splits sum.splits)
    then show ?thesis using error_with_read_Inl[OF exit(3)] by blast
  qed
qed

lemma read_into_buffer_empty_fault:
  assumes b: "buffer_ok m others []" and sz: "0 < sz" "sz < int_max" and pl: "plenty m"
  shows "read_into_buffer m (Read_fail # inp) [] sz = Inl Out_of_bounds"
proof -
  obtain c m1 where "attach_cache m = Inr (Some c, m1)" using attach_total[OF buffer_ok_held[OF b] pl] by blast
  then show ?thesis using sz
    by (simp add: read_into_buffer_def first_node_def returned_def read_loop.simps Let_def cur_node_def
        error_with_read_def to_size_def)
qed

text \<open>A read of 0 bytes (what a closed connection asks for): a node may leak, nothing else happens.\<close>

text \<open>
  A call for 0 bytes: the block it takes for an empty buffer, or for one whose last block is full, is
  in nobody's hands afterwards.
\<close>

lemma read_nothing:
  "nodes \<noteq> [] \<Longrightarrow> w_offset (last nodes) \<noteq> CACHE_SIZE \<Longrightarrow> read_into_buffer m inp nodes 0 = Inr (0, nodes, inp, m)"
  by (simp add: read_into_buffer_def first_node_def read_loop.simps merge_tmp_def to_size_def)

lemma read_nothing_loses:
  assumes "nodes = [] \<or> w_offset (last nodes) = CACHE_SIZE" and h: "held_ok m us" and pl: "plenty m"
  obtains c m' where "read_into_buffer m inp nodes 0 = Inr (0, nodes, inp, m')" "held_ok m' (c # us)"
    "pool_frame m m' (set us)" "length (block m' c) = 512" "waits m c \<or> length (store m) \<le> c"
proof -
  obtain c m' where a: "attach_cache m = Inr (Some c, m')" using attach_total[OF h pl] by blast
  have "read_into_buffer m inp nodes 0 = Inr (0, nodes, inp, m')"
    using assms(1) a by (simp add: read_into_buffer_def first_node_def read_loop.simps merge_tmp_def to_size_def)
  then show ?thesis using that attach_ok(1,4)[OF a h] attach_source[OF a h] by blast
qed

lemma read_into_buffer_zero:
  assumes b: "buffer_ok m others nodes" and pl: "plenty m"
  shows "\<exists>m'. read_into_buffer m inp nodes 0 = Inr (0, nodes, inp, m') \<and> buffer_ok m' others nodes
    \<and> chunks m' nodes = chunks m nodes \<and> pool_frame m m' (set others)"
proof (cases "first_node nodes m")
  case (Inl e)
  then show ?thesis using first_node_Inl[OF Inl b] pl by simp
next
  case (Inr q)
  then obtain p m1 where p: "first_node nodes m = Inr (p, m1)" by (cases q) auto
  have run: "read_into_buffer m inp nodes 0 = Inr (0, nodes, inp, m1)" if "p = Some q" for q
    using p that by (cases q) (simp add: read_into_buffer_def read_loop.simps merge_tmp_def to_size_def)
  from b p show ?thesis
  proof (cases rule: first_node_cases)
    case no_node
    then show ?thesis using pl by simp
  next
    case same_node
    then show ?thesis using run[OF same_node(1)] b by auto
  next
    case (fresh_node c)
    have "kept m m1 nodes" "pool_frame m m1 (set others)" using fresh_node(4) by (auto simp: filled_def grown_def)
    moreover have "nodes_ok m nodes" using b by (simp add: buffer_ok_def)
    moreover have "held_ok m1 (map node_cache nodes @ others)" by (rule filled_drop_tmp[OF fresh_node(4)])
    ultimately show ?thesis using run[OF fresh_node(1)] kept_contents[of m m1 nodes] by (auto simp: buffer_ok_def)
  qed
qed

section \<open>Draining: one node\<close>

lemma nodes_ok_Cons:
  "nodes_ok m (n # rest) \<longleftrightarrow> node_ok m n \<and> nodes_ok m rest
     \<and> (if rest = [] then r_offset n < w_offset n \<or> w_offset n = 0
        else w_offset n = CACHE_SIZE \<and> r_offset n < w_offset n)"
  by (cases "rest = []") (auto simp: nodes_ok_def)

lemma drain_read:
  assumes "buffer_ok m others (n # rest)" and "int k \<le> NODE_SIZE n"
  shows "cache_read (node_cache n) (r_offset n) k m = Inr (take k (node_data m n))"
proof -
  have "node_ok m n" "node_cache n < length (store m)"
    using assms(1) held_lt by (auto simp: buffer_ok_def nodes_ok_def)
  then show ?thesis using assms(2) by (auto simp: cache_read_def node_ok_def NODE_SIZE_def node_data_def)
qed

lemma drain_node_data:
  assumes "buffer_ok m others (n # rest)" and "int k < NODE_SIZE n"
  shows "node_data m (n\<lparr>r_offset := r_offset n + int k\<rparr>) = drop k (node_data m n)"
proof -
  have "node_ok m n" using assms(1) by (simp add: buffer_ok_def nodes_ok_Cons)
  then show ?thesis using assms(2) unfolding node_data_def NODE_SIZE_def node_ok_def
    by (simp add: drop_take nat_diff_distrib nat_add_distrib add.commute)
qed

lemma drain_keep:
  assumes "buffer_ok m others (n # rest)" and "int k < NODE_SIZE n"
  shows "buffer_ok m others (n\<lparr>r_offset := r_offset n + int k\<rparr> # rest)"
    and "contents m (n\<lparr>r_offset := r_offset n + int k\<rparr> # rest) = drop k (contents m (n # rest))"
proof -
  let ?n = "n\<lparr>r_offset := r_offset n + int k\<rparr>"
  have ok: "node_ok m n" using assms(1) by (auto simp: buffer_ok_def nodes_ok_def)
  then have "node_ok m ?n" "r_offset ?n < w_offset ?n" using assms(2) by (auto simp: node_ok_def NODE_SIZE_def)
  then show "buffer_ok m others (?n # rest)"
    using assms(1) by (auto simp: buffer_ok_def nodes_ok_Cons split: if_splits)
  have "node_data m ?n = drop k (node_data m n)" by (rule drain_node_data[OF assms])
  moreover have "k \<le> length (node_data m n)" using NODE_SIZE_ok[OF ok] assms(2) by simp
  ultimately show "contents m (?n # rest) = drop k (contents m (n # rest))" by simp
qed

lemma drain_drop:
  assumes b: "buffer_ok m others (n # rest)" and r: "recycle_cache (node_cache n) m = Inr (v, m')"
  shows "buffer_ok m' others rest" and "contents m' rest = contents m rest" and "pool_frame m m' (set others)"
    and "plenty m \<Longrightarrow> plenty m'"
proof -
  have h: "held_ok m (node_cache n # map node_cache rest @ others)" using b by (simp add: buffer_ok_def)
  have rc: "held_ok m' (map node_cache rest @ others)"
    "\<forall>d \<in> set (map node_cache rest @ others). block m' d = block m d"
    using bp.recycle[OF r h] by auto
  have same: "block m' (node_cache x) = block m (node_cache x)" if "x \<in> set rest" for x
    using rc(2) that by simp
  have "nodes_ok m rest" using b by (simp add: buffer_ok_def nodes_ok_Cons)
  then show "buffer_ok m' others rest" using rc(1) nodes_ok_cong[of rest, OF same] by (simp add: buffer_ok_def)
  show "contents m' rest = contents m rest" by (rule contents_cong) (rule same)
  have fr: "pool_frame m m' (- {node_cache n})"
    by (rule recycle_cache_ok(3)[OF r]) (use h in \<open>auto simp: held_ok_def\<close>)
  show "pool_frame m m' (set others)" by (rule pool_frame_mono[OF fr]) (use held_distinct[OF h] in auto)
  show "plenty m \<Longrightarrow> plenty m'" using pool_frame_env(2)[OF fr] .
qed

lemma drain_total:
  assumes "buffer_ok m others (n # rest)" and "plenty m"
  shows "\<exists>m'. recycle_cache (node_cache n) m = Inr (0, m')"
  by (rule recycle_cache_total[of m "map node_cache (n # rest) @ others"])
    (use assms in \<open>auto simp: buffer_ok_def held_ok_def\<close>)

text \<open>Only a node with bytes left keeps its block; the head of a node list is described by its size.\<close>

lemma head_node:
  assumes "buffer_ok m others (n # rest)"
  shows "NODE_SIZE n = int (length (node_data m n))" and "to_size (NODE_SIZE n) = length (node_data m n)"
    and "length (node_data m n) \<le> 512" and "0 \<le> r_offset n" and "r_offset n \<le> 512"
    and "w_offset n = r_offset n + int (length (node_data m n))"
proof -
  have ok: "node_ok m n" using assms by (auto simp: buffer_ok_def nodes_ok_def)
  then show "NODE_SIZE n = int (length (node_data m n))" "to_size (NODE_SIZE n) = length (node_data m n)"
    "length (node_data m n) \<le> 512" "0 \<le> r_offset n" "r_offset n \<le> 512"
    "w_offset n = r_offset n + int (length (node_data m n))"
    using NODE_SIZE_ok[OF ok] by (auto simp: node_ok_def NODE_SIZE_def)
qed

section \<open>read_from_buffer\<close>

lemma expected_size_min:
  assumes "nodes_ok m nodes" and "n + length (contents m nodes) < 2 ^ 64" and "n \<le> sz"
  shows "expected_size sz nodes n = min sz (n + length (contents m nodes))"
  using assms
proof (induction nodes arbitrary: n)
  case (Cons x nodes)
  have ok: "node_ok m x" "nodes_ok m nodes" using Cons.prems(1) by (simp_all add: nodes_ok_Cons)
  then have sz: "to_size (NODE_SIZE x) = length (node_data m x)" using NODE_SIZE_ok[OF ok(1)] by simp
  have "n + length (node_data m x) < 2 ^ 64" using Cons.prems(2) by simp
  then have "add_size n (to_size (NODE_SIZE x)) = n + length (node_data m x)" by (simp add: sz add_size_small)
  then show ?case using Cons.IH[OF ok(2), of "n + length (node_data m x)"] Cons.prems(2,3)
    by (auto simp: Let_def min_def)
qed simp

lemma read_out_loop_ok:
  assumes "buffer_ok m others nodes" and "expected - already \<le> length (contents m nodes)"
    and "already \<le> expected" and "length target = expected" and "expected < 2 ^ 64"
  shows "\<exists>r. read_out_loop expected already nodes target m = Some r \<and> (\<forall>e. r = Inl e \<longrightarrow> \<not> plenty m)
    \<and> (\<forall>v ns t m'. r = Inr (v, ns, t, m') \<longrightarrow> v = expected \<and> buffer_ok m' others ns
        \<and> contents m' ns = drop (expected - already) (contents m nodes)
        \<and> t = take already target @ take (expected - already) (contents m nodes) \<and> pool_frame m m' (set others))"
  using assms
proof (induction nodes arbitrary: already target m)
  case Nil
  then show ?case by (simp add: read_out_loop.simps)
next
  case (Cons n rest)
  note hn = head_node[OF Cons.prems(1)]
  define k where "k = min (length (node_data m n)) (expected - already)"
  show ?case
  proof (cases "already < expected")
    case False
    then show ?thesis using Cons.prems by (simp add: read_out_loop.simps)
  next
    case True
    have k: "k < int_max" "int k \<le> NODE_SIZE n" "already + k \<le> expected" "k < 2 ^ 64" "already + k < 2 ^ 64"
      using hn(1,3) True Cons.prems(5) by (auto simp: k_def int_max_def)
    define d where "d = take k (node_data m n)"
    have d: "length d = k" "take k (contents m (n # rest)) = d" by (auto simp: d_def k_def)
    let ?t = "splice_at already d target"
    have t: "length ?t = expected" "take (already + k) ?t = take already target @ d"
      using Cons.prems(4) k(3) d(1) take_add_splice_at[of already target d] by auto
    let ?n = "n\<lparr>r_offset := r_offset n + int k\<rparr>"
    have step: "read_out_loop expected already (n # rest) target m =
        (if k = length (node_data m n)
         then case recycle_cache (node_cache n) m of Inl e \<Rightarrow> Some (Inl e)
              | Inr (_, m1) \<Rightarrow> read_out_loop expected (already + k) rest ?t m1
         else read_out_loop expected (already + k) (?n # rest) ?t m)"
      using True drain_read[OF Cons.prems(1) k(2)] hn(2,6) k
      by (subst read_out_loop.simps)
        (simp add: k_def[symmetric] d_def[symmetric] to_int_small to_size_of_nat add_size_small Let_def
          split: sum.splits)
    show ?thesis
    proof (cases "k = length (node_data m n)")
      case False
      then have lt: "int k < NODE_SIZE n" and all: "already + k = expected" and le: "k < length (node_data m n)"
        using hn(1) True by (auto simp: k_def min_def split: if_splits)
      have "read_out_loop expected already (n # rest) target m = Some (Inr (expected, ?n # rest, ?t, m))"
        using step False all by (subst (asm) read_out_loop.simps[of expected "already + k"]) simp
      moreover have "?t = take already target @ take (expected - already) (contents m (n # rest))"
        using t d all by (metis add_diff_cancel_left' take_all_iff order_refl)
      ultimately show ?thesis using drain_keep[OF Cons.prems(1) lt] all by auto
    next
      case eq: True
      then have step: "read_out_loop expected already (n # rest) target m =
          (case recycle_cache (node_cache n) m of Inl e \<Rightarrow> Some (Inl e)
              | Inr (_, m1) \<Rightarrow> read_out_loop expected (already + k) rest ?t m1)" using step by simp
      show ?thesis
      proof (cases "recycle_cache (node_cache n) m")
        case (Inl e)
        then show ?thesis using step drain_total[OF Cons.prems(1)] by auto
      next
        case (Inr p)
        then obtain v m1 where r: "recycle_cache (node_cache n) m = Inr (v, m1)" by (cases p) auto
        note dd = drain_drop[OF Cons.prems(1) r]
        have "expected - (already + k) \<le> length (contents m1 rest)"
          using Cons.prems(2) eq dd(2) by simp
        from Cons.IH[OF dd(1) this k(3) t(1) Cons.prems(5)] obtain q where
          q: "read_out_loop expected (already + k) rest ?t m1 = Some q" "\<forall>e. q = Inl e \<longrightarrow> \<not> plenty m1"
          "\<forall>v ns t m'. q = Inr (v, ns, t, m') \<longrightarrow> v = expected \<and> buffer_ok m' others ns
            \<and> contents m' ns = drop (expected - (already + k)) (contents m1 rest)
            \<and> t = take (already + k) ?t @ take (expected - (already + k)) (contents m1 rest)
            \<and> pool_frame m1 m' (set others)" by blast
        have dr: "drop (expected - (already + k)) (contents m1 rest) = drop (expected - already) (contents m (n # rest))"
          using k(3) eq dd(2) by simp
        have tk: "take (already + k) ?t @ take (expected - (already + k)) (contents m1 rest)
            = take already target @ take (expected - already) (contents m (n # rest))"
        proof -
          have "take (expected - already) (contents m (n # rest)) = d @ take (expected - (already + k)) (contents m1 rest)"
            using k(3) eq dd(2) by (simp add: d_def)
          then show ?thesis by (simp add: t(2))
        qed
        have "read_out_loop expected already (n # rest) target m = Some q" using step r q(1) by simp
        then show ?thesis using q(2,3) dd(4) pool_frame_trans[OF dd(3)] unfolding dr tk by blast
      qed
    qed
  qed
qed

lemma buffer_ok_mallocs: "buffer_ok (m\<lparr>mallocs := ms\<rparr>) others nodes \<longleftrightarrow> buffer_ok m others nodes"
  by (simp add: buffer_ok_def held_mallocs nodes_ok_def node_ok_def)

lemma contents_mallocs: "contents (m\<lparr>mallocs := ms\<rparr>) nodes = contents m nodes"
  by (rule contents_cong) simp

lemma read_from_buffer_run:
  assumes b: "buffer_ok m others nodes" and sz: "sz < 2 ^ 64" and len: "length (contents m nodes) < 2 ^ 64"
  shows "read_from_buffer m nodes sz = Inl e \<Longrightarrow> \<not> plenty m"
    and "read_from_buffer m nodes sz = Inr (v, nodes', d, m') \<Longrightarrow>
      v = min sz (length (contents m nodes)) \<and> d = take sz (contents m nodes) \<and> buffer_ok m' others nodes'
      \<and> contents m' nodes' = drop sz (contents m nodes) \<and> pool_frame m m' (set others)"
proof -
  define ex where "ex = min sz (length (contents m nodes))"
  have ex: "(if nodes = [] then 0 else expected_size sz nodes 0) = ex"
    using expected_size_min[of m nodes 0 sz] b len by (auto simp: buffer_ok_def ex_def)
  have run: "\<exists>r. read_out_loop ex 0 nodes (replicate ex NUL) (m\<lparr>mallocs := ms\<rparr>) = Some r \<and> (\<forall>e. r = Inl e \<longrightarrow> \<not> plenty (m\<lparr>mallocs := ms\<rparr>))
    \<and> (\<forall>v ns t m'. r = Inr (v, ns, t, m') \<longrightarrow> v = ex \<and> buffer_ok m' others ns
        \<and> contents m' ns = drop ex (contents m nodes)
        \<and> t = take ex (contents m nodes) \<and> pool_frame (m\<lparr>mallocs := ms\<rparr>) m' (set others))" for ms
    using read_out_loop_ok[of "m\<lparr>mallocs := ms\<rparr>" others nodes ex 0 "replicate ex NUL"] b sz
    by (simp add: buffer_ok_mallocs contents_mallocs ex_def)
  show "\<not> plenty m" if r: "read_from_buffer m nodes sz = Inl e"
  proof
    assume "plenty m"
    then obtain ms where ms: "malloc_unchecked m = Inr (m\<lparr>mallocs := ms\<rparr>)" "\<forall>b \<in> set ms. b"
      using malloc_unchecked_plenty by blast
    then have "plenty (m\<lparr>mallocs := ms\<rparr>)" by (simp add: plenty_def)
    then show False using run[of ms] ms(1) r by (auto simp: read_from_buffer_def ex returned_def split: option.splits)
  qed
  assume r: "read_from_buffer m nodes sz = Inr (v, nodes', d, m')"
  then obtain m1 where m1: "malloc_unchecked m = Inr m1"
    "returned (read_out_loop ex 0 nodes (replicate ex NUL) m1) = Inr (v, nodes', d, m')"
    by (auto simp: read_from_buffer_def ex bindr_Inr_iff)
  obtain ms where ms: "m1 = m\<lparr>mallocs := ms\<rparr>" "set ms \<subseteq> set (mallocs m)" using malloc_unchecked_cases[OF m1(1)] by blast
  have "v = ex \<and> buffer_ok m' others nodes' \<and> contents m' nodes' = drop ex (contents m nodes)
      \<and> d = take ex (contents m nodes) \<and> pool_frame m1 m' (set others)"
    using run[of ms] m1(2) unfolding ms(1) by (auto simp: returned_def)
  moreover have "take ex (contents m nodes) = take sz (contents m nodes)"
    "drop ex (contents m nodes) = drop sz (contents m nodes)" by (simp_all add: ex_def min_def)
  ultimately show "v = min sz (length (contents m nodes)) \<and> d = take sz (contents m nodes) \<and> buffer_ok m' others nodes'
      \<and> contents m' nodes' = drop sz (contents m nodes) \<and> pool_frame m m' (set others)"
    using pool_frame_trans[OF frame_mallocs[OF ms(2)]] ms(1) by (auto simp: ex_def)
qed

text \<open>A read that the first node can serve, node by node.\<close>

definition cut_chunks :: "nat \<Rightarrow> string list \<Rightarrow> string list" where
  "cut_chunks k chs = (case chs of [] \<Rightarrow> [] | c # cs \<Rightarrow> if k = 0 then chs else if k = length c then cs else drop k c # cs)"

lemma read_from_buffer_head:
  assumes b: "buffer_ok m others nodes" and r: "read_from_buffer m nodes k = Inr (v, nodes', d, m')"
    and k: "k \<le> length (case chunks m nodes of [] \<Rightarrow> [] | c # cs \<Rightarrow> c)" and len: "length (contents m nodes) < 2 ^ 64"
  shows "chunks m' nodes' = cut_chunks k (chunks m nodes)"
proof -
  have k64: "k < 2 ^ 64" "min k (length (contents m nodes)) = k"
    using k len by (cases nodes; simp add: chunks_def)+
  have ex: "(if nodes = [] then 0 else expected_size k nodes 0) = k"
    using expected_size_min[of m nodes 0 k] b len k64(2) k by (auto simp: buffer_ok_def chunks_def)
  obtain m1 where m1: "malloc_unchecked m = Inr m1"
    "returned (read_out_loop k 0 nodes (replicate k NUL) m1) = Inr (v, nodes', d, m')"
    using r by (auto simp: read_from_buffer_def ex bindr_Inr_iff)
  obtain ms where ms: "m1 = m\<lparr>mallocs := ms\<rparr>" using malloc_unchecked_cases[OF m1(1)] by blast
  have b1: "buffer_ok m1 others nodes" and c1: "node_data m1 = node_data m"
    using b by (simp_all add: ms buffer_ok_mallocs node_data_def fun_eq_iff)
  show ?thesis
  proof (cases "nodes = [] \<or> k = 0")
    case True
    then have "nodes' = nodes" "m' = m1" using m1(2) k
      by (auto simp: read_out_loop.simps returned_def chunks_def)
    then show ?thesis using True c1 by (auto simp: cut_chunks_def chunks_def split: list.splits)
  next
    case False
    then obtain n rest where nodes: "nodes = n # rest" and k0: "0 < k" by (cases nodes) auto
    note b2 = b1[unfolded nodes]
    note hn = head_node[OF b2]
    have kn: "k \<le> length (node_data m n)" using k by (simp add: nodes chunks_def)
    have k': "int k \<le> NODE_SIZE n" "k < int_max" using kn hn by (auto simp: c1 int_max_def)
    let ?n = "n\<lparr>r_offset := r_offset n + int k\<rparr>"
    have stop: "read_out_loop k k ns t p = Some (Inr (k, ns, t, p))" for ns t p
      by (simp add: read_out_loop.simps)
    have "read_out_loop k 0 nodes (replicate k NUL) m1 =
        (if k = length (node_data m n)
         then case recycle_cache (node_cache n) m1 of Inl e \<Rightarrow> Some (Inl e)
              | Inr (_, m2) \<Rightarrow> Some (Inr (k, rest, splice_at 0 (take k (node_data m n)) (replicate k NUL), m2))
         else Some (Inr (k, ?n # rest, splice_at 0 (take k (node_data m n)) (replicate k NUL), m1)))"
      unfolding nodes using drain_read[OF b2 k'(1)] hn(2,6) k'(2) k64(1) k0 kn c1
      by (subst read_out_loop.simps)
        (simp add: stop to_int_small to_size_of_nat add_size_small Let_def min_def split: sum.splits)
    then consider (all) w where "k = length (node_data m n)" "recycle_cache (node_cache n) m1 = Inr (w, m')" "nodes' = rest"
      | (part) "k < length (node_data m n)" "nodes' = ?n # rest" "m' = m1"
      using m1(2) kn by (auto simp: returned_def split: if_splits sum.splits)
    then show ?thesis
    proof cases
      case all
      have h: "held_ok m1 (node_cache n # map node_cache rest @ others)" using b2 by (simp add: buffer_ok_def)
      have "chunks m' rest = chunks m1 rest" by (rule chunks_cong) (use bp.recycle[OF all(2) h] in auto)
      then show ?thesis using all k0 by (simp add: nodes cut_chunks_def chunks_def c1)
    next
      case part
      then have lt: "int k < NODE_SIZE n" using hn(1) by (simp add: c1)
      have "node_data m1 ?n = drop k (node_data m1 n)" by (rule drain_node_data[OF b2 lt])
      then show ?thesis using part k0 by (simp add: nodes cut_chunks_def chunks_def c1)
    qed
  qed
qed

lemma read_from_buffer_empty: "read_from_buffer m [] n = Inr (v, nodes', d, m') \<Longrightarrow> nodes' = []"
  by (auto simp: read_from_buffer_def bindr_Inr_iff read_out_loop.simps returned_def)

section \<open>write_from_buffer\<close>

text \<open>A socket that never answers with an error, however short its writes are.\<close>

definition no_write_fail :: "out_socket \<Rightarrow> bool" where
  "no_write_fail s \<longleftrightarrow> Write_fail \<notin> set (outcomes s)"

lemma sys_write_ok:
  assumes "no_write_fail s"
  obtains k s' where "sys_write d s = (int k, s')" "k \<le> length d" "sent s' = sent s @ take k d" "no_write_fail s'"
    "length (outcomes s') < length (outcomes s) \<or> k = length d \<and> length (outcomes s') = length (outcomes s)"
proof (cases "outcomes s")
  case Nil
  then show ?thesis using that[of "length d" "s\<lparr>sent := sent s @ d\<rparr>"] by (simp add: no_write_fail_def)
next
  case (Cons w ws)
  then obtain k where "w = Write_some k" using assms by (cases w) (auto simp: no_write_fail_def)
  then show ?thesis
    using that[of "length (take k d)" "s\<lparr>outcomes := ws, sent := sent s @ take k d\<rparr>"] Cons assms
    by (auto simp: no_write_fail_def min_def)
qed

definition drained :: "pool \<Rightarrow> nat list \<Rightarrow> buffer \<Rightarrow> out_socket \<Rightarrow> nat \<Rightarrow> pool \<Rightarrow> buffer \<Rightarrow> out_socket \<Rightarrow> bool" where
  "drained m others nodes s k m' nodes' s' \<longleftrightarrow> buffer_ok m' others nodes' \<and> contents m' nodes' = drop k (contents m nodes)
     \<and> sent s' = sent s @ take k (contents m nodes) \<and> no_write_fail s' \<and> pool_frame m m' (set others)"

lemma drained_trans:
  assumes "drained m1 others n1 s1 j m2 n2 s2" and "drained m2 others n2 s2 k m3 n3 s3"
  shows "drained m1 others n1 s1 (j + k) m3 n3 s3"
proof -
  have "drop k (drop j (contents m1 n1)) = drop (j + k) (contents m1 n1)" by (simp add: add.commute)
  moreover have "take (j + k) (contents m1 n1) = take j (contents m1 n1) @ take k (drop j (contents m1 n1))"
    by (rule take_add)
  moreover have "pool_frame m1 m3 (set others)"
    using assms pool_frame_trans[of m1 m2 "set others" m3] by (simp add: drained_def)
  ultimately show ?thesis using assms unfolding drained_def by simp
qed

lemma write_out_loop_ok:
  assumes "buffer_ok m others nodes" and "no_write_fail s" and "already \<le> sz" and "sz < 2 ^ 64"
  shows "\<exists>r. write_out_loop sz already nodes s m = Some r \<and> (\<forall>e. r = Inl e \<longrightarrow> \<not> plenty m)
    \<and> (\<forall>v ns s' m'. r = Inr (v, ns, s', m') \<longrightarrow>
        (\<exists>k. k = min (sz - already) (length (contents m nodes)) \<and> v = already + k \<and> drained m others nodes s k m' ns s'))"
  using assms
proof (induction "length (outcomes s) + length nodes + (sz - already)" arbitrary: already nodes s m rule: less_induct)
  case less
  show ?case
  proof (cases "already < sz \<and> nodes \<noteq> []")
    case False
    then have "write_out_loop sz already nodes s m = Some (Inr (already, nodes, s, m))"
      by (subst write_out_loop.simps) (auto split: list.splits)
    moreover have "drained m others nodes s 0 m nodes s" using less.prems by (simp add: drained_def)
    ultimately show ?thesis using False by auto
  next
    case True
    then obtain n rest where nodes: "nodes = n # rest" by (cases nodes) auto
    note b = less.prems(1)[unfolded nodes]
    note hn = head_node[OF b]
    define c where "c = min (length (node_data m n)) (sz - already)"
    have c: "int c \<le> NODE_SIZE n" "c \<le> sz - already" "c \<le> length (node_data m n)" using hn(1) by (auto simp: c_def)
    have lc: "length (take c (node_data m n)) = c" using c(3) by simp
    obtain k s1 where w: "sys_write (take c (node_data m n)) s = (int k, s1)" "k \<le> c"
      "sent s1 = sent s @ take k (take c (node_data m n))" "no_write_fail s1"
      "length (outcomes s1) < length (outcomes s) \<or> k = c \<and> length (outcomes s1) = length (outcomes s)"
      using sys_write_ok[OF less.prems(2), of "take c (node_data m n)"] unfolding lc by blast
    have w3: "sent s1 = sent s @ take k (node_data m n)" using w(2,3) by (simp add: min_def)
    have k: "k < 2 ^ 64" "already + k < 2 ^ 64" "already + k \<le> sz" "k \<le> length (node_data m n)" "k \<le> 512"
      using w(2) c True less.prems(4) hn(3) by auto
    let ?n = "n\<lparr>r_offset := r_offset n + int k\<rparr>"
    have off: "to_int (add_size (to_size (r_offset n)) k) = r_offset n + int k"
    proof -
      have "to_size (r_offset n) = nat (r_offset n)" using hn(4,5) by (simp add: to_size_def)
      moreover have "nat (r_offset n) + k < int_max" "nat (r_offset n) + k < 2 ^ 64"
        using hn(5) k(5) by (auto simp: int_max_def)
      ultimately show ?thesis using hn(4) by (simp add: add_size_small to_int_small)
    qed
    have step: "write_out_loop sz already nodes s m =
        (if k = length (node_data m n)
         then case recycle_cache (node_cache n) m of Inl e \<Rightarrow> Some (Inl e)
              | Inr (_, m1) \<Rightarrow> write_out_loop sz (already + k) rest s1 m1
         else write_out_loop sz (already + k) (?n # rest) s1 m)"
      unfolding nodes using True drain_read[OF b c(1)] hn(2,6) w(1) k off
      by (subst write_out_loop.simps)
        (simp add: c_def[symmetric] to_size_of_nat add_size_small Let_def split: sum.splits prod.splits)
    have tk: "take k (contents m nodes) = take k (node_data m n)" using k(4) by (simp add: nodes)
    show ?thesis
    proof (cases "k = length (node_data m n)")
      case False
      then have lt: "int k < NODE_SIZE n" using hn(1) k(4) by simp
      note dk = drain_keep[OF b lt]
      have d1: "drained m others nodes s k m (?n # rest) s1" using dk w3 w(4) tk by (simp add: drained_def nodes)
      have "k = c \<longrightarrow> 0 < k \<and> already < sz" using False True by (auto simp: c_def min_def split: if_splits)
      then have "length (outcomes s1) + length (?n # rest) + (sz - (already + k)) < length (outcomes s) + length nodes + (sz - already)"
        using w(5) k(3) by (auto simp: nodes)
      from less.hyps[OF this dk(1) w(4) k(3) less.prems(4)] obtain q where
        q: "write_out_loop sz (already + k) (?n # rest) s1 m = Some q" "\<forall>e. q = Inl e \<longrightarrow> \<not> plenty m"
        "\<forall>v ns s' m'. q = Inr (v, ns, s', m') \<longrightarrow> (\<exists>j. j = min (sz - (already + k)) (length (contents m (?n # rest)))
          \<and> v = already + k + j \<and> drained m others (?n # rest) s1 j m' ns s')" by blast
      have len: "k + min (sz - (already + k)) (length (contents m (?n # rest))) = min (sz - already) (length (contents m nodes))"
      proof -
        have "length (contents m (?n # rest)) = length (contents m nodes) - k" using dk(2) nodes by simp
        moreover have "k \<le> length (contents m nodes)" using k(4) by (simp add: nodes)
        ultimately show ?thesis using k(3) by linarith
      qed
      have "\<exists>i. i = min (sz - already) (length (contents m nodes)) \<and> v = already + i \<and> drained m others nodes s i m' ns s'"
        if "q = Inr (v, ns, s', m')" for v ns s' m'
        using q(3) that len drained_trans[OF d1] by (metis add.assoc)
      then show ?thesis using step False q(1,2) by auto
    next
      case eq: True
      then have step: "write_out_loop sz already nodes s m =
        (case recycle_cache (node_cache n) m of Inl e \<Rightarrow> Some (Inl e)
              | Inr (_, m1) \<Rightarrow> write_out_loop sz (already + k) rest s1 m1)" using step by simp
      show ?thesis
      proof (cases "recycle_cache (node_cache n) m")
        case (Inl e)
        then show ?thesis using step drain_total[OF b] by auto
      next
        case (Inr p)
        then obtain u m1 where r: "recycle_cache (node_cache n) m = Inr (u, m1)" by (cases p) auto
        note dd = drain_drop[OF b r]
        have d1: "drained m others nodes s k m1 rest s1" using dd w3 w(4) tk eq by (simp add: drained_def nodes)
        have "length (outcomes s1) + length rest + (sz - (already + k)) < length (outcomes s) + length nodes + (sz - already)"
          using w(5) k(3) by (auto simp: nodes)
        from less.hyps[OF this dd(1) w(4) k(3) less.prems(4)] obtain q where
          q: "write_out_loop sz (already + k) rest s1 m1 = Some q" "\<forall>e. q = Inl e \<longrightarrow> \<not> plenty m1"
          "\<forall>v ns s' m'. q = Inr (v, ns, s', m') \<longrightarrow> (\<exists>j. j = min (sz - (already + k)) (length (contents m1 rest))
            \<and> v = already + k + j \<and> drained m1 others rest s1 j m' ns s')" by blast
        have len: "k + min (sz - (already + k)) (length (contents m1 rest)) = min (sz - already) (length (contents m nodes))"
        proof -
          have "length (contents m nodes) = k + length (contents m1 rest)" using dd(2) eq nodes by simp
          then show ?thesis using k(3) by linarith
        qed
        have "\<exists>i. i = min (sz - already) (length (contents m nodes)) \<and> v = already + i \<and> drained m others nodes s i m' ns s'"
          if "q = Inr (v, ns, s', m')" for v ns s' m'
          using q(3) that len drained_trans[OF d1] by (metis add.assoc)
        moreover have "write_out_loop sz already nodes s m = Some q" using step r q(1) by simp
        ultimately show ?thesis using q(2) dd(4) by blast
      qed
    qed
  qed
qed

lemma write_from_buffer_run:
  assumes b: "buffer_ok m others nodes" and s: "no_write_fail s" and sz: "sz < 2 ^ 64"
  shows "write_from_buffer m s nodes sz = Inl e \<Longrightarrow> \<not> plenty m"
    and "write_from_buffer m s nodes sz = Inr (v, nodes', s', m') \<Longrightarrow>
      v = min sz (length (contents m nodes)) \<and> drained m others nodes s v m' nodes' s'"
proof -
  obtain r where r: "write_out_loop sz 0 nodes s m = Some r" "\<forall>e. r = Inl e \<longrightarrow> \<not> plenty m"
    "\<forall>v ns s' m'. r = Inr (v, ns, s', m') \<longrightarrow>
        (\<exists>k. k = min (sz - 0) (length (contents m nodes)) \<and> v = 0 + k \<and> drained m others nodes s k m' ns s')"
    using write_out_loop_ok[OF b s le0 sz] by blast
  show "\<not> plenty m" if "write_from_buffer m s nodes sz = Inl e"
    using that r(1,2) by (auto simp: write_from_buffer_def returned_def split: if_splits)
  show "v = min sz (length (contents m nodes)) \<and> drained m others nodes s v m' nodes' s'"
    if "write_from_buffer m s nodes sz = Inr (v, nodes', s', m')"
    using that r(1,3) b s by (auto simp: write_from_buffer_def returned_def drained_def split: if_splits)
qed

text \<open>The first \<^verbatim>\<open>write\<close> of a call fails: the result looks like an error, and the read offset moves back.\<close>

lemma write_from_buffer_fail:
  assumes b: "buffer_ok m others (n # rest)" and s: "outcomes s = Write_fail # ws" and sz: "0 < sz" "sz < 2 ^ 64"
  shows "write_from_buffer m s (n # rest) sz
    = Inr (to_size (- 1), n\<lparr>r_offset := r_offset n - 1\<rparr> # rest, s\<lparr>outcomes := ws\<rparr>, m)"
proof -
  note hn = head_node[OF b]
  define c where "c = min (length (node_data m n)) sz"
  have c: "int c \<le> NODE_SIZE n" using hn(1) by (simp add: c_def)
  have off: "to_int (add_size (to_size (r_offset n)) 18446744073709551615) = r_offset n - 1"
  proof -
    have "to_size (r_offset n) = nat (r_offset n)" "int (nat (r_offset n)) = r_offset n" "nat (r_offset n) \<le> 512"
      using hn(4,5) by (simp_all add: to_size_def)
    then show ?thesis by (cases "nat (r_offset n)") (auto simp: add_size_def to_int_def)
  qed
  have ne: "r_offset n - 1 \<noteq> w_offset n" using hn(6) by simp
  have "add_size 0 18446744073709551615 = 18446744073709551615" by (simp add: add_size_def)
  then have "write_out_loop sz 0 (n # rest) s m
      = write_out_loop sz 18446744073709551615 (n\<lparr>r_offset := r_offset n - 1\<rparr> # rest) (s\<lparr>outcomes := ws\<rparr>) m"
    using sz(1) drain_read[OF b c] hn(2) s off ne
    by (subst write_out_loop.simps) (simp add: c_def Let_def)
  also have "\<dots> = Some (Inr (18446744073709551615, n\<lparr>r_offset := r_offset n - 1\<rparr> # rest, s\<lparr>outcomes := ws\<rparr>, m))"
    using sz(2) by (subst write_out_loop.simps) simp
  finally show ?thesis by (simp add: write_from_buffer_def returned_def)
qed

section \<open>buffer_size and destroy_buffer\<close>

lemma buffer_size_fold:
  "\<forall>x \<in> set nodes. node_ok m x \<Longrightarrow> k + length (contents m nodes) < 2 ^ 64
    \<Longrightarrow> fold (\<lambda>node n. add_size n (to_size (NODE_SIZE node))) nodes k = k + length (contents m nodes)"
proof (induction nodes arbitrary: k)
  case (Cons x nodes)
  have "to_size (NODE_SIZE x) = length (node_data m x)" using NODE_SIZE_ok[of m x] Cons.prems(1) by simp
  moreover have "k + length (node_data m x) < 2 ^ 64" using Cons.prems(2) by simp
  ultimately have "add_size k (to_size (NODE_SIZE x)) = k + length (node_data m x)" by (simp add: add_size_small)
  then show ?case using Cons.IH[of "k + length (node_data m x)"] Cons.prems by simp
qed simp

lemma buffer_size_contents:
  "buffer_ok m others nodes \<Longrightarrow> length (contents m nodes) < 2 ^ 64 \<Longrightarrow> buffer_size nodes = length (contents m nodes)"
  using buffer_size_fold[of nodes m 0] by (simp add: buffer_size_def buffer_ok_def nodes_ok_def)

lemma destroy_buffer_run:
  assumes b: "buffer_ok m others nodes"
  shows "destroy_buffer m nodes = Inl e \<Longrightarrow> \<not> plenty m"
    and "destroy_buffer m nodes = Inr (v, m') \<Longrightarrow> v = 0 \<and> held_ok m' others \<and> pool_frame m m' (set others)"
    and "destroy_buffer m nodes = Inr (v, m')
      \<Longrightarrow> set (free_ids (available_cache_node m')) = set (map node_cache nodes) \<union> set (free_ids (available_cache_node m))"
proof -
  have h: "held_ok m (rev (map node_cache nodes) @ others)"
    by (rule held_perm[OF buffer_ok_held[OF b]]) simp
  show "destroy_buffer m nodes = Inl e \<Longrightarrow> \<not> plenty m"
    using recycle_each_total[OF h] by (auto simp: destroy_buffer_def)
  show "destroy_buffer m nodes = Inr (v, m')
      \<Longrightarrow> set (free_ids (available_cache_node m')) = set (map node_cache nodes) \<union> set (free_ids (available_cache_node m))"
    using recycle_each_free[OF _ h] by (auto simp: destroy_buffer_def bindr_Inr_iff)
  assume "destroy_buffer m nodes = Inr (v, m')"
  then have r: "iter_res recycle_cache (rev (map node_cache nodes)) m = Inr m'" and "v = 0"
    by (auto simp: destroy_buffer_def bindr_Inr_iff)
  moreover have "pool_frame m m' (set others)"
    by (rule pool_frame_mono[OF recycle_each_frame[OF r h]]) (use held_distinct[OF h] in auto)
  ultimately show "v = 0 \<and> held_ok m' others \<and> pool_frame m m' (set others)"
    using bp.recycle_each[OF r h] by blast
qed

section \<open>find_in_buffer\<close>

text \<open>
  The search never goes past the node that holds the start position: the test on the answer
  of the index function is on an unsigned value. The answer "not found" is handed on.
\<close>

lemma find_in_buffer_one_node:
  "find_in_buffer m (n # rest) 0 index arg = find_in_buffer m [n] 0 index arg"
  by (simp add: find_in_buffer_def Let_def)

lemma find_in_buffer_first:
  assumes b: "buffer_ok m others (n # rest)"
    and f: "f (node_data m n @ drop (nat (w_offset n)) (block m (node_cache n)) @ slack m) (NODE_SIZE n) arg = Inr pos"
    and "pos < 2 ^ 64"
  shows "find_in_buffer m (n # rest) 0 (Some f) arg = Inr pos"
proof -
  note hn = head_node[OF b]
  have ok: "node_ok m n" "node_cache n < length (store m)"
    using b held_lt by (auto simp: buffer_ok_def nodes_ok_def)
  have w: "nat (w_offset n) = nat (r_offset n) + nat (NODE_SIZE n)" using hn by simp
  have "drop (nat (r_offset n)) (block m (node_cache n))
      = node_data m n @ drop (nat (w_offset n)) (block m (node_cache n))"
    unfolding node_data_def w by (metis append_take_drop_id drop_drop add.commute)
  then have "cache_pointer (node_cache n) (r_offset n) m
      = Inr (node_data m n @ drop (nat (w_offset n)) (block m (node_cache n)) @ slack m)"
    using ok hn(4,5) by (simp add: cache_pointer_def node_ok_def nat_le_iff)
  then show ?thesis using f assms(3) by (simp add: find_in_buffer_def add_size_def)
qed

lemma find_in_buffer_empty: "find_in_buffer m [] start index arg = Inr 0"
  by (simp add: find_in_buffer_def)

section \<open>The contract of a byte queue\<close>

text \<open>
  What the clients of a buffer rely on while memory lasts: bytes come out in the order in
  which they went in. \<open>ok m os q\<close> includes that the rest of the program holds \<open>os\<close>.
\<close>

locale byte_queue =
  fixes put :: "'m \<Rightarrow> 'q \<Rightarrow> string \<Rightarrow> ('q \<times> 'm) res"
    and take_out :: "'m \<Rightarrow> 'q \<Rightarrow> nat \<Rightarrow> (string \<times> 'q \<times> 'm) res"
    and ok :: "'m \<Rightarrow> 'o \<Rightarrow> 'q \<Rightarrow> bool"
    and content :: "'m \<Rightarrow> 'q \<Rightarrow> string"
    and limit :: nat
  assumes put: "ok m os q \<Longrightarrow> d \<noteq> [] \<Longrightarrow> length d < limit
      \<Longrightarrow> \<exists>q' m'. put m q d = Inr (q', m') \<and> ok m' os q' \<and> content m' q' = content m q @ d"
    and take_out: "ok m os q \<Longrightarrow> n < limit \<Longrightarrow> length (content m q) < limit
      \<Longrightarrow> \<exists>q' m'. take_out m q n = Inr (take n (content m q), q', m') \<and> ok m' os q'
            \<and> content m' q' = drop n (content m q)"
begin

text \<open>A series of puts, and a series of takes.\<close>

fun puts :: "string list \<Rightarrow> 'q \<times> 'm \<Rightarrow> ('q \<times> 'm) res" where
  "puts [] s = Inr s"
| "puts (d # ds) s = bindr (put (snd s) (fst s) d) (puts ds)"

fun takes :: "nat list \<Rightarrow> 'q \<times> 'm \<Rightarrow> (string list \<times> 'q \<times> 'm) res" where
  "takes [] s = Inr ([], s)"
| "takes (n # ns) s =
     bindr (take_out (snd s) (fst s) n) (\<lambda>(d, s'). bindr (takes ns s') (\<lambda>(ds, s''). Inr (d # ds, s'')))"

lemma puts_ok:
  "ok m os q \<Longrightarrow> \<forall>d \<in> set ds. d \<noteq> [] \<and> length d < limit
    \<Longrightarrow> \<exists>q' m'. puts ds (q, m) = Inr (q', m') \<and> ok m' os q' \<and> content m' q' = content m q @ concat ds"
proof (induction ds arbitrary: q m)
  case (Cons d ds)
  then obtain q1 m1 where "put m q d = Inr (q1, m1)" "ok m1 os q1" "content m1 q1 = content m q @ d"
    using put[of m os q d] by auto
  then show ?case using Cons.IH[of m1 q1] Cons.prems by auto
qed auto

lemma takes_ok:
  "ok m os q \<Longrightarrow> content m q = concat ds \<Longrightarrow> length (concat ds) < limit
    \<Longrightarrow> \<exists>q' m'. takes (map length ds) (q, m) = Inr (ds, q', m') \<and> ok m' os q' \<and> content m' q' = []"
proof (induction ds arbitrary: q m)
  case (Cons d ds)
  then obtain q1 m1 where "take_out m q (length d) = Inr (d, q1, m1)" "ok m1 os q1" "content m1 q1 = concat ds"
    using take_out[of m os q "length d"] by auto
  then show ?case using Cons.IH[of m1 q1] Cons.prems(3) by auto
qed auto

text \<open>First in, first out: what a series of puts stored, takes of the same sizes give back.\<close>

lemma first_in_first_out:
  assumes "ok m os q" and "content m q = []" and "\<forall>d \<in> set ds. d \<noteq> []" and "length (concat ds) < limit"
  shows "\<exists>s q' m'. puts ds (q, m) = Inr s \<and> takes (map length ds) s = Inr (ds, q', m')
    \<and> ok m' os q' \<and> content m' q' = []"
proof -
  have "\<forall>d \<in> set ds. length d < limit"
  proof
    fix d assume "d \<in> set ds"
    then have "length d \<le> length (concat ds)" by (induction ds) auto
    then show "length d < limit" using assms(4) by simp
  qed
  then obtain q1 m1 where 1: "puts ds (q, m) = Inr (q1, m1)" "ok m1 os q1" "content m1 q1 = concat ds"
    using puts_ok[OF assms(1), of ds] assms(2,3) by auto
  obtain q2 m2 where "takes (map length ds) (q1, m1) = Inr (ds, q2, m2)" "ok m2 os q2" "content m2 q2 = []"
    using takes_ok[OF 1(2,3) assms(4)] by blast
  with 1(1) show ?thesis by blast
qed

end

definition put_bytes :: "pool \<Rightarrow> buffer \<Rightarrow> string \<Rightarrow> (buffer \<times> pool) res" where
  "put_bytes m nodes d = bindr (write_into_buffer m nodes d (length d)) (\<lambda>(_, s). Inr s)"

definition take_bytes :: "pool \<Rightarrow> buffer \<Rightarrow> nat \<Rightarrow> (string \<times> buffer \<times> pool) res" where
  "take_bytes m nodes n = bindr (read_from_buffer m nodes n) (\<lambda>(_, nodes', d, m'). Inr (d, nodes', m'))"

definition queue_ok :: "pool \<Rightarrow> nat list \<Rightarrow> buffer \<Rightarrow> bool" where
  "queue_ok m others nodes \<longleftrightarrow> buffer_ok m others nodes \<and> plenty m"

lemma write_into_buffer_plenty:
  assumes b: "buffer_ok m others nodes" and pl: "plenty m" and sz: "0 < sz" "sz \<le> length src" "sz < int_max"
  shows "\<exists>nodes' m'. write_into_buffer m nodes src sz = Inr (sz, nodes', m') \<and> buffer_ok m' others nodes'
    \<and> contents m' nodes' = contents m nodes @ take sz src \<and> pool_frame m m' (set others) \<and> plenty m'"
proof (cases "write_into_buffer m nodes src sz")
  case (Inl e)
  then show ?thesis using write_into_buffer_Inl[OF b sz] pl by blast
next
  case (Inr p)
  then obtain v nodes' m' where r: "write_into_buffer m nodes src sz = Inr (v, nodes', m')" by (cases p) auto
  show ?thesis
    by (rule write_into_buffer_Inr[OF b sz r]) (use r pl pool_frame_env(2) in auto)
qed

lemma read_from_buffer_plenty:
  assumes b: "buffer_ok m others nodes" and pl: "plenty m" and sz: "sz < 2 ^ 64" and len: "length (contents m nodes) < 2 ^ 64"
  shows "\<exists>nodes' m'. read_from_buffer m nodes sz = Inr (min sz (length (contents m nodes)), nodes', take sz (contents m nodes), m')
    \<and> buffer_ok m' others nodes' \<and> contents m' nodes' = drop sz (contents m nodes) \<and> pool_frame m m' (set others) \<and> plenty m'"
proof (cases "read_from_buffer m nodes sz")
  case (Inl e)
  then show ?thesis using read_from_buffer_run(1)[OF b sz len] pl by blast
next
  case (Inr p)
  then obtain v nodes' d m' where r: "read_from_buffer m nodes sz = Inr (v, nodes', d, m')" by (cases p) auto
  show ?thesis using read_from_buffer_run(2)[OF b sz len r] r pl pool_frame_env(2) by auto
qed

interpretation bq: byte_queue put_bytes take_bytes queue_ok contents int_max
proof unfold_locales
  fix m os q and d :: string assume q: "queue_ok m os q" "d \<noteq> []" "length d < int_max"
  then obtain q' m' where "write_into_buffer m q d (length d) = Inr (length d, q', m')" "buffer_ok m' os q'"
    "contents m' q' = contents m q @ d" "plenty m'"
    using write_into_buffer_plenty[of m os q "length d" d] by (auto simp: queue_ok_def)
  then show "\<exists>q' m'. put_bytes m q d = Inr (q', m') \<and> queue_ok m' os q' \<and> contents m' q' = contents m q @ d"
    by (simp add: put_bytes_def queue_ok_def)
next
  fix m os q n assume q: "queue_ok m os q" "n < int_max" "length (contents m q) < int_max"
  then have "n < 2 ^ 64" "length (contents m q) < 2 ^ 64" by (auto simp: int_max_def)
  then obtain q' m' where "read_from_buffer m q n = Inr (min n (length (contents m q)), q', take n (contents m q), m')"
    "buffer_ok m' os q'" "contents m' q' = drop n (contents m q)" "plenty m'"
    using read_from_buffer_plenty[of m os q n] q(1) by (auto simp: queue_ok_def)
  then show "\<exists>q' m'. take_bytes m q n = Inr (take n (contents m q), q', m') \<and> queue_ok m' os q'
      \<and> contents m' q' = drop n (contents m q)"
    by (simp add: take_bytes_def queue_ok_def)
qed

section \<open>Several buffers side by side\<close>

text \<open>
  The buffers of a program and the other blocks \<open>held\<close>: no two share a block, so a call for
  one leaves the others as they were.
\<close>

definition blocks :: "buffer list \<Rightarrow> nat list" where
  "blocks bs = concat (map (map node_cache) bs)"

definition buffers_ok :: "pool \<Rightarrow> nat list \<Rightarrow> buffer list \<Rightarrow> bool" where
  "buffers_ok m held bs \<longleftrightarrow> held_ok m (blocks bs @ held) \<and> (\<forall>b \<in> set bs. nodes_ok m b)"

lemma blocks_simps [simp]: "blocks [] = []" "blocks (b # bs) = map node_cache b @ blocks bs"
  "blocks (as @ bs) = blocks as @ blocks bs"
  by (simp_all add: blocks_def)

lemma buffers_focus:
  assumes "buffers_ok m held (as @ b # cs)"
  shows "buffer_ok m (blocks as @ blocks cs @ held) b"
  unfolding buffer_ok_def
proof
  show "held_ok m (map node_cache b @ blocks as @ blocks cs @ held)"
    by (rule held_perm[of m "blocks (as @ b # cs) @ held"]) (use assms in \<open>auto simp: buffers_ok_def\<close>)
qed (use assms in \<open>simp add: buffers_ok_def\<close>)

lemma buffers_kept:
  assumes b: "buffers_ok m held (as @ b # cs)" and fr: "pool_frame m m' (set (blocks as @ blocks cs @ held))"
    and x: "x \<in> set as \<union> set cs"
  shows "contents m' x = contents m x" and "nodes_ok m' x" and "chunks m' x = chunks m x"
proof -
  have same: "block m' (node_cache n) = block m (node_cache n)" if "n \<in> set x" for n
  proof (rule frame_block[OF fr])
    show "node_cache n \<in> set (blocks as @ blocks cs @ held)" using x that by (auto simp: blocks_def)
    then show "node_cache n < length (store m)"
      using held_lt[OF buffer_ok_held[OF buffers_focus[OF b]]] by auto
  qed
  show "contents m' x = contents m x" by (rule contents_cong) (rule same)
  show "chunks m' x = chunks m x" by (rule chunks_cong) (rule same)
  show "nodes_ok m' x" using nodes_ok_cong[of x, OF same] b x by (auto simp: buffers_ok_def)
qed

lemma buffers_update:
  assumes b: "buffers_ok m held (as @ b # cs)" and b': "buffer_ok m' (blocks as @ blocks cs @ held) b'"
    and fr: "pool_frame m m' (set (blocks as @ blocks cs @ held))"
  shows "buffers_ok m' held (as @ b' # cs)"
  unfolding buffers_ok_def
proof
  show "held_ok m' (blocks (as @ b' # cs) @ held)"
    by (rule held_perm[OF buffer_ok_held[OF b']]) simp
  show "\<forall>x \<in> set (as @ b' # cs). nodes_ok m' x"
    using buffers_kept(2)[OF b fr] b' by (auto simp: buffer_ok_def)
qed

end
