(* ===== verification/Message.thy ===== *)
theory Message
  imports Prelude
begin

text \<open>
  \<^verbatim>\<open>entity/message.c\<close>: the messages that go from the server to its clients. The fields
  \<^verbatim>\<open>target\<close> and \<^verbatim>\<open>exclude\<close> are arrays of 30 bytes in a block that \<^verbatim>\<open>malloc\<close> left
  uninitialised: \<open>None\<close> until a \<^verbatim>\<open>strcpy\<close> fills them, then the string they hold. A
  message is only ever in the hands of the function that made it or of its caller, so it is a
  value and not a cell of a heap. The strings that arrive as pointers are regions of memory
  (see Prelude); a function that stores through such a pointer is also given the number of
  bytes the block has from there.
\<close>

section \<open>Data\<close>

definition CLIENT_NAME_MAXIMUM_SIZE :: nat where
  "CLIENT_NAME_MAXIMUM_SIZE = 30"

definition CMD_LOGIN :: string where "CMD_LOGIN = ''LOGIN: ''"
definition CMD_TO_ALL :: string where "CMD_TO_ALL = ''TO-ALL:''"
definition CMD_TO_C :: string where "CMD_TO_C = ''TO-C-''"
definition MSG_PREFIX_INDICATOR :: string where "MSG_PREFIX_INDICATOR = '':''"
definition MSG_SYS_PREFIX :: string where "MSG_SYS_PREFIX = ''FROM SYSTEM:''"
definition MSG_PEER_PREFIX :: string where "MSG_PEER_PREFIX = ''FROM''"
definition MSG_LOGIN_SUFFIX :: string where "MSG_LOGIN_SUFFIX = ''is online now''"
definition MSG_LOGOUT_SUFFIX :: string where "MSG_LOGOUT_SUFFIX = ''has logged out''"
definition UNKNOWN_CLIENT :: string where "UNKNOWN_CLIENT = ''unknown''"

declare CMD_LOGIN_def [wire] CMD_TO_ALL_def [wire] CMD_TO_C_def [wire] MSG_PREFIX_INDICATOR_def [wire]

abbreviation MSG_EDGE_INDICATOR :: char where
  "MSG_EDGE_INDICATOR \<equiv> LF"

record msg =
  target :: "string option"
  exclude :: "string option"
  msg_size :: size_t
  content :: string

text \<open>The string in a name field, and \<^verbatim>\<open>strcpy\<close> of a string into one.\<close>

definition name_field :: "string option \<Rightarrow> string res" where
  "name_field f = (case f of None \<Rightarrow> Inl Uninitialised | Some s \<Rightarrow> Inr s)"

definition strcpy_name :: "string \<Rightarrow> string res" where
  "strcpy_name s = (if length s < CLIENT_NAME_MAXIMUM_SIZE then Inr s else Inl Out_of_bounds)"

section \<open>Operations\<close>

definition is_msg_to_all :: "msg \<Rightarrow> int res" where
  "is_msg_to_all m = bindr (name_field (target m)) (\<lambda>t. Inr (c_strcmp t CMD_TO_ALL))"

definition filter_out :: "msg \<Rightarrow> string \<Rightarrow> int res" where
  "filter_out m name = bindr (name_field (exclude m)) (\<lambda>e.
     Inr (if 0 = c_strcmp e name \<or> 0 = c_strcmp name UNKNOWN_CLIENT then 0 else - 1))"

definition is_target :: "msg \<Rightarrow> string \<Rightarrow> int res" where
  "is_target m name = bindr (name_field (target m)) (\<lambda>t. Inr (c_strcmp t name))"

definition create_new_msg :: "size_t \<Rightarrow> 'a sys_scheme \<Rightarrow> msg option \<times> 'a sys_scheme" where
  "create_new_msg sz s =
     (case malloc s of
        (False, s1) \<Rightarrow> (None, s1)
      | (True, s1) \<Rightarrow>
          (case malloc s1 of
             (False, s2) \<Rightarrow> (None, s2)
           | (True, s2) \<Rightarrow>
               (Some \<lparr>target = None, exclude = None, msg_size = sz, content = replicate sz NUL\<rparr>, s2)))"

text \<open>
  The start of both constructors: the first newline of the string at a pointer, when there is
  one, is overwritten by a NUL. \<open>w\<close> is how many bytes of the block lie behind the pointer.
\<close>

definition cut_line :: "string \<Rightarrow> nat \<Rightarrow> string res" where
  "cut_line p w = bindr (c_strchr MSG_EDGE_INDICATOR p) (\<lambda>r. case r of
       None \<Rightarrow> Inr p
     | Some k \<Rightarrow> if k < w then Inr (p[k := NUL]) else Inl Out_of_bounds)"

definition create_p2p_msg_base_on_content ::
  "string \<Rightarrow> string option \<Rightarrow> string \<Rightarrow> nat \<Rightarrow> 'a sys_scheme \<Rightarrow> (msg option \<times> 'a sys_scheme) res" where
  "create_p2p_msg_base_on_content sender target_ptr s_content w s =
     bindr (cut_line s_content w) (\<lambda>p.
     bindr (c_str p) (\<lambda>body.
       let message_len = to_int (add_size (add_size (add_size (length MSG_PEER_PREFIX) (length sender)) (length body)) 5)
       in case create_new_msg (to_size message_len) s of
            (None, s1) \<Rightarrow> Inr (None, s1)
          | (Some m, s1) \<Rightarrow>
              bindr (c_sprintf (content m)
                (MSG_PEER_PREFIX @ '' '' @ sender @ MSG_PREFIX_INDICATOR @ '' '' @ body @ [LF])) (\<lambda>text.
              bindr (case target_ptr of
                       None \<Rightarrow> Inr (target m)
                     | Some t \<Rightarrow> bindr (c_str t) (\<lambda>t. bindr (strcpy_name t) (\<lambda>t. Inr (Some t)))) (\<lambda>tgt.
              bindr (strcpy_name sender) (\<lambda>ex.
              bindr (name_field tgt) (\<lambda>logged.
                Inr (Some \<lparr>target = tgt, exclude = Some ex, msg_size = sub_size (msg_size m) 1, content = text\<rparr>, s1)))))))"

definition create_sys_msg_base_on_content ::
  "string option \<Rightarrow> string \<Rightarrow> nat \<Rightarrow> 'a sys_scheme \<Rightarrow> (msg option \<times> 'a sys_scheme) res" where
  "create_sys_msg_base_on_content target_ptr s_content w s =
     bindr (cut_line s_content w) (\<lambda>p.
     bindr (c_str p) (\<lambda>body.
       let msg_len = to_int (add_size (add_size (length MSG_SYS_PREFIX) (length body)) 3)
       in case create_new_msg (to_size msg_len) s of
            (None, s1) \<Rightarrow> Inr (None, s1)
          | (Some m, s1) \<Rightarrow>
              bindr (c_sprintf (content m) (MSG_SYS_PREFIX @ '' '' @ body @ [LF])) (\<lambda>text.
              bindr (case target_ptr of
                       None \<Rightarrow> Inr (target m)
                     | Some t \<Rightarrow> bindr (c_str t) (\<lambda>t. bindr (strcpy_name t) (\<lambda>t. Inr (Some t)))) (\<lambda>tgt.
              bindr (name_field tgt) (\<lambda>logged.
                Inr (Some (m\<lparr>target := tgt, msg_size := sub_size (msg_size m) 1, content := text\<rparr>), s1))))))"

section \<open>What the constructors make\<close>

text \<open>The line that goes to the clients, without the NUL behind it.\<close>

definition p2p_text :: "string \<Rightarrow> string \<Rightarrow> string" where
  "p2p_text sender body = ''FROM '' @ sender @ '': '' @ body @ [LF]"

definition sys_text :: "string \<Rightarrow> string" where
  "sys_text body = ''FROM SYSTEM: '' @ body @ [LF]"

text \<open>A string that can travel in one line.\<close>

definition line_text :: "string \<Rightarrow> bool" where
  "line_text s \<longleftrightarrow> NUL \<notin> set s \<and> LF \<notin> set s"

definition name_text :: "string \<Rightarrow> bool" where
  "name_text s \<longleftrightarrow> NUL \<notin> set s \<and> length s < CLIENT_NAME_MAXIMUM_SIZE"

lemma cut_line_LF:
  assumes "line_text body" and "length body < w"
  shows "cut_line (body @ LF # rest) w = Inr (body @ NUL # rest)"
  using assms c_strchr_hit[of LF body rest] by (simp add: cut_line_def line_text_def)

lemma cut_line_NUL:
  assumes "line_text body"
  shows "cut_line (body @ NUL # rest) w = Inr (body @ NUL # rest)"
  using assms c_strchr_miss[of LF body rest] by (simp add: cut_line_def line_text_def)

lemma create_new_msg_cases:
  "\<exists>ms. set ms \<subseteq> set (mallocs s) \<and> (create_new_msg n s = (None, s\<lparr>mallocs := ms\<rparr>) \<and> \<not> plenty s
     \<or> create_new_msg n s = (Some \<lparr>target = None, exclude = None, msg_size = n, content = replicate n NUL\<rparr>, s\<lparr>mallocs := ms\<rparr>))"
proof (cases "mallocs s")
  case Nil
  then have "create_new_msg n s = (Some \<lparr>target = None, exclude = None, msg_size = n, content = replicate n NUL\<rparr>, s\<lparr>mallocs := []\<rparr>)"
    by (simp add: create_new_msg_def malloc_def)
  then show ?thesis by (intro exI[of _ "[]"]) simp
next
  case (Cons b bs)
  show ?thesis
  proof (cases bs)
    case Nil
    then show ?thesis using Cons by (cases b) (auto simp: create_new_msg_def malloc_def plenty_def intro!: exI[of _ "[]"])
  next
    case (Cons b' bs')
    with \<open>mallocs s = b # bs\<close> show ?thesis
      by (cases b; cases b') (auto simp: create_new_msg_def malloc_def plenty_def intro: exI[of _ bs'] exI[of _ bs])
  qed
qed

lemma msg_len_p2p:
  assumes "length a + length b + 9 < int_max"
  shows "to_size (to_int (add_size (add_size (add_size (length MSG_PEER_PREFIX) (length a)) (length b)) 5)) = length (p2p_text a b) + 1"
    and "sub_size (length (p2p_text a b) + 1) 1 = length (p2p_text a b)"
  using assms by (simp_all add: MSG_PEER_PREFIX_def p2p_text_def add_size_small int_max_def to_int_def to_size_def sub_size_def)

lemma msg_len_sys:
  assumes "length b + 15 < int_max"
  shows "to_size (to_int (add_size (add_size (length MSG_SYS_PREFIX) (length b)) 3)) = length (sys_text b) + 1"
    and "sub_size (length (sys_text b) + 1) 1 = length (sys_text b)"
  using assms by (simp_all add: MSG_SYS_PREFIX_def sys_text_def add_size_small int_max_def to_int_def to_size_def sub_size_def)

text \<open>What can come out of a constructor, apart from the environment it leaves.\<close>

definition made :: "'a sys_scheme \<Rightarrow> msg \<Rightarrow> (msg option \<times> 'a sys_scheme) res \<Rightarrow> bool" where
  "made s m r \<longleftrightarrow> (\<exists>ms. set ms \<subseteq> set (mallocs s)
     \<and> (r = Inr (Some m, s\<lparr>mallocs := ms\<rparr>) \<or> \<not> plenty s \<and> r = Inr (None, s\<lparr>mallocs := ms\<rparr>)))"

lemma create_p2p_eq:
  assumes "cut_line s_content w = Inr p" and "c_str p = Inr body" and "c_str t = Inr tgt"
    and "length sender < 30" and "length body + 39 < int_max"
  shows "create_p2p_msg_base_on_content sender (Some t) s_content w s =
    (case create_new_msg (length (p2p_text sender body) + 1) s of
       (None, s1) \<Rightarrow> Inr (None, s1)
     | (Some m, s1) \<Rightarrow>
         bindr (c_sprintf (content m) (p2p_text sender body)) (\<lambda>txt.
         bindr (strcpy_name tgt) (\<lambda>tgt.
           Inr (Some \<lparr>target = Some tgt, exclude = Some sender, msg_size = sub_size (msg_size m) 1, content = txt\<rparr>, s1))))"
proof -
  have "length sender + length body + 9 < int_max" using assms(4,5) by simp
  note len = msg_len_p2p[OF this]
  have tx: "MSG_PEER_PREFIX @ '' '' @ sender @ MSG_PREFIX_INDICATOR @ '' '' @ body @ [LF] = p2p_text sender body"
    by (simp add: MSG_PEER_PREFIX_def MSG_PREFIX_INDICATOR_def p2p_text_def)
  have "strcpy_name sender = Inr sender" using assms(4) by (simp add: strcpy_name_def CLIENT_NAME_MAXIMUM_SIZE_def)
  then show ?thesis
    unfolding create_p2p_msg_base_on_content_def assms(1-3) bindr_Inr Let_def len(1) option.case
    by (simp add: tx[simplified] bindr_assoc name_field_def split: option.splits prod.splits)
qed

lemma create_sys_eq:
  assumes "cut_line s_content w = Inr p" and "c_str p = Inr body" and "c_str t = Inr tgt"
    and "length body + 15 < int_max"
  shows "create_sys_msg_base_on_content (Some t) s_content w s =
    (case create_new_msg (length (sys_text body) + 1) s of
       (None, s1) \<Rightarrow> Inr (None, s1)
     | (Some m, s1) \<Rightarrow>
         bindr (c_sprintf (content m) (sys_text body)) (\<lambda>txt.
         bindr (strcpy_name tgt) (\<lambda>tgt.
           Inr (Some (m\<lparr>target := Some tgt, msg_size := sub_size (msg_size m) 1, content := txt\<rparr>), s1))))"
proof -
  note len = msg_len_sys[OF assms(4)]
  have tx: "MSG_SYS_PREFIX @ '' '' @ body @ [LF] = sys_text body"
    by (simp add: MSG_SYS_PREFIX_def sys_text_def)
  show ?thesis
    unfolding create_sys_msg_base_on_content_def assms(1-3) bindr_Inr Let_def len(1) option.case
    by (simp add: tx[simplified] bindr_assoc name_field_def split: option.splits prod.splits)
qed

lemma c_sprintf_text: "c_sprintf (replicate (Suc (length t)) NUL) t = Inr (t @ [NUL])"
  by (rule c_sprintf_exact) simp

lemma create_p2p_made:
  assumes "cut_line s_content w = Inr p" and "c_str p = Inr body" and "c_str t = Inr tgt"
    and "length tgt < 30" and "length sender < 30" and "length body + 39 < int_max"
  shows "made s \<lparr>target = Some tgt, exclude = Some sender, msg_size = length (p2p_text sender body),
      content = p2p_text sender body @ [NUL]\<rparr> (create_p2p_msg_base_on_content sender (Some t) s_content w s)"
proof -
  have "length sender + length body + 9 < int_max" using assms(5,6) by simp
  note len = msg_len_p2p[OF this]
  show ?thesis
    using create_new_msg_cases[of s "length (p2p_text sender body) + 1"] assms(4)
    unfolding create_p2p_eq[OF assms(1-3,5,6)] made_def
    by (auto simp: c_sprintf_text len(2)[simplified] strcpy_name_def CLIENT_NAME_MAXIMUM_SIZE_def simp del: replicate_Suc)
qed

lemma create_sys_made:
  assumes "cut_line s_content w = Inr p" and "c_str p = Inr body" and "c_str t = Inr tgt"
    and "length tgt < 30" and "length body + 15 < int_max"
  shows "made s \<lparr>target = Some tgt, exclude = None, msg_size = length (sys_text body),
      content = sys_text body @ [NUL]\<rparr> (create_sys_msg_base_on_content (Some t) s_content w s)"
  using create_new_msg_cases[of s "length (sys_text body) + 1"] assms(4)
  unfolding create_sys_eq[OF assms(1-3,5)] made_def
  by (auto simp: c_sprintf_text msg_len_sys(2)[OF assms(5), simplified] strcpy_name_def
      CLIENT_NAME_MAXIMUM_SIZE_def simp del: replicate_Suc)

text \<open>A target of 30 or more bytes does not fit its field.\<close>

lemma create_p2p_overflow:
  assumes "cut_line s_content w = Inr p" and "c_str p = Inr body" and "c_str t = Inr tgt"
    and "30 \<le> length tgt" and "length sender < 30" and "length body + 39 < int_max" and "plenty s"
  shows "create_p2p_msg_base_on_content sender (Some t) s_content w s = Inl Out_of_bounds"
  using create_new_msg_cases[of s "length (p2p_text sender body) + 1"] assms(4,7)
  unfolding create_p2p_eq[OF assms(1-3,5,6)]
  by (auto simp: c_sprintf_text strcpy_name_def CLIENT_NAME_MAXIMUM_SIZE_def simp del: replicate_Suc)

end
