(* ===== verification/NetUtil.thy ===== *)
theory NetUtil
  imports Prelude
begin

text \<open>
  \<^verbatim>\<open>net_util.c\<close>: addresses and ports. \<^verbatim>\<open>inet_ntop\<close> and \<^verbatim>\<open>inet_pton\<close>, whose code
  is in the C library's resolver part, are parameters: the address family, the address (or its
  text) and, for \<^verbatim>\<open>inet_ntop\<close>, the size of the destination; \<open>None\<close> is failure. What
  \<^verbatim>\<open>getpeername\<close> and \<^verbatim>\<open>getsockopt\<close> find out about a socket is an argument. A port in
  network byte order is represented by the number it stands for.
\<close>

section \<open>atoi\<close>

definition is_space :: "char \<Rightarrow> bool" where
  "is_space c \<longleftrightarrow> c = CHR '' '' \<or> (9 \<le> (of_char c :: nat) \<and> (of_char c :: nat) \<le> 13)"

definition is_digit :: "char \<Rightarrow> bool" where
  "is_digit c \<longleftrightarrow> 48 \<le> (of_char c :: nat) \<and> (of_char c :: nat) \<le> 57"

fun digits_value :: "int \<Rightarrow> string \<Rightarrow> int" where
  "digits_value acc [] = acc"
| "digits_value acc (c # cs) = (if is_digit c then digits_value (10 * acc + (int (of_char c) - 48)) cs else acc)"

definition long_max :: int where
  "long_max = 2 ^ 63 - 1"

text \<open>\<^verbatim>\<open>atoi\<close> is \<^verbatim>\<open>strtol\<close> (which saturates) cut to 32 bits.\<close>

definition c_atoi :: "string \<Rightarrow> int" where
  "c_atoi s =
     (let t = dropWhile is_space s;
          v = (case t of
                 [] \<Rightarrow> 0
               | c # cs \<Rightarrow> if c = CHR ''-'' then - digits_value 0 cs
                           else if c = CHR ''+'' then digits_value 0 cs else digits_value 0 t);
          l = max (- long_max - 1) (min long_max v)
      in (l + 2 ^ 31) mod 2 ^ 32 - 2 ^ 31)"

section \<open>get_addr_and_port\<close>

abbreviation AF_INET :: nat where "AF_INET \<equiv> 2"
abbreviation AF_INET6 :: nat where "AF_INET6 \<equiv> 10"
abbreviation sizeof_IPv4 :: nat where "sizeof_IPv4 \<equiv> 16"
abbreviation sizeof_IPv6 :: nat where "sizeof_IPv6 \<equiv> 28"

datatype peer = Peer_error | Peer4 string nat | Peer6 string nat | Peer_other

text \<open>
  The answer: the return value, \<^verbatim>\<open>*addr\<close>, and what is stored in \<^verbatim>\<open>*port\<close> if anything
  is. \<^verbatim>\<open>getpeername\<close> fails on a null buffer, \<^verbatim>\<open>inet_ntop\<close> faults on one.
\<close>

definition peer_text :: "bool \<Rightarrow> string option \<Rightarrow> nat \<Rightarrow> (int \<times> string option \<times> int option) res" where
  "peer_text has_addr r uport =
     (if \<not> has_addr then Inl Null_deref
      else case r of None \<Rightarrow> Inr (0, None, None) | Some t \<Rightarrow> Inr (0, Some t, Some (int uport)))"

definition get_addr_and_port ::
  "(nat \<Rightarrow> string \<Rightarrow> nat \<Rightarrow> string option) \<Rightarrow> peer \<Rightarrow> 'a sys_scheme
    \<Rightarrow> ((int \<times> string option \<times> int option) \<times> 'a sys_scheme) res" where
  "get_addr_and_port inet_ntop peer s =
     (case malloc s of (has_addr, s1) \<Rightarrow>
      case malloc s1 of (has_info, s2) \<Rightarrow>
        bindr
          (if \<not> has_info then Inr (- 1, None, None)
           else case peer of
                  Peer_error \<Rightarrow> Inr (- 1, None, None)
                | Peer6 a p \<Rightarrow> peer_text has_addr (inet_ntop AF_INET6 a sizeof_IPv6) p
                | Peer4 a p \<Rightarrow> peer_text has_addr (inet_ntop AF_INET a sizeof_IPv4) p
                | Peer_other \<Rightarrow> Inr (- 1, None, None))
          (\<lambda>r. Inr (r, s2)))"

section \<open>get_addr_info_from_ip_and_port\<close>

record sockaddr =
  sa_family :: nat
  sin_port :: nat
  sin_addr :: string

definition ANY_HOST :: string where
  "ANY_HOST = ''*''"

definition INADDR_ANY :: string where
  "INADDR_ANY = [NUL, NUL, NUL, NUL]"

definition htons :: "int \<Rightarrow> nat" where
  "htons p = nat (p mod 2 ^ 16)"

definition get_addr_info_from_ip_and_port ::
  "(nat \<Rightarrow> string \<Rightarrow> string option) \<Rightarrow> string \<Rightarrow> string \<Rightarrow> 'a sys_scheme
    \<Rightarrow> ((int \<times> (sockaddr \<times> nat) option) \<times> 'a sys_scheme) res" where
  "get_addr_info_from_ip_and_port inet_pton ip port s =
     (let porti = c_atoi port in
      if porti \<le> 0 then Inr ((- 1, None), s)
      else if ip = ANY_HOST \<or> inet_pton AF_INET ip \<noteq> None then
        bindr (malloc_unchecked s) (\<lambda>s1.
          Inr ((0, Some (\<lparr>sa_family = AF_INET, sin_port = htons porti,
                 sin_addr = (if ip = ANY_HOST then INADDR_ANY else the (inet_pton AF_INET ip))\<rparr>, sizeof_IPv4)), s1))
      else (case inet_pton AF_INET6 ip of
              Some a \<Rightarrow>
                bindr (malloc_unchecked s) (\<lambda>s1.
                  Inr ((0, Some (\<lparr>sa_family = AF_INET6, sin_port = htons porti, sin_addr = a\<rparr>, sizeof_IPv6)), s1))
            | None \<Rightarrow> Inr ((- 1, None), s)))"

definition is_socket_valid :: "int \<Rightarrow> int \<Rightarrow> int" where
  "is_socket_valid getsockopt_ret error = (if getsockopt_ret = 0 \<and> 0 = error then 0 else - 1)"

section \<open>Decimal ports\<close>

text \<open>The text of a number in decimal, and \<^verbatim>\<open>atoi\<close> as its inverse.\<close>

fun decimal :: "nat \<Rightarrow> string" where
  "decimal n = (if n < 10 then [char_of (48 + n)] else decimal (n div 10) @ [char_of (48 + n mod 10)])"

declare decimal.simps [simp del]

lemma digit_char: "k < 10 \<Longrightarrow> is_digit (char_of (48 + k)) \<and> int (of_char (char_of (48 + k) :: char)) - 48 = int k"
  by (simp add: is_digit_def)

lemma digits_value_append:
  "\<forall>c \<in> set s. is_digit c \<Longrightarrow> digits_value a (s @ t) = digits_value (digits_value a s) t"
  by (induction s arbitrary: a) auto

lemma decimal_digits: "(\<forall>c \<in> set (decimal n). is_digit c) \<and> decimal n \<noteq> [] \<and> digits_value 0 (decimal n) = int n"
proof (induction n rule: decimal.induct)
  case (1 n)
  show ?case
  proof (cases "n < 10")
    case True
    then show ?thesis using digit_char[of n] by (simp add: decimal.simps[of n])
  next
    case False
    have "n mod 10 < 10" by simp
    note d = digit_char[OF this]
    have "digits_value 0 (decimal n) = 10 * int (n div 10) + int (n mod 10)"
      using False 1 d by (simp add: decimal.simps[of n] digits_value_append)
    also have "\<dots> = int n" by presburger
    finally show ?thesis using False 1 d by (simp add: decimal.simps[of n])
  qed
qed

lemma c_atoi_decimal:
  assumes "n < 2 ^ 31"
  shows "c_atoi (decimal n) = int n"
proof -
  obtain c cs where d: "decimal n = c # cs" using decimal_digits[of n] by (cases "decimal n") auto
  then have "is_digit c" using decimal_digits[of n] by auto
  then have "\<not> is_space c" "c \<noteq> CHR ''-''" "c \<noteq> CHR ''+''" by (auto simp: is_digit_def is_space_def)
  moreover have "digits_value 0 (c # cs) = int n" using decimal_digits[of n] unfolding d by blast
  ultimately show ?thesis
    using assms by (simp add: c_atoi_def d Let_def long_max_def del: digits_value.simps)
qed

text \<open>A port in range arrives as it is; a bigger one loses its upper bits.\<close>

lemma get_addr_info_port:
  assumes "0 < n" and "n < 2 ^ 31" and "ip = ANY_HOST \<or> inet_pton AF_INET ip \<noteq> None" and "plenty s"
  shows "\<exists>a ms. get_addr_info_from_ip_and_port inet_pton ip (decimal n) s
    = Inr ((0, Some (\<lparr>sa_family = AF_INET, sin_port = n mod 65536, sin_addr = a\<rparr>, 16)), s\<lparr>mallocs := ms\<rparr>)
    \<and> (\<forall>b \<in> set ms. b)"
proof -
  obtain ms where "malloc_unchecked s = Inr (s\<lparr>mallocs := ms\<rparr>)" "\<forall>b \<in> set ms. b"
    using malloc_plenty[OF assms(4)] by (auto simp: malloc_unchecked_def)
  moreover have "htons (int n) = n mod 65536" by (simp add: htons_def nat_mod_distrib)
  ultimately show ?thesis
    using assms(1,3) unfolding get_addr_info_from_ip_and_port_def c_atoi_decimal[OF assms(2)] Let_def by auto
qed

end
