(* ===== verification/ClientInfo.thy ===== *)
theory ClientInfo
  imports Buffer Message NetUtil
begin

text \<open>
  \<^verbatim>\<open>entity/client_info.c\<close>: a connected socket with its name and its two byte queues. The
  record is \<^verbatim>\<open>ClientData\<close> with the \<^verbatim>\<open>ClientInfo\<close> inside it (\<^verbatim>\<open>_convert_client_info\<close>
  goes from one to the other and is the identity here). \<open>name\<close> is the string in the array
  \<^verbatim>\<open>name\<close>; \<^verbatim>\<open>login_time\<close>, \<^verbatim>\<open>priv\<close> and the unused \<^verbatim>\<open>reading_lock\<close> are left out. A
  function that takes a \<^verbatim>\<open>PClientInfo\<close> takes the record and returns it updated; theory
  Server keeps the records in a heap.
\<close>

section \<open>Data\<close>

record client =
  socket_id :: int
  peer_ip :: "string option"
  peer_port :: int
  name :: string
  client_type :: int
  pub :: size_t
  reading_buffer :: buffer
  writing_buffer :: buffer
  writing_lock :: bool
  last_check_cmd_index :: size_t

definition C_TYPE_C :: int where "C_TYPE_C = 1"
definition C_TYPE_S :: int where "C_TYPE_S = 2"

section \<open>Operations\<close>

definition update_client_name :: "client \<Rightarrow> string option \<Rightarrow> client res" where
  "update_client_name info name_ptr =
     (case name_ptr of
        None \<Rightarrow> Inr (info\<lparr>name := ''Unknown''\<rparr>)
      | Some p \<Rightarrow> bindr (c_str p) (\<lambda>s.
          let name_length = to_int (min (length s) (CLIENT_NAME_MAXIMUM_SIZE - 1))
          in Inr (info\<lparr>name := take (nat name_length) s\<rparr>)))"

text \<open>
  \<open>spin_inits\<close> are the results of the two \<^verbatim>\<open>pthread_spin_init\<close>. The error path frees the
  block and then reads its field \<^verbatim>\<open>peer_info.ip\<close>.
\<close>

definition new_client_info ::
  "(nat \<Rightarrow> string \<Rightarrow> nat \<Rightarrow> string option) \<Rightarrow> peer \<Rightarrow> int \<times> int \<Rightarrow> int \<Rightarrow> string option \<Rightarrow> int \<Rightarrow> pool
    \<Rightarrow> (client option \<times> pool) res" where
  "new_client_info inet_ntop peer spin_inits socket client_name type m =
     (case malloc m of
        (False, m1) \<Rightarrow> Inr (None, m1)
      | (True, m1) \<Rightarrow>
          let data0 = \<lparr>socket_id = 0, peer_ip = None, peer_port = 0, name = [], client_type = 0, pub = 0,
                reading_buffer = [], writing_buffer = [], writing_lock = False, last_check_cmd_index = 0\<rparr>
          in bindr (if type = C_TYPE_C
                    then bindr (get_addr_and_port inet_ntop peer m1) (\<lambda>((ret, ip, port), m2).
                      Inr (if ret \<noteq> 0 then data0\<lparr>peer_ip := None, peer_port := - 1\<rparr>
                           else data0\<lparr>peer_ip := ip, peer_port := (case port of None \<Rightarrow> 0 | Some p \<Rightarrow> p)\<rparr>, m2))
                    else Inr (data0, m1)) (\<lambda>(data1, m2).
             bindr (update_client_name data1 client_name) (\<lambda>data2.
             case create_new_buffer m2 of
               (None, m3) \<Rightarrow> Inl Use_after_free
             | (Some rb, m3) \<Rightarrow>
                 (case create_new_buffer m3 of
                    (None, m4) \<Rightarrow> Inl Use_after_free
                  | (Some wb, m4) \<Rightarrow>
                      if fst spin_inits \<noteq> 0 \<or> snd spin_inits \<noteq> 0 then Inl Use_after_free
                      else Inr (Some (data2\<lparr>client_type := type, socket_id := socket,
                        reading_buffer := rb, writing_buffer := wb\<rparr>), m4)))))"

text \<open>\<open>byte_available\<close> is what \<^verbatim>\<open>ioctl(FIONREAD)\<close> answers, \<open>None\<close> when it fails.\<close>

definition fetch_from_client ::
  "int option \<Rightarrow> read_result list \<Rightarrow> client \<Rightarrow> pool \<Rightarrow> (size_t \<times> client \<times> read_result list \<times> pool) res" where
  "fetch_from_client byte_available inp info m =
     (case byte_available of
        None \<Rightarrow> Inr (to_size (- 1), info, inp, m)
      | Some n \<Rightarrow> bindr (read_into_buffer m inp (reading_buffer info) (to_size n)) (\<lambda>(ret, rb, inp1, m1).
          Inr (ret, info\<lparr>reading_buffer := rb\<rparr>, inp1, m1)))"

definition check_command_suffix :: index_fun where
  "check_command_suffix ptr sz suffix =
     bindr (c_strchr suffix ptr) (\<lambda>t. case t of
       None \<Rightarrow> Inr (to_size (- 1))
     | Some k \<Rightarrow> if int k < sz then Inr k else Inr (to_size (- 1)))"

text \<open>The second component is \<^verbatim>\<open>*msg_buff\<close>, when it is assigned: a block of that many bytes.\<close>

definition fetch_msg_from_client :: "client \<Rightarrow> pool \<Rightarrow> (size_t \<times> string option \<times> client \<times> pool) res" where
  "fetch_msg_from_client info m =
     bindr (find_in_buffer m (reading_buffer info) (last_check_cmd_index info) (Some check_command_suffix) LF)
       (\<lambda>cmd_suffix_index.
         if int cmd_suffix_index < 0
         then Inr (to_size (- 1), None, info\<lparr>last_check_cmd_index := buffer_size (reading_buffer info)\<rparr>, m)
         else bindr (read_from_buffer m (reading_buffer info) (add_size cmd_suffix_index 1)) (\<lambda>(n, rb, msg, m1).
           let read_size = to_int n
           in Inr (to_size read_size, Some msg, info\<lparr>reading_buffer := rb, last_check_cmd_index := 0\<rparr>, m1)))"

definition send_msg_to_client :: "client \<Rightarrow> string \<Rightarrow> size_t \<Rightarrow> pool \<Rightarrow> (size_t \<times> client \<times> pool) res" where
  "send_msg_to_client info msg sz m =
     (if writing_lock info then Inl Deadlock
      else bindr (write_into_buffer m (writing_buffer info) msg sz) (\<lambda>(ret, wb, m1).
        Inr (ret, info\<lparr>writing_buffer := wb\<rparr>, m1)))"

definition flush_messages :: "client \<Rightarrow> out_socket \<Rightarrow> pool \<Rightarrow> (size_t \<times> client \<times> out_socket \<times> pool) res" where
  "flush_messages info sock m =
     (if writing_lock info then Inl Deadlock
      else
        let b_size = buffer_size (writing_buffer info)
        in if b_size > 0
           then bindr (write_from_buffer m sock (writing_buffer info) b_size) (\<lambda>(ret, wb, sock1, m1).
             Inr (ret, info\<lparr>writing_buffer := wb\<rparr>, sock1, m1))
           else Inr (0, info, sock, m))"

text \<open>The record is gone afterwards (its memory is freed); what remains is the pool.\<close>

definition release_client_info :: "client option \<Rightarrow> pool \<Rightarrow> (int \<times> pool) res" where
  "release_client_info info_ptr m =
     (case info_ptr of
        None \<Rightarrow> Inr (0, m)
      | Some info \<Rightarrow>
          bindr (destroy_buffer m (reading_buffer info)) (\<lambda>(_, m1).
          bindr (destroy_buffer m1 (writing_buffer info)) (\<lambda>(_, m2). Inr (0, m2))))"

definition is_client_connected :: "int \<Rightarrow> int \<Rightarrow> int" where
  "is_client_connected getsockopt_ret error = is_socket_valid getsockopt_ret error"

section \<open>Names\<close>

lemma update_client_name_Inr:
  assumes "update_client_name c (Some p) = Inr c'"
  shows "\<exists>s. c_str p = Inr s \<and> c' = c\<lparr>name := take 29 s\<rparr> \<and> name_text (name c')"
proof -
  obtain s where s: "c_str p = Inr s" using assms by (auto simp: update_client_name_def bindr_Inr_iff)
  have "to_int (min (length s) 29) = int (min (length s) 29)" by (rule to_int_small) (simp add: int_max_def)
  then have "c' = c\<lparr>name := take (min (length s) 29) s\<rparr>"
    using assms s by (simp add: update_client_name_def CLIENT_NAME_MAXIMUM_SIZE_def)
  moreover have "take (min (length s) 29) s = take 29 s" by (simp add: min_def)
  moreover have "NUL \<notin> set s" using c_str_prefix[OF s] by blast
  then have "NUL \<notin> set (take 29 s)" using in_set_takeD by fast
  ultimately show ?thesis using s by (simp add: name_text_def CLIENT_NAME_MAXIMUM_SIZE_def)
qed

section \<open>One message from the reading buffer\<close>

text \<open>
  The memory that the search for the end of the line sees: the bytes of the first node, what
  follows in its block, and what follows the block.
\<close>

definition behind_head :: "pool \<Rightarrow> inner_node \<Rightarrow> string" where
  "behind_head m n = drop (nat (w_offset n)) (block m (node_cache n)) @ slack m"

text \<open>How many bytes the next message has; 0 when there is none (yet).\<close>

definition next_msg_size :: "pool \<Rightarrow> buffer \<Rightarrow> nat res" where
  "next_msg_size m nodes =
     (case nodes of
        [] \<Rightarrow> Inr 0
      | n # rest \<Rightarrow> bindr (c_strchr LF (node_data m n @ behind_head m n)) (\<lambda>r. case r of
          Some k \<Rightarrow> Inr (if k < length (node_data m n) then Suc k else 0)
        | None \<Rightarrow> Inr 0))"

lemma next_msg_size_Cons:
  assumes "next_msg_size m (n # rest) = Inr k"
  obtains (hit) i where "c_strchr LF (node_data m n @ behind_head m n) = Inr (Some i)" "i < length (node_data m n)" "k = Suc i"
  | (miss) r where "c_strchr LF (node_data m n @ behind_head m n) = Inr r" "k = 0"
      "\<And>i. r = Some i \<Longrightarrow> length (node_data m n) \<le> i"
proof -
  obtain r where r: "c_strchr LF (node_data m n @ behind_head m n) = Inr r"
    "(case r of Some i \<Rightarrow> Inr (if i < length (node_data m n) then Suc i else 0) | None \<Rightarrow> Inr 0) = (Inr k :: nat res)"
    using assms unfolding next_msg_size_def list.case bindr_Inr_iff by blast
  show ?thesis
  proof (cases "\<exists>i. r = Some i \<and> i < length (node_data m n)")
    case True
    then show ?thesis using hit r by auto
  next
    case False
    then show ?thesis using miss[OF r(1)] r(2) by (auto simp: not_less split: option.splits if_splits)
  qed
qed

lemma fetch_msg_spec:
  assumes b: "buffer_ok m others (reading_buffer c)" and pl: "plenty m"
    and len: "length (contents m (reading_buffer c)) < int_max" and l: "last_check_cmd_index c = 0"
    and k: "next_msg_size m (reading_buffer c) = Inr k"
  shows "\<exists>rb m'. fetch_msg_from_client c m
      = Inr (k, Some (take k (contents m (reading_buffer c))), c\<lparr>reading_buffer := rb, last_check_cmd_index := 0\<rparr>, m')
    \<and> buffer_ok m' others rb \<and> contents m' rb = drop k (contents m (reading_buffer c))
    \<and> pool_frame m m' (set others) \<and> plenty m' \<and> k \<le> length (contents m (reading_buffer c))
    \<and> chunks m' rb = cut_chunks k (chunks m (reading_buffer c))"
proof -
  let ?b = "reading_buffer c"
  have len64: "length (contents m ?b) < 2 ^ 64" using len by (simp add: int_max_def)
  have le: "k \<le> length (contents m ?b)"
  proof (cases ?b)
    case (Cons n rest)
    have "k \<le> length (node_data m n)" using k[unfolded Cons] by (cases rule: next_msg_size_Cons) auto
    then show ?thesis by (simp add: Cons)
  qed (use k in \<open>simp add: next_msg_size_def\<close>)
  obtain j where j: "find_in_buffer m ?b 0 (Some check_command_suffix) LF = Inr j"
    and js: "min (add_size j 1) (length (contents m ?b)) = k" "take (add_size j 1) (contents m ?b) = take k (contents m ?b)"
      "drop (add_size j 1) (contents m ?b) = drop k (contents m ?b)" "?b = [] \<or> add_size j 1 = k"
  proof (cases ?b)
    case Nil
    then have "k = 0" using k by (simp add: next_msg_size_def)
    then show ?thesis by (intro that[of 0]) (simp_all add: Nil find_in_buffer_empty)
  next
    case (Cons n rest)
    note b' = b[unfolded Cons]
    have sz: "NODE_SIZE n = int (length (node_data m n))" using head_node[OF b'] by simp
    have hd: "length (node_data m n) \<le> 512" using head_node(3)[OF b'] .
    obtain j where s: "check_command_suffix (node_data m n @ behind_head m n) (NODE_SIZE n) LF = Inr j"
      and "j < 2 ^ 64" and add: "add_size j 1 = k"
      using k[unfolded Cons]
    proof (cases rule: next_msg_size_Cons)
      case (hit i)
      then show ?thesis using hd by (intro that[of i]) (auto simp: check_command_suffix_def sz add_size_def)
    next
      case (miss r)
      then show ?thesis
        by (intro that[of "2 ^ 64 - 1"]) (auto simp: check_command_suffix_def sz add_size_def dest!: not_less[THEN iffD2] split: option.splits)
    qed
    then have f: "find_in_buffer m ?b 0 (Some check_command_suffix) LF = Inr j"
      unfolding Cons by (intro find_in_buffer_first[OF b']) (simp_all add: behind_head_def)
    then show ?thesis by (intro that[OF f]) (use le add in simp_all)
  qed
  have "add_size j 1 < 2 ^ 64" by (simp add: add_size_def)
  from read_from_buffer_plenty[OF b pl this len64] obtain rb m' where
    r: "read_from_buffer m ?b (add_size j 1) = Inr (k, rb, take k (contents m ?b), m')" "buffer_ok m' others rb"
      "contents m' rb = drop k (contents m ?b)" "pool_frame m m' (set others)" "plenty m'"
    unfolding js(1-3) by blast
  have ch: "chunks m' rb = cut_chunks k (chunks m ?b)"
  proof (cases ?b)
    case Nil
    then show ?thesis using r(1) read_from_buffer_empty by (auto simp: chunks_def cut_chunks_def)
  next
    case (Cons n rest)
    have "k \<le> length (node_data m n)" using k[unfolded Cons] by (cases rule: next_msg_size_Cons) auto
    then show ?thesis
      using read_from_buffer_head[OF b _ _ len64, of k k rb "take k (contents m ?b)" m'] r(1) js(4) Cons
      by (simp add: chunks_def)
  qed
  have "to_size (to_int k) = k" using le len by (simp add: to_int_small to_size_of_nat int_max_def)
  then show ?thesis using j r le ch
    by (intro exI[of _ rb] exI[of _ m']) (simp add: fetch_msg_from_client_def l Let_def)
qed

text \<open>A line in the first node is the next message.\<close>

lemma next_msg_line:
  assumes "node_data m n = line @ LF # rst" and "line_text line"
  shows "next_msg_size m (n # rest) = Inr (Suc (length line))"
  using assms c_strchr_hit[of LF line "rst @ behind_head m n"] by (simp add: next_msg_size_def line_text_def)

text \<open>A first node without a newline holds everything up behind it.\<close>

lemma next_msg_none:
  assumes "LF \<notin> set (node_data m n)" and "NUL \<in> set (behind_head m n)"
  shows "next_msg_size m (n # rest) = Inr 0"
proof -
  have "\<exists>r. c_strchr LF (p @ q) = Inr r \<and> (\<forall>k. r = Some k \<longrightarrow> length p \<le> k)"
    if "LF \<notin> set p" "NUL \<in> set q" for p q
    using that
  proof (induction p)
    case Nil
    have "\<exists>r. c_strchr LF q = Inr r" using \<open>NUL \<in> set q\<close> by (induction q) auto
    then show ?case by auto
  next
    case (Cons x p)
    then show ?case by (cases "x = NUL") auto
  qed
  from this[OF assms] obtain r where "c_strchr LF (node_data m n @ behind_head m n) = Inr r"
    "\<forall>k. r = Some k \<longrightarrow> length (node_data m n) \<le> k" by blast
  then show ?thesis by (auto simp: next_msg_size_def split: option.splits)
qed

end
