(* ===== verification/Server.thy ===== *)
theory Server
  imports ClientInfo
begin

text \<open>
  \<^verbatim>\<open>IMServer.c\<close>: the server. \<open>infos\<close> is the heap of client records (a \<^verbatim>\<open>PClientInfo\<close>
  is an index; \<open>None\<close>: freed), \<open>clients\<close> the linked list of the records that are online, in
  its order. \<open>outs\<close> are the sockets to write to and \<open>closed\<close> the file descriptors that were
  closed; what arrives on a socket is an argument of the step that reads it. The mutex is the
  flag \<open>server_lock\<close>: one thread that takes it twice is a \<open>Deadlock\<close>, and a step of one thread
  is one transition of theory \<open>Steps\<close>.
\<close>

section \<open>State\<close>

record server =
  mem :: pool
  infos :: "client option list"
  clients :: "nat list"
  client_count :: int
  server_lock :: bool
  is_running :: int
  server_info :: nat
  sign_to_flush_msg :: int
  outs :: "int \<Rightarrow> out_socket"
  closed :: "int list"

definition mutex_lock :: "server \<Rightarrow> server res" where
  "mutex_lock s = (if server_lock s then Inl Deadlock else Inr (s\<lparr>server_lock := True\<rparr>))"

definition mutex_unlock :: "server \<Rightarrow> server" where
  "mutex_unlock s = s\<lparr>server_lock := False\<rparr>"

definition deref :: "nat \<Rightarrow> server \<Rightarrow> client res" where
  "deref i s =
     (if i < length (infos s)
      then (case infos s ! i of None \<Rightarrow> Inl Use_after_free | Some c \<Rightarrow> Inr c)
      else Inl Null_deref)"

definition put_client :: "nat \<Rightarrow> client \<Rightarrow> server \<Rightarrow> server" where
  "put_client i c s = s\<lparr>infos := (infos s)[i := Some c]\<rparr>"

text \<open>The part of a server that concerns one client: a call of an operation of ClientInfo.\<close>

definition with_client :: "nat \<Rightarrow> (client \<Rightarrow> pool \<Rightarrow> ('a \<times> client \<times> pool) res) \<Rightarrow> server \<Rightarrow> ('a \<times> server) res" where
  "with_client i f s =
     bindr (deref i s) (\<lambda>c. bindr (f c (mem s)) (\<lambda>(r, c', m').
       Inr (r, (put_client i c' s)\<lparr>mem := m'\<rparr>)))"

section \<open>Creation and release\<close>

text \<open>
  \<open>init_ret\<close> and \<open>cond_ret\<close> are the results of \<^verbatim>\<open>pthread_mutex_init\<close> and
  \<^verbatim>\<open>pthread_cond_init\<close>; the record of the listening socket becomes number 0 of a new heap.
\<close>

definition init_server_info ::
  "(nat \<Rightarrow> string \<Rightarrow> nat \<Rightarrow> string option) \<Rightarrow> int \<times> int \<Rightarrow> int \<Rightarrow> int \<Rightarrow> int \<Rightarrow> (int \<Rightarrow> out_socket) \<Rightarrow> pool
    \<Rightarrow> (server option \<times> pool) res" where
  "init_server_info inet_ntop spin_inits init_ret cond_ret socket socks m =
     bindr (new_client_info inet_ntop Peer_error spin_inits socket (Some (''IMServer'' @ [NUL])) C_TYPE_S m)
       (\<lambda>(info, m1). case info of
          None \<Rightarrow> Inr (None, m1)
        | Some c \<Rightarrow>
            (case malloc m1 of
               (False, m2) \<Rightarrow> bindr (release_client_info (Some c) m2) (\<lambda>(_, m3). Inr (None, m3))
             | (True, m2) \<Rightarrow>
                 if init_ret \<noteq> 0 \<or> cond_ret \<noteq> 0
                 then bindr (release_client_info (Some c) m2) (\<lambda>(_, m3). Inr (None, m3))
                 else Inr (Some \<lparr>mem = m2, infos = [Some c], clients = [], client_count = 0, server_lock = False,
                   is_running = 1, server_info = 0, sign_to_flush_msg = 0, outs = socks, closed = []\<rparr>, m2)))"

text \<open>Only the server's own record is released: the records still in the list are not.\<close>

definition release_server_info :: "server \<Rightarrow> pool res" where
  "release_server_info s =
     bindr (deref (server_info s) s) (\<lambda>c. bindr (release_client_info (Some c) (mem s)) (\<lambda>(_, m). Inr m))"

section \<open>Snapshots of the client list\<close>

text \<open>
  An array of \<^verbatim>\<open>client_count\<close> entries filled from the list; entries nobody wrote are
  \<open>None\<close>, and a list longer than the array overflows it.
\<close>

definition fill_array :: "nat list \<Rightarrow> nat \<Rightarrow> nat option list res" where
  "fill_array xs n =
     (if length xs > n then Inl Out_of_bounds else Inr (map Some xs @ replicate (n - length xs) None))"

definition slot :: "nat option \<Rightarrow> nat res" where
  "slot x = (case x of None \<Rightarrow> Inl Uninitialised | Some i \<Rightarrow> Inr i)"

definition get_client_list :: "server \<Rightarrow> (nat option list option \<times> int \<times> server) res" where
  "get_client_list s =
     bindr (mutex_lock s) (\<lambda>s1.
       case malloc (mem s1) of
         (False, m) \<Rightarrow> Inr (None, 0, mutex_unlock (s1\<lparr>mem := m\<rparr>))
       | (True, m) \<Rightarrow>
           bindr (fill_array (clients s1) (nat (client_count s1))) (\<lambda>arr.
             Inr (Some arr, client_count s1, mutex_unlock (s1\<lparr>mem := m\<rparr>))))"

section \<open>Delivery\<close>

fun deliver_loop :: "msg \<Rightarrow> bool \<Rightarrow> nat option list \<Rightarrow> int \<Rightarrow> server \<Rightarrow> (int \<times> server) res" where
  "deliver_loop msg to_all [] sent_count s = Inr (sent_count, s)"
| "deliver_loop msg to_all (x # xs) sent_count s =
     bindr (slot x) (\<lambda>i. bindr (deref i s) (\<lambda>info.
       if to_size (- 1) = pub info then deliver_loop msg to_all xs sent_count s
       else bindr (filter_out msg (name info)) (\<lambda>f.
         if 0 = f then deliver_loop msg to_all xs sent_count s
         else bindr (if to_all then Inr True else bindr (is_target msg (name info)) (\<lambda>t. Inr (0 = t))) (\<lambda>hit.
           if hit
           then bindr (with_client i (\<lambda>c m. send_msg_to_client c (content msg) (msg_size msg) m) s) (\<lambda>(_, s1).
                  deliver_loop msg to_all xs (sent_count + 1) s1)
           else deliver_loop msg to_all xs sent_count s))))"

definition deliver_msg_to_all_clients :: "server \<Rightarrow> msg \<Rightarrow> (int \<times> server) res" where
  "deliver_msg_to_all_clients s msg =
     bindr (get_client_list s) (\<lambda>(arr, sz, s1).
     bindr (is_msg_to_all msg) (\<lambda>a.
       let to_all = (0 = a)
       in deliver_loop msg to_all (case arr of None \<Rightarrow> [] | Some xs \<Rightarrow> take (nat sz) xs) 0 s1))"

section \<open>Login and logout\<close>

text \<open>
  A notice to everybody but \<open>who\<close>: the text is put together in a block of the pool, which
  is given back at once. \<open>k\<close> is called with the message while the block is still held.
\<close>

definition notice ::
  "string \<Rightarrow> string \<Rightarrow> (msg option \<Rightarrow> server \<Rightarrow> ('a \<times> server) res) \<Rightarrow> 'a \<Rightarrow> server \<Rightarrow> ('a \<times> server) res" where
  "notice who suffix k none s =
     (let sz = to_int (add_size (add_size (length who) (length suffix)) 2)
      in bindr (get_new_cache sz (mem s)) (\<lambda>(cache, m1). case cache of
           None \<Rightarrow> Inr (none, s\<lparr>mem := m1\<rparr>)
         | Some c \<Rightarrow>
             bindr (cache_write c 0 (who @ '' '' @ suffix @ [NUL]) m1) (\<lambda>m2.
             bindr (cache_pointer c 0 m2) (\<lambda>p.
             bindr (create_sys_msg_base_on_content (Some (CMD_TO_ALL @ [NUL])) p (length (buff (store m2 ! c))) m2)
               (\<lambda>(message, m3).
             bindr (case message of
                      None \<Rightarrow> Inr None
                    | Some message \<Rightarrow> bindr (strcpy_name who) (\<lambda>e. Inr (Some (message\<lparr>exclude := Some e\<rparr>))))
               (\<lambda>message.
             bindr (k message (s\<lparr>mem := m3\<rparr>)) (\<lambda>(r, s1).
             bindr (recycle_cache c (mem s1)) (\<lambda>(_, m4). Inr (r, s1\<lparr>mem := m4\<rparr>)))))))))"

definition user_login :: "nat \<Rightarrow> string \<Rightarrow> server \<Rightarrow> (msg option \<times> server) res" where
  "user_login i msg s =
     bindr (cut_line (msg @ slack (mem s)) (length msg)) (\<lambda>p.
     bindr (with_client i (\<lambda>c m. bindr (update_client_name c (Some (drop (length CMD_LOGIN) p))) (\<lambda>c'.
              Inr (name c', c', m))) s) (\<lambda>(who, s1).
     notice who MSG_LOGIN_SUFFIX (\<lambda>message s. Inr (message, s)) None s1))"

text \<open>
  The loop of \<^verbatim>\<open>user_logout\<close>: the first node whose record has the same socket is taken
  out of the list; \<open>True\<close> when there was one.
\<close>

fun unlink :: "nat \<Rightarrow> nat list \<Rightarrow> server \<Rightarrow> (bool \<times> nat list) res" where
  "unlink i [] s = Inr (False, [])"
| "unlink i (x # xs) s =
     bindr (deref x s) (\<lambda>curr. bindr (deref i s) (\<lambda>info.
       if socket_id curr = socket_id info then Inr (True, xs)
       else bindr (unlink i xs s) (\<lambda>(b, ys). Inr (b, x # ys))))"

definition user_logout :: "nat \<Rightarrow> server \<Rightarrow> server res" where
  "user_logout i s =
     bindr (mutex_lock s) (\<lambda>s1.
     bindr (unlink i (clients s1) s1) (\<lambda>(found, rest).
     let s2 = mutex_unlock (s1\<lparr>clients := rest, client_count := client_count s1 - (if found then 1 else 0)\<rparr>)
     in bindr (deref i s2) (\<lambda>info.
     bindr (notice (name info) MSG_LOGOUT_SUFFIX
              (\<lambda>message s. case message of None \<Rightarrow> Inr (0, s) | Some message \<Rightarrow> deliver_msg_to_all_clients s message)
              0 s2) (\<lambda>(sent_count, s3).
     bindr (deref i s3) (\<lambda>info.
     bindr (release_client_info (Some info) (mem s3)) (\<lambda>(_, m).
     let s4 = s3\<lparr>mem := m, closed := socket_id info # closed s3, infos := (infos s3)[i := None]\<rparr>
     in if sent_count \<noteq> 0
        then bindr (mutex_lock s4) (\<lambda>s5. Inr (mutex_unlock (s5\<lparr>sign_to_flush_msg := sign_to_flush_msg s5 + 1\<rparr>)))
        else Inr s4))))))"

section \<open>Parsing\<close>

text \<open>
  The body of the loop of \<^verbatim>\<open>try_to_handle_msg\<close> up to the message it wants to redirect. A
  message is a block of exactly its own bytes: the string functions read on behind it.
\<close>

definition starts_with :: "string \<Rightarrow> string \<Rightarrow> bool res" where
  "starts_with p cmd = bindr (c_strstr p cmd) (\<lambda>r. Inr (r = Some 0))"

definition redirect_p2p :: "nat \<Rightarrow> string option \<Rightarrow> string \<Rightarrow> nat \<Rightarrow> server \<Rightarrow> (msg option \<times> server) res" where
  "redirect_p2p i target_ptr msg off s =
     bindr (deref i s) (\<lambda>info.
       if off > length (msg @ slack (mem s)) then Inl Out_of_bounds
       else bindr (create_p2p_msg_base_on_content (name info) target_ptr (drop off (msg @ slack (mem s)))
                     (length msg - off) (mem s)) (\<lambda>(r, m). Inr (r, s\<lparr>mem := m\<rparr>)))"

definition redirect_to_c :: "nat \<Rightarrow> string \<Rightarrow> server \<Rightarrow> (msg option \<times> server) res" where
  "redirect_to_c i msg s =
     bindr (c_strchr (CHR '':'') (msg @ slack (mem s))) (\<lambda>indicator. case indicator of
       None \<Rightarrow> Inr (None, s)
     | Some ind \<Rightarrow>
         let cmd_size = length CMD_TO_C;
             target_name_size = int ind - int cmd_size
         in bindr (get_new_cache target_name_size (mem s)) (\<lambda>(cache, m1). case cache of
              None \<Rightarrow> Inr (None, s\<lparr>mem := m1\<rparr>)
            | Some c \<Rightarrow>
                bindr (cache_write c 0 (take (nat target_name_size) (drop cmd_size (msg @ slack (mem s)))) m1) (\<lambda>m2.
                bindr (cache_pointer c 0 m2) (\<lambda>t.
                bindr (redirect_p2p i (Some t) msg (ind + 2) (s\<lparr>mem := m2\<rparr>)) (\<lambda>(r, s1).
                bindr (recycle_cache c (mem s1)) (\<lambda>(_, m3). Inr (r, s1\<lparr>mem := m3\<rparr>)))))))"

definition redirect :: "nat \<Rightarrow> string \<Rightarrow> server \<Rightarrow> (msg option \<times> server) res" where
  "redirect i msg s =
     (let p = msg @ slack (mem s) in
      bindr (c_str p) (\<lambda>logged.
      bindr (starts_with p CMD_LOGIN) (\<lambda>login.
        if login then user_login i msg s
        else bindr (starts_with p CMD_TO_ALL) (\<lambda>all.
          if all then redirect_p2p i (Some (CMD_TO_ALL @ [NUL])) msg (length CMD_TO_ALL + 1) s
          else bindr (starts_with p CMD_TO_C) (\<lambda>one.
            if one then redirect_to_c i msg s else Inr (None, s))))))"

definition fetch_msg :: "nat \<Rightarrow> server \<Rightarrow> ((size_t \<times> string option) \<times> server) res" where
  "fetch_msg i s =
     with_client i (\<lambda>c m. bindr (fetch_msg_from_client c m) (\<lambda>(n, msg, c', m'). Inr ((n, msg), c', m'))) s"

text \<open>One message: what it makes the server send, and how many clients it went to.\<close>

definition handle_msg :: "nat \<Rightarrow> string \<Rightarrow> server \<Rightarrow> (int \<times> server) res" where
  "handle_msg i msg s =
     bindr (redirect i msg s) (\<lambda>(redirect_msg, s1). case redirect_msg of
       None \<Rightarrow> Inr (0, s1)
     | Some redirect_msg \<Rightarrow> deliver_msg_to_all_clients s1 redirect_msg)"

partial_function (option) handle_loop ::
  "nat \<Rightarrow> int \<Rightarrow> size_t \<times> string option \<Rightarrow> server \<Rightarrow> (int \<times> server) res option" where
  "handle_loop i need_to_flush_msg fetched s =
     (if \<not> fst fetched > 0 then Some (Inr (need_to_flush_msg, s))
      else case snd fetched of
        None \<Rightarrow> Some (Inl Null_deref)
      | Some msg \<Rightarrow>
          (case handle_msg i msg s of
             Inl e \<Rightarrow> Some (Inl e)
           | Inr (n, s1) \<Rightarrow>
               (case fetch_msg i s1 of
                  Inl e \<Rightarrow> Some (Inl e)
                | Inr (fetched1, s2) \<Rightarrow> handle_loop i (need_to_flush_msg + n) fetched1 s2)))"

definition try_to_handle_msg :: "nat \<Rightarrow> server \<Rightarrow> server res" where
  "try_to_handle_msg i s =
     bindr (fetch_msg i s) (\<lambda>(fetched, s1).
     bindr (returned (handle_loop i 0 fetched s1)) (\<lambda>(need_to_flush_msg, s2).
       if need_to_flush_msg \<noteq> 0
       then bindr (mutex_lock s2) (\<lambda>s3. Inr (mutex_unlock (s3\<lparr>sign_to_flush_msg := sign_to_flush_msg s3 + 1\<rparr>)))
       else Inr s2))"

section \<open>The reading thread\<close>

text \<open>
  A round of \<^verbatim>\<open>read_sockets\<close> has three parts, and other threads run between them:
  \<open>get_polling_and_client_list\<close> takes a snapshot (the file descriptors to poll and the
  records), \<open>debug_block\<close> logs it, and after the blocking \<^verbatim>\<open>poll\<close> \<open>poll_round\<close> acts on
  what it returned.
\<close>

record pollfd =
  fd :: int
  info_ptr :: nat

fun polling_list :: "nat list \<Rightarrow> server \<Rightarrow> pollfd list res" where
  "polling_list [] s = Inr []"
| "polling_list (x # xs) s =
     bindr (deref x s) (\<lambda>curr. bindr (polling_list xs s) (\<lambda>rest.
       Inr (\<lparr>fd = (if 0 = pub curr then socket_id curr else - 1), info_ptr = x\<rparr> # rest)))"

definition get_polling_and_client_list :: "server \<Rightarrow> (pollfd list option \<times> server) res" where
  "get_polling_and_client_list s =
     bindr (mutex_lock s) (\<lambda>s1.
       case malloc (mem s1) of
         (False, m) \<Rightarrow> Inr (None, mutex_unlock (s1\<lparr>mem := m\<rparr>))
       | (True, m) \<Rightarrow>
           bindr (fill_array (clients s1) (nat (client_count s1))) (\<lambda>arr.
           if None \<in> set arr then Inl Uninitialised
           else bindr (polling_list (clients s1) s1) (\<lambda>data.
             Inr (Some data, mutex_unlock (s1\<lparr>mem := m\<rparr>)))))"

text \<open>What a socket of the polling list has for the server: \<open>revents\<close> and the data to read.\<close>

record event =
  revents :: nat
  byte_available :: "int option"
  incoming :: "read_result list"

definition POLLIN :: nat where "POLLIN = 1"

text \<open>The result of a read is cut to an \<^verbatim>\<open>int\<close>: a failure (\<open>- 1\<close>) counts as data.\<close>

definition handle_event :: "pollfd \<Rightarrow> event \<Rightarrow> server \<Rightarrow> server res" where
  "handle_event tmp ev s =
     (if - 1 = fd tmp then Inr s
      else bindr (deref (info_ptr tmp) s) (\<lambda>info.
        if fd tmp \<noteq> socket_id info then Inr s
        else if 0 = revents ev then Inr s
        else
          let exception = (\<lambda>s. bindr (with_client (info_ptr tmp) (\<lambda>c m. Inr ((), c\<lparr>pub := to_size (- 1)\<rparr>, m)) s)
                (\<lambda>(_, s1). Inr s1))
          in if odd (revents ev)
             then bindr (with_client (info_ptr tmp) (\<lambda>c m.
                    bindr (fetch_from_client (byte_available ev) (incoming ev) c m) (\<lambda>(n, c', _, m'). Inr (n, c', m'))) s)
                    (\<lambda>(n, s1).
                      let fetch_count = to_int n
                      in if fetch_count \<noteq> 0 then try_to_handle_msg (info_ptr tmp) s1 else exception s1)
             else exception s))"

fun handle_events :: "(pollfd \<times> event) list \<Rightarrow> server \<Rightarrow> server res" where
  "handle_events [] s = Inr s"
| "handle_events ((p, e) # pes) s = bindr (handle_event p e s) (handle_events pes)"

text \<open>\<^verbatim>\<open>DEBUG_BLOCK\<close> (on by default) logs the socket of every record of the snapshot.\<close>

fun debug_block :: "pollfd list \<Rightarrow> server \<Rightarrow> unit res" where
  "debug_block [] s = Inr ()"
| "debug_block (p # ps) s = bindr (deref (info_ptr p) s) (\<lambda>_. debug_block ps s)"

definition poll_round :: "pollfd list \<Rightarrow> int \<Rightarrow> event list \<Rightarrow> server \<Rightarrow> server res" where
  "poll_round data poll_ret events s =
     (if - 1 = poll_ret \<or> 0 = poll_ret then Inr s else handle_events (zip data events) s)"

section \<open>The writing thread\<close>

fun flush_clients :: "nat option list \<Rightarrow> server \<Rightarrow> server res" where
  "flush_clients [] s = Inr s"
| "flush_clients (x # xs) s =
     bindr (slot x) (\<lambda>i. bindr (deref i s) (\<lambda>info.
       if to_size (- 1) = pub info then flush_clients xs s
       else bindr (flush_messages info (outs s (socket_id info)) (mem s)) (\<lambda>(flush_size, info', sock, m).
         flush_clients xs ((put_client i info' s)\<lparr>mem := m, outs := (outs s)(socket_id info := sock)\<rparr>))))"

fun logout_clients :: "nat option list \<Rightarrow> server \<Rightarrow> server res" where
  "logout_clients [] s = Inr s"
| "logout_clients (x # xs) s =
     bindr (slot x) (\<lambda>i. bindr (deref i s) (\<lambda>info.
       if to_size (- 1) = pub info then bindr (user_logout i s) (logout_clients xs)
       else logout_clients xs s))"

text \<open>
  The end of a round: \<^verbatim>\<open>sign_to_flush_msg\<close> is only cleared when it is already 0 (after the
  wait, in which the reading thread may have set it to \<open>raised\<close>).
\<close>

definition wait_for_messages :: "int \<Rightarrow> server \<Rightarrow> server res" where
  "wait_for_messages raised s =
     bindr (mutex_lock s) (\<lambda>s1.
       Inr (mutex_unlock (if sign_to_flush_msg s1 = 0
         then (s1\<lparr>sign_to_flush_msg := raised\<rparr>)\<lparr>sign_to_flush_msg := 0\<rparr> else s1)))"

text \<open>One round; \<open>None\<close> when the thread ends because there was no memory for the list.\<close>

definition write_sockets_round :: "int \<Rightarrow> server \<Rightarrow> (server option \<times> server) res" where
  "write_sockets_round raised s =
     bindr (get_client_list s) (\<lambda>(arr, sz, s1). case arr of
       None \<Rightarrow> Inr (None, s1)
     | Some xs \<Rightarrow>
         bindr (flush_clients (take (nat sz) xs) s1) (\<lambda>s2.
         bindr (logout_clients (take (nat sz) xs) s2) (\<lambda>s3.
         bindr (wait_for_messages raised s3) (\<lambda>s4. Inr (Some s4, s4)))))"

section \<open>The listening thread\<close>

text \<open>\<open>client_id\<close> is what \<^verbatim>\<open>accept\<close> returned.\<close>

definition handle_listen_round ::
  "(nat \<Rightarrow> string \<Rightarrow> nat \<Rightarrow> string option) \<Rightarrow> peer \<Rightarrow> int \<times> int \<Rightarrow> int \<Rightarrow> server \<Rightarrow> server res" where
  "handle_listen_round inet_ntop peer spin_inits client_id s =
     bindr (deref (server_info s) s) (\<lambda>_.
     if client_id < 0 then Inr s
     else bindr (new_client_info inet_ntop peer spin_inits client_id (Some (UNKNOWN_CLIENT @ [NUL])) C_TYPE_C (mem s))
       (\<lambda>(new_client, m). case new_client of
          None \<Rightarrow> Inr (s\<lparr>mem := m\<rparr>)
        | Some c \<Rightarrow>
            (case malloc m of
               (False, m1) \<Rightarrow> bindr (release_client_info (Some c) m1) (\<lambda>(_, m2). Inr (s\<lparr>mem := m2\<rparr>))
             | (True, m1) \<Rightarrow>
                 bindr (mutex_lock (s\<lparr>mem := m1\<rparr>)) (\<lambda>s1.
                   Inr (mutex_unlock (s1\<lparr>infos := infos s1 @ [Some c], clients := clients s1 @ [length (infos s1)],
                     client_count := client_count s1 + 1\<rparr>))))))"

end
