(* ===== verification/ServerSpec.thy ===== *)
theory ServerSpec
  imports Server
begin

text \<open>
  What the server promises, over an abstract state: every client is its socket, its name, the
  flag that marks it for logout, the bytes that wait to be parsed (in the chunks the blocks of
  the buffer cut them into) and the bytes that wait to be sent. \<open>server_ok\<close> is the invariant of the concrete state (with memory that lasts), and the
  lemmas show that the operations of theory Server keep it and refine operations on the
  abstract state.
\<close>

section \<open>The abstract state\<close>

record aclient =
  a_socket :: int
  a_name :: string
  a_pub :: size_t
  a_in :: "string list"
  a_out :: string

definition abs_client :: "pool \<Rightarrow> client \<Rightarrow> aclient" where
  "abs_client m c = \<lparr>a_socket = socket_id c, a_name = name c, a_pub = pub c,
     a_in = chunks m (reading_buffer c), a_out = contents m (writing_buffer c)\<rparr>"

definition abs_infos :: "pool \<Rightarrow> client option list \<Rightarrow> aclient option list" where
  "abs_infos m cs = map (map_option (abs_client m)) cs"

abbreviation abs_srv :: "server \<Rightarrow> aclient option list" where
  "abs_srv s \<equiv> abs_infos (mem s) (infos s)"

text \<open>Who gets a message, and the delivery of a line to the clients \<open>ids\<close>.\<close>

definition receives :: "string \<Rightarrow> string \<Rightarrow> aclient \<Rightarrow> bool" where
  "receives tgt ex a \<longleftrightarrow> a_pub a \<noteq> to_size (- 1) \<and> a_name a \<noteq> ex \<and> a_name a \<noteq> UNKNOWN_CLIENT
     \<and> (tgt = CMD_TO_ALL \<or> a_name a = tgt)"

definition a_send :: "string \<Rightarrow> string \<Rightarrow> string \<Rightarrow> aclient option \<Rightarrow> aclient option" where
  "a_send tgt ex line a = map_option (\<lambda>a. if receives tgt ex a then a\<lparr>a_out := a_out a @ line\<rparr> else a) a"

definition a_deliver :: "nat list \<Rightarrow> string \<Rightarrow> string \<Rightarrow> string \<Rightarrow> aclient option list \<Rightarrow> aclient option list" where
  "a_deliver ids tgt ex line v = fold (\<lambda>i v. v[i := a_send tgt ex line (v ! i)]) ids v"

definition a_count :: "nat list \<Rightarrow> string \<Rightarrow> string \<Rightarrow> aclient option list \<Rightarrow> nat" where
  "a_count ids tgt ex v = length (filter (\<lambda>i. \<exists>a. v ! i = Some a \<and> receives tgt ex a) ids)"

section \<open>The invariant\<close>

definition client_ok :: "client \<Rightarrow> bool" where
  "client_ok c \<longleftrightarrow> \<not> writing_lock c \<and> last_check_cmd_index c = 0 \<and> name_text (name c) \<and> LF \<notin> set (name c)"

definition live :: "client option list \<Rightarrow> buffer list" where
  "live cs = concat (map (\<lambda>x. case x of None \<Rightarrow> [] | Some c \<Rightarrow> [reading_buffer c, writing_buffer c]) cs)"

definition sockets :: "client option list \<Rightarrow> nat list \<Rightarrow> int list" where
  "sockets cs ids = map (\<lambda>i. socket_id (the (cs ! i))) ids"

text \<open>\<open>held\<close> are blocks of the pool in use outside the buffers of the live clients.\<close>

definition infos_ok :: "pool \<Rightarrow> nat list \<Rightarrow> client option list \<Rightarrow> bool" where
  "infos_ok m held cs \<longleftrightarrow> buffers_ok m held (live cs) \<and> plenty m \<and> NUL \<in> set (slack m)
     \<and> (\<forall>c. Some c \<in> set cs \<longrightarrow> client_ok c)"

definition online_ok :: "server \<Rightarrow> bool" where
  "online_ok s \<longleftrightarrow> \<not> server_lock s \<and> client_count s = int (length (clients s)) \<and> distinct (clients s)
     \<and> (\<forall>i \<in> set (clients s). i < length (infos s) \<and> infos s ! i \<noteq> None \<and> i \<noteq> server_info s)
     \<and> distinct (sockets (infos s) (clients s))
     \<and> server_info s < length (infos s) \<and> infos s ! server_info s \<noteq> None"

definition server_ok :: "nat list \<Rightarrow> server \<Rightarrow> bool" where
  "server_ok held s \<longleftrightarrow> infos_ok (mem s) held (infos s) \<and> online_ok s"

lemma live_simps [simp]: "live [] = []" "live (None # cs) = live cs"
  "live (Some c # cs) = reading_buffer c # writing_buffer c # live cs" "live (as @ cs) = live as @ live cs"
  by (simp_all add: live_def)

lemma live_mem: "Some c \<in> set cs \<Longrightarrow> reading_buffer c \<in> set (live cs) \<and> writing_buffer c \<in> set (live cs)"
  by (auto simp: live_def intro!: bexI[of _ "Some c"])

lemma abs_infos_simps [simp]: "abs_infos m [] = []" "abs_infos m (as @ cs) = abs_infos m as @ abs_infos m cs"
  "abs_infos m (x # cs) = map_option (abs_client m) x # abs_infos m cs" "length (abs_infos m cs) = length cs"
  by (simp_all add: abs_infos_def)

lemma abs_infos_nth [simp]: "i < length cs \<Longrightarrow> abs_infos m cs ! i = map_option (abs_client m) (cs ! i)"
  by (simp add: abs_infos_def)

lemma abs_infos_cong:
  "(\<And>b. b \<in> set (live cs) \<Longrightarrow> chunks m' b = chunks m b) \<Longrightarrow> abs_infos m' cs = abs_infos m cs"
  using live_mem by (fastforce simp: abs_infos_def abs_client_def contents_chunks option.map_comp intro!: map_option_cong)

lemma infos_focus:
  assumes "i < length cs" and "cs ! i = Some c"
  obtains as bs where "cs = as @ Some c # bs" "length as = i" "\<And>x. cs[i := x] = as @ x # bs"
proof
  show 1: "cs = take i cs @ Some c # drop (Suc i) cs" using id_take_nth_drop[OF assms(1)] assms(2) by simp
  show "length (take i cs) = i" using assms(1) by simp
  show "cs[i := x] = take i cs @ x # drop (Suc i) cs" for x using upd_conv_take_nth_drop[OF assms(1)] .
qed

text \<open>The blocks that a call for one buffer of a client leaves alone.\<close>

lemma reading_focus:
  assumes ok: "infos_ok m held cs" and i: "i < length cs" "cs ! i = Some c"
  obtains others where "buffer_ok m others (reading_buffer c)"
    "\<And>rb m' c'. buffer_ok m' others rb \<Longrightarrow> pool_frame m m' (set others) \<Longrightarrow> reading_buffer c' = rb
      \<Longrightarrow> writing_buffer c' = writing_buffer c \<Longrightarrow> client_ok c'
      \<Longrightarrow> infos_ok m' held (cs[i := Some c'])
        \<and> abs_infos m' (cs[i := Some c']) = (abs_infos m cs)[i := Some (abs_client m' c')]
        \<and> chunks m' (writing_buffer c) = chunks m (writing_buffer c)"
proof -
  obtain as bs where f: "cs = as @ Some c # bs" "length as = i" "\<And>x. cs[i := x] = as @ x # bs"
    using infos_focus[OF i] by blast
  let ?o = "blocks (live as) @ blocks (writing_buffer c # live bs) @ held"
  have b: "buffers_ok m held (live as @ reading_buffer c # (writing_buffer c # live bs))"
    using ok f(1) by (simp add: infos_ok_def)
  show ?thesis
  proof (rule that[OF buffers_focus[OF b]])
    fix rb m' c'
    assume n: "buffer_ok m' ?o rb" "pool_frame m m' (set ?o)" "reading_buffer c' = rb"
      "writing_buffer c' = writing_buffer c" "client_ok c'"
    have same: "chunks m' x = chunks m x" if "x \<in> set (live as) \<union> set (writing_buffer c # live bs)" for x
      by (rule buffers_kept(3)[OF b n(2) that])
    have "buffers_ok m' held (live as @ rb # (writing_buffer c # live bs))" by (rule buffers_update[OF b n(1,2)])
    moreover have "\<forall>d. Some d \<in> set (as @ Some c' # bs) \<longrightarrow> client_ok d"
      using ok n(5) f(1) by (auto simp: infos_ok_def)
    ultimately have "infos_ok m' held (cs[i := Some c'])"
      using ok n(3,4) pool_frame_env(2)[OF n(2)] n(2) unfolding infos_ok_def f(3) pool_frame_def by simp
    moreover have "abs_infos m' as = abs_infos m as" "abs_infos m' bs = abs_infos m bs"
      by (rule abs_infos_cong, rule same, simp)+
    then have "abs_infos m' (cs[i := Some c']) = (abs_infos m cs)[i := Some (abs_client m' c')]"
      using f(2) unfolding f(3) by (subst f(1)) (simp add: list_update_append)
    ultimately show "infos_ok m' held (cs[i := Some c'])
        \<and> abs_infos m' (cs[i := Some c']) = (abs_infos m cs)[i := Some (abs_client m' c')]
        \<and> chunks m' (writing_buffer c) = chunks m (writing_buffer c)"
      using same by simp
  qed
qed

lemma writing_focus:
  assumes ok: "infos_ok m held cs" and i: "i < length cs" "cs ! i = Some c"
  obtains others where "buffer_ok m others (writing_buffer c)"
    "\<And>wb m' c'. buffer_ok m' others wb \<Longrightarrow> pool_frame m m' (set others) \<Longrightarrow> writing_buffer c' = wb
      \<Longrightarrow> reading_buffer c' = reading_buffer c \<Longrightarrow> client_ok c'
      \<Longrightarrow> infos_ok m' held (cs[i := Some c'])
        \<and> abs_infos m' (cs[i := Some c']) = (abs_infos m cs)[i := Some (abs_client m' c')]
        \<and> chunks m' (reading_buffer c) = chunks m (reading_buffer c)"
proof -
  obtain as bs where f: "cs = as @ Some c # bs" "length as = i" "\<And>x. cs[i := x] = as @ x # bs"
    using infos_focus[OF i] by blast
  let ?o = "blocks (live as @ [reading_buffer c]) @ blocks (live bs) @ held"
  have b: "buffers_ok m held ((live as @ [reading_buffer c]) @ writing_buffer c # live bs)"
    using ok f(1) by (simp add: infos_ok_def)
  show ?thesis
  proof (rule that[OF buffers_focus[OF b]])
    fix wb m' c'
    assume n: "buffer_ok m' ?o wb" "pool_frame m m' (set ?o)" "writing_buffer c' = wb"
      "reading_buffer c' = reading_buffer c" "client_ok c'"
    have same: "chunks m' x = chunks m x" if "x \<in> set (live as @ [reading_buffer c]) \<union> set (live bs)" for x
      by (rule buffers_kept(3)[OF b n(2) that])
    have "buffers_ok m' held ((live as @ [reading_buffer c]) @ wb # live bs)" by (rule buffers_update[OF b n(1,2)])
    moreover have "\<forall>d. Some d \<in> set (as @ Some c' # bs) \<longrightarrow> client_ok d"
      using ok n(5) f(1) by (auto simp: infos_ok_def)
    ultimately have "infos_ok m' held (cs[i := Some c'])"
      using ok n(3,4) pool_frame_env(2)[OF n(2)] n(2) unfolding infos_ok_def f(3) pool_frame_def by simp
    moreover have "abs_infos m' as = abs_infos m as" "abs_infos m' bs = abs_infos m bs"
      by (rule abs_infos_cong, rule same, simp)+
    then have "abs_infos m' (cs[i := Some c']) = (abs_infos m cs)[i := Some (abs_client m' c')]"
      using f(2) unfolding f(3) by (subst f(1)) (simp add: list_update_append)
    ultimately show "infos_ok m' held (cs[i := Some c'])
        \<and> abs_infos m' (cs[i := Some c']) = (abs_infos m cs)[i := Some (abs_client m' c')]
        \<and> chunks m' (reading_buffer c) = chunks m (reading_buffer c)"
      using same by simp
  qed
qed

text \<open>The list of online clients does not depend on what is in a record apart from its socket.\<close>

lemma online_ok_put:
  assumes "online_ok s" and "i < length (infos s)" and "infos s ! i = Some c" and "socket_id c' = socket_id c"
  shows "online_ok ((put_client i c' s)\<lparr>mem := m'\<rparr>)"
proof -
  have "sockets ((infos s)[i := Some c']) (clients s) = sockets (infos s) (clients s)"
    using assms(3,4) by (auto simp: sockets_def nth_list_update assms(2))
  then show ?thesis using assms by (auto simp: online_ok_def put_client_def nth_list_update)
qed

lemma deref_iff: "deref i s = Inr c \<longleftrightarrow> i < length (infos s) \<and> infos s ! i = Some c"
  by (auto simp: deref_def split: option.splits)

lemma online_deref:
  assumes "online_ok s" and "i \<in> set (clients s)"
  obtains c where "deref i s = Inr c" "i < length (infos s)" "infos s ! i = Some c"
  using assms by (auto simp: online_ok_def deref_iff)

section \<open>Delivery\<close>

text \<open>What an operation of one thread leaves alone.\<close>

definition same_online :: "server \<Rightarrow> server \<Rightarrow> bool" where
  "same_online s s' \<longleftrightarrow> clients s' = clients s \<and> client_count s' = client_count s \<and> server_lock s' = server_lock s
     \<and> is_running s' = is_running s \<and> server_info s' = server_info s \<and> sign_to_flush_msg s' = sign_to_flush_msg s
     \<and> outs s' = outs s \<and> closed s' = closed s \<and> length (infos s') = length (infos s)"

lemma same_online_refl [simp]: "same_online s s"
  and same_online_trans: "same_online s1 s2 \<Longrightarrow> same_online s2 s3 \<Longrightarrow> same_online s1 s3"
  by (simp_all add: same_online_def)

lemma same_online_put [simp]: "same_online s ((put_client i c s)\<lparr>mem := m\<rparr>)"
  by (simp add: same_online_def put_client_def)

lemma send_ok:
  assumes ok: "server_ok held s" and i: "i < length (infos s)" "infos s ! i = Some c"
    and n: "0 < n" "n \<le> length d" "n < int_max"
  shows "\<exists>s'. with_client i (\<lambda>c m. send_msg_to_client c d n m) s = Inr (n, s') \<and> server_ok held s' \<and> same_online s s'
    \<and> abs_srv s' = (abs_srv s)[i := Some ((abs_client (mem s) c)\<lparr>a_out := a_out (abs_client (mem s) c) @ take n d\<rparr>)]"
proof -
  have io: "infos_ok (mem s) held (infos s)" and on: "online_ok s" using ok by (simp_all add: server_ok_def)
  have co: "client_ok c" using io i by (metis infos_ok_def nth_mem)
  have pl: "plenty (mem s)" using io by (simp add: infos_ok_def)
  obtain others where b: "buffer_ok (mem s) others (writing_buffer c)" and
    up: "\<And>wb m' c'. buffer_ok m' others wb \<Longrightarrow> pool_frame (mem s) m' (set others) \<Longrightarrow> writing_buffer c' = wb
      \<Longrightarrow> reading_buffer c' = reading_buffer c \<Longrightarrow> client_ok c'
      \<Longrightarrow> infos_ok m' held ((infos s)[i := Some c'])
        \<and> abs_infos m' ((infos s)[i := Some c']) = (abs_srv s)[i := Some (abs_client m' c')]
        \<and> chunks m' (reading_buffer c) = chunks (mem s) (reading_buffer c)"
    using writing_focus[OF io i] by blast
  obtain wb m' where w: "write_into_buffer (mem s) (writing_buffer c) d n = Inr (n, wb, m')" "buffer_ok m' others wb"
    "contents m' wb = contents (mem s) (writing_buffer c) @ take n d" "pool_frame (mem s) m' (set others)"
    using write_into_buffer_plenty[OF b pl n] by blast
  let ?c = "c\<lparr>writing_buffer := wb\<rparr>" and ?s = "(put_client i (c\<lparr>writing_buffer := wb\<rparr>) s)\<lparr>mem := m'\<rparr>"
  have "client_ok ?c" using co by (simp add: client_ok_def)
  then have u: "infos_ok m' held ((infos s)[i := Some ?c])
      \<and> abs_infos m' ((infos s)[i := Some ?c]) = (abs_srv s)[i := Some (abs_client m' ?c)]
      \<and> chunks m' (reading_buffer c) = chunks (mem s) (reading_buffer c)"
    by (intro up[OF w(2,4)]) simp_all
  have run: "with_client i (\<lambda>c m. send_msg_to_client c d n m) s = Inr (n, ?s)"
    using i w(1) co by (simp add: with_client_def deref_def send_msg_to_client_def client_ok_def)
  have "online_ok ?s" by (rule online_ok_put[OF on i]) simp
  then have "server_ok held ?s" using u by (simp add: server_ok_def put_client_def)
  moreover have "abs_srv ?s = (abs_srv s)[i := Some ((abs_client (mem s) c)\<lparr>a_out := a_out (abs_client (mem s) c) @ take n d\<rparr>)]"
    using u w(3) by (simp add: put_client_def abs_client_def)
  ultimately show ?thesis using run same_online_put by blast
qed

lemma deliver_loop_ok:
  assumes "server_ok held s" and "\<forall>i \<in> set ids. i < length (infos s) \<and> infos s ! i \<noteq> None" and "distinct ids"
    and "target msg = Some tgt" and "exclude msg = Some ex"
    and "0 < msg_size msg" and "msg_size msg \<le> length (content msg)" and "msg_size msg < int_max"
  shows "\<exists>s'. deliver_loop msg (tgt = CMD_TO_ALL) (map Some ids) n s = Inr (n + int (a_count ids tgt ex (abs_srv s)), s')
    \<and> server_ok held s' \<and> same_online s s'
    \<and> abs_srv s' = a_deliver ids tgt ex (take (msg_size msg) (content msg)) (abs_srv s)"
  using assms(1-3)
proof (induction ids arbitrary: s n)
  case Nil
  then show ?case by (simp add: a_count_def a_deliver_def)
next
  case (Cons i ids)
  let ?line = "take (msg_size msg) (content msg)"
  obtain c where i: "i < length (infos s)" "infos s ! i = Some c" using Cons.prems(2) by auto
  let ?a = "abs_client (mem s) c"
  have a: "abs_srv s ! i = Some ?a" using i by simp
  have rec: "receives tgt ex ?a \<longleftrightarrow> to_size (- 1) \<noteq> pub c \<and> ex \<noteq> name c \<and> name c \<noteq> UNKNOWN_CLIENT
      \<and> (tgt = CMD_TO_ALL \<or> tgt = name c)"
    by (auto simp: receives_def abs_client_def)
  show ?case
  proof (cases "receives tgt ex ?a")
    case False
    then have step: "deliver_loop msg (tgt = CMD_TO_ALL) (map Some (i # ids)) n s
        = deliver_loop msg (tgt = CMD_TO_ALL) (map Some ids) n s"
      using assms(4,5) i unfolding rec
      by (auto simp: slot_def deref_def filter_out_def name_field_def is_target_def)
    have "a_send tgt ex ?line (abs_srv s ! i) = abs_srv s ! i" unfolding a using False by (simp add: a_send_def)
    then have "(abs_srv s)[i := a_send tgt ex ?line (abs_srv s ! i)] = abs_srv s" by simp
    then have "a_deliver (i # ids) tgt ex ?line (abs_srv s) = a_deliver ids tgt ex ?line (abs_srv s)"
      "a_count (i # ids) tgt ex (abs_srv s) = a_count ids tgt ex (abs_srv s)"
      using a False by (simp_all add: a_deliver_def a_count_def)
    then show ?thesis using Cons.IH[of s n] Cons.prems step by simp
  next
    case True
    obtain s1 where s1: "with_client i (\<lambda>c m. send_msg_to_client c (content msg) (msg_size msg) m) s = Inr (msg_size msg, s1)"
      "server_ok held s1" "same_online s s1" "abs_srv s1 = (abs_srv s)[i := Some (?a\<lparr>a_out := a_out ?a @ ?line\<rparr>)]"
      using send_ok[OF Cons.prems(1) i assms(6-8)] by blast
    have step: "deliver_loop msg (tgt = CMD_TO_ALL) (map Some (i # ids)) n s
        = deliver_loop msg (tgt = CMD_TO_ALL) (map Some ids) (n + 1) s1"
      using assms(4,5) i True s1(1) unfolding rec
      by (auto simp: slot_def deref_def filter_out_def name_field_def is_target_def)
    have abs1: "abs_srv s1 = (abs_srv s)[i := a_send tgt ex ?line (abs_srv s ! i)]" using s1(4) a True by (simp add: a_send_def)
    have ids: "\<forall>j \<in> set ids. j < length (infos s1) \<and> infos s1 ! j \<noteq> None"
    proof
      fix j assume j: "j \<in> set ids"
      then have "j \<noteq> i" "j < length (infos s)" "infos s ! j \<noteq> None" using Cons.prems(2,3) by auto
      moreover have "length (infos s1) = length (infos s)" using s1(3) by (simp add: same_online_def)
      moreover have "abs_srv s1 ! j = abs_srv s ! j" using abs1 \<open>j \<noteq> i\<close> by simp
      ultimately show "j < length (infos s1) \<and> infos s1 ! j \<noteq> None" by auto
    qed
    have cnt: "a_count (i # ids) tgt ex (abs_srv s) = Suc (a_count ids tgt ex (abs_srv s1))"
    proof -
      have "abs_srv s1 ! x = abs_srv s ! x" if "x \<in> set ids" for x
        using that Cons.prems(3) unfolding abs1 by (metis distinct.simps(2) nth_list_update_neq)
      then have "filter (\<lambda>i. \<exists>a. abs_srv s1 ! i = Some a \<and> receives tgt ex a) ids
          = filter (\<lambda>i. \<exists>a. abs_srv s ! i = Some a \<and> receives tgt ex a) ids"
        by (intro filter_cong) auto
      then show ?thesis using a True by (simp add: a_count_def)
    qed
    show ?thesis
      using Cons.IH[OF s1(2) ids, of "n + 1"] Cons.prems(3) same_online_trans[OF s1(3)] cnt step abs1
      by (auto simp: a_deliver_def)
  qed
qed

section \<open>Steps of the pool under a server\<close>

lemma infos_frame:
  assumes ok: "infos_ok m held cs" and h: "held_ok m' (blocks (live cs) @ held')"
    and fr: "pool_frame m m' (set (blocks (live cs)))"
  shows "infos_ok m' held' cs" and "abs_infos m' cs = abs_infos m cs"
proof -
  have held: "held_ok m (blocks (live cs) @ held)" using ok by (simp add: infos_ok_def buffers_ok_def)
  have same: "block m' (node_cache n) = block m (node_cache n)" if "b \<in> set (live cs)" "n \<in> set b" for b n
  proof -
    have "node_cache n \<in> set (blocks (live cs))" using that by (auto simp: blocks_def)
    then show ?thesis using frame_block[OF fr] held_lt[OF held] by simp
  qed
  have "nodes_ok m' b" if "b \<in> set (live cs)" for b
    using nodes_ok_cong[of b, OF same[OF that]] ok that by (simp add: infos_ok_def buffers_ok_def)
  then show "infos_ok m' held' cs"
    using ok h pool_frame_env(2)[OF fr] fr by (simp add: infos_ok_def buffers_ok_def pool_frame_def)
  show "abs_infos m' cs = abs_infos m cs" by (rule abs_infos_cong, rule chunks_cong, rule same)
qed

lemma infos_held: "infos_ok m held cs \<Longrightarrow> held_ok m (blocks (live cs) @ held)"
  by (simp add: infos_ok_def buffers_ok_def)

lemma infos_mallocs:
  assumes "infos_ok m held cs" and "set ms \<subseteq> set (mallocs m)"
  shows "infos_ok (m\<lparr>mallocs := ms\<rparr>) held cs" and "abs_infos (m\<lparr>mallocs := ms\<rparr>) cs = abs_infos m cs"
  by (rule infos_frame[OF assms(1)]; use assms infos_held[OF assms(1)] in \<open>simp add: held_mallocs frame_mallocs\<close>)+

lemma infos_get_cache:
  assumes ok: "infos_ok m held cs" and n: "0 \<le> n" "n \<le> 2048"
  obtains c m' where "get_new_cache n m = Inr (Some c, m')" "infos_ok m' (c # held) cs"
    "abs_infos m' cs = abs_infos m cs" "block m' c = replicate (nat (class_for n)) NUL" "c < length (store m')"
    "slack m' = slack m"
proof -
  have h: "held_ok m (blocks (live cs) @ held)" and pl: "plenty m" using ok by (auto simp: infos_ok_def buffers_ok_def)
  then obtain c m' where g: "get_new_cache n m = Inr (Some c, m')" "handed_out n m m' (blocks (live cs) @ held) c"
    using get_new_cache_small[of m "blocks (live cs) @ held" n] n by (auto simp: held_ok_def)
  have h1: "held_ok m' (c # blocks (live cs) @ held)" using bp.get_some[OF g(1) h] by blast
  have h': "held_ok m' (blocks (live cs) @ c # held)" by (rule held_perm[OF h1]) simp
  have fr: "pool_frame m m' (set (blocks (live cs)))"
    by (rule pool_frame_mono[of m m' "set (blocks (live cs) @ held)"]) (use g(2) in \<open>auto simp: handed_out_def\<close>)
  have "block m' c = replicate (nat (class_for n)) NUL" using g(2) n(2) by (auto simp: handed_out_def blank_def)
  moreover have "c < length (store m')" by (rule held_lt[OF h1]) simp
  moreover have "slack m' = slack m" using fr by (simp add: pool_frame_def)
  ultimately show ?thesis using that g(1) infos_frame[OF ok h' fr] by blast
qed

lemma infos_cache_write:
  assumes ok: "infos_ok m (c # held) cs" and d: "length d \<le> length (block m c)"
  obtains m' where "cache_write c 0 d m = Inr m'" "infos_ok m' (c # held) cs" "abs_infos m' cs = abs_infos m cs"
    "block m' c = d @ drop (length d) (block m c)" "slack m' = slack m" "c < length (store m')"
proof -
  have h: "held_ok m (blocks (live cs) @ c # held)" using ok by (rule infos_held)
  have c: "c \<in> set (blocks (live cs) @ c # held)" by simp
  obtain m' where w: "cache_write c 0 d m = Inr m'"
    using cache_write_total[of c m 0 d] held_lt[OF h c] d by auto
  note wr = cache_write_Inr[OF w h c]
  have "c \<notin> set (blocks (live cs))" using held_distinct[OF h] by auto
  then have fr: "pool_frame m m' (set (blocks (live cs)))" by (intro pool_frame_mono[OF wr(4)]) auto
  have "slack m' = slack m" using fr by (simp add: pool_frame_def)
  moreover have "block m' c = d @ drop (length d) (block m c)" using wr(2) by (simp add: splice_at_def)
  moreover have "c < length (store m')" by (rule held_lt[OF wr(1) c])
  ultimately show ?thesis using that w infos_frame[OF ok wr(1) fr] by blast
qed

lemma infos_recycle:
  assumes ok: "infos_ok m (c # held) cs"
  obtains m' where "recycle_cache c m = Inr (0, m')" "infos_ok m' held cs" "abs_infos m' cs = abs_infos m cs"
    "slack m' = slack m"
proof -
  have h: "held_ok m (c # blocks (live cs) @ held)" by (rule held_perm[OF infos_held[OF ok]]) simp
  have pl: "plenty m" using ok by (simp add: infos_ok_def)
  obtain m' where r: "recycle_cache c m = Inr (0, m')"
    using recycle_cache_total[of m "c # blocks (live cs) @ held" c] h pl by (auto simp: held_ok_def)
  have h': "held_ok m' (blocks (live cs) @ held)" using bp.recycle[OF r h] by blast
  have "pool_frame m m' (- {c})" by (rule recycle_cache_ok(3)[OF r]) (use h in \<open>auto simp: held_ok_def\<close>)
  then have fr: "pool_frame m m' (set (blocks (live cs)))"
    by (rule pool_frame_mono) (use held_distinct[OF h] in auto)
  then have "slack m' = slack m" by (simp add: pool_frame_def)
  then show ?thesis using that r infos_frame[OF ok h' fr] by blast
qed

text \<open>A server whose pool moved on, with the same records.\<close>

lemma server_mem:
  assumes "server_ok held s" and "infos_ok m held' (infos s)"
  shows "server_ok held' (s\<lparr>mem := m\<rparr>)" and "same_online s (s\<lparr>mem := m\<rparr>)"
  using assms by (simp_all add: server_ok_def online_ok_def same_online_def)

lemma server_infos: "server_ok held s \<Longrightarrow> infos_ok (mem s) held (infos s)"
  by (simp add: server_ok_def)

lemma unlock_same: "online_ok s \<Longrightarrow> mutex_unlock (s\<lparr>server_lock := True, mem := m\<rparr>) = s\<lparr>mem := m\<rparr>"
  by (cases s) (simp add: mutex_unlock_def online_ok_def)

lemma get_client_list_ok:
  assumes ok: "server_ok held s"
  obtains s' where "get_client_list s = Inr (Some (map Some (clients s)), int (length (clients s)), s')"
    "server_ok held s'" "same_online s s'" "infos s' = infos s" "abs_srv s' = abs_srv s" "slack (mem s') = slack (mem s)"
proof -
  have on: "online_ok s" and io: "infos_ok (mem s) held (infos s)" using ok by (simp_all add: server_ok_def)
  obtain ms where ms: "malloc (mem s) = (True, (mem s)\<lparr>mallocs := ms\<rparr>)" "set ms \<subseteq> set (mallocs (mem s))"
    using malloc_plenty[of "mem s"] malloc_cases[of "mem s"] io by (force simp: infos_ok_def)
  let ?s = "s\<lparr>mem := (mem s)\<lparr>mallocs := ms\<rparr>\<rparr>"
  have "get_client_list s = Inr (Some (map Some (clients s)), int (length (clients s)), ?s)"
    using on ms(1) unlock_same[OF on, of "(mem s)\<lparr>mallocs := ms\<rparr>"]
    by (simp add: get_client_list_def mutex_lock_def online_ok_def fill_array_def)
  moreover note server_mem[OF ok infos_mallocs(1)[OF io ms(2)]]
  ultimately show ?thesis using that[of ?s] infos_mallocs(2)[OF io ms(2)] by simp
qed

lemma deliver_ok:
  assumes ok: "server_ok held s" and m: "target msg = Some tgt" "exclude msg = Some ex"
    and sz: "0 < msg_size msg" "msg_size msg \<le> length (content msg)" "msg_size msg < int_max"
  obtains s' where "deliver_msg_to_all_clients s msg = Inr (int (a_count (clients s) tgt ex (abs_srv s)), s')"
    "server_ok held s'" "same_online s s'"
    "abs_srv s' = a_deliver (clients s) tgt ex (take (msg_size msg) (content msg)) (abs_srv s)"
proof -
  obtain s1 where s1: "get_client_list s = Inr (Some (map Some (clients s)), int (length (clients s)), s1)"
    "server_ok held s1" "same_online s s1" "infos s1 = infos s" "abs_srv s1 = abs_srv s"
    using get_client_list_ok[OF ok] by blast
  have ids: "\<forall>i \<in> set (clients s). i < length (infos s1) \<and> infos s1 ! i \<noteq> None" "distinct (clients s)"
    using ok s1(4) by (auto simp: server_ok_def online_ok_def)
  obtain s2 where s2: "deliver_loop msg (tgt = CMD_TO_ALL) (map Some (clients s)) 0 s1
      = Inr (0 + int (a_count (clients s) tgt ex (abs_srv s1)), s2)" "server_ok held s2" "same_online s1 s2"
    "abs_srv s2 = a_deliver (clients s) tgt ex (take (msg_size msg) (content msg)) (abs_srv s1)"
    using deliver_loop_ok[OF s1(2) ids m sz] by blast
  have eq: "(0 = c_strcmp tgt CMD_TO_ALL) = (tgt = CMD_TO_ALL)" using c_strcmp_eq_0 by metis
  have "deliver_msg_to_all_clients s msg = Inr (int (a_count (clients s) tgt ex (abs_srv s)), s2)"
    using s1 s2(1) m(1) eq by (simp add: deliver_msg_to_all_clients_def is_msg_to_all_def name_field_def)
  then show ?thesis using that s2 same_online_trans[OF s1(3)] s1(5) by simp
qed

section \<open>Notices\<close>

lemma name_text_len: "name_text s \<Longrightarrow> length s < 30"
  by (simp add: name_text_def CLIENT_NAME_MAXIMUM_SIZE_def)

definition notice_msg :: "string \<Rightarrow> string \<Rightarrow> msg" where
  "notice_msg who suffix = \<lparr>target = Some CMD_TO_ALL, exclude = Some who,
     msg_size = length (sys_text (who @ '' '' @ suffix)), content = sys_text (who @ '' '' @ suffix) @ [NUL]\<rparr>"

lemma notice_run:
  assumes ok: "server_ok held s" and who: "name_text who" "LF \<notin> set who" and suf: "line_text suffix" "length suffix \<le> 20"
  obtains c s1 where "server_ok (c # held) s1" "same_online s s1" "infos s1 = infos s" "abs_srv s1 = abs_srv s"
    "slack (mem s1) = slack (mem s)"
    "notice who suffix k none s = bindr (k (Some (notice_msg who suffix)) s1) (\<lambda>(r, s2).
       bindr (recycle_cache c (mem s2)) (\<lambda>(_, m4). Inr (r, s2\<lparr>mem := m4\<rparr>)))"
proof -
  let ?n = "int (length who) + int (length suffix) + 2" and ?t = "who @ '' '' @ suffix"
  note io = server_infos[OF ok]
  have len: "length who < 30" using who(1) by (rule name_text_len)
  have sz: "to_int (add_size (add_size (length who) (length suffix)) 2) = ?n"
    using len suf(2) by (simp add: add_size_small to_int_small int_max_def)
  have n: "0 \<le> ?n" "?n \<le> 2048" using len suf(2) by simp_all
  obtain c m1 where g: "get_new_cache ?n (mem s) = Inr (Some c, m1)" "infos_ok m1 (c # held) (infos s)"
    "abs_infos m1 (infos s) = abs_srv s" "block m1 c = replicate (nat (class_for ?n)) NUL" "slack m1 = slack (mem s)"
    by (rule infos_get_cache[OF io n])
  have cls: "length ?t + 1 \<le> nat (class_for ?n)" using len suf(2) by (simp add: class_for_def)
  obtain m2 where w: "cache_write c 0 (?t @ [NUL]) m1 = Inr m2" "infos_ok m2 (c # held) (infos s)"
    "abs_infos m2 (infos s) = abs_infos m1 (infos s)"
    "block m2 c = (?t @ [NUL]) @ drop (length (?t @ [NUL])) (block m1 c)" "slack m2 = slack m1" "c < length (store m2)"
    by (rule infos_cache_write[OF g(2), of "?t @ [NUL]"]) (use cls g(4) in auto)
  let ?p = "?t @ NUL # (drop (length (?t @ [NUL])) (block m1 c) @ slack m2)"
  have p: "cache_pointer c 0 m2 = Inr ?p" using w(4,6) by (simp add: cache_pointer_def)
  have lt: "line_text ?t" using who suf(1) by (auto simp: line_text_def name_text_def)
  have cut: "cut_line ?p x = Inr ?p" for x using cut_line_NUL[OF lt] by simp
  have str: "c_str ?p = Inr ?t" by (rule c_str_append) (use lt in \<open>simp add: line_text_def\<close>)
  have all: "c_str (CMD_TO_ALL @ [NUL]) = Inr CMD_TO_ALL" "length CMD_TO_ALL < 30" by (simp_all add: wire)
  have "length ?t + 15 < int_max" using len suf(2) by (simp add: int_max_def)
  note made = create_sys_made[OF cut str all this, of m2 "length (block m2 c)"]
  have "plenty m2" using w(2) by (simp add: infos_ok_def)
  then obtain ms where ms: "set ms \<subseteq> set (mallocs m2)"
    "create_sys_msg_base_on_content (Some (CMD_TO_ALL @ [NUL])) ?p (length (block m2 c)) m2
      = Inr (Some \<lparr>target = Some CMD_TO_ALL, exclude = None, msg_size = length (sys_text ?t), content = sys_text ?t @ [NUL]\<rparr>,
         m2\<lparr>mallocs := ms\<rparr>)" using made by (auto simp: made_def)
  let ?m3 = "m2\<lparr>mallocs := ms\<rparr>"
  have io3: "infos_ok ?m3 (c # held) (infos s)" "abs_infos ?m3 (infos s) = abs_infos m2 (infos s)"
    using infos_mallocs[OF w(2) ms(1)] by simp_all
  have run: "notice who suffix k none s = bindr (k (Some (notice_msg who suffix)) (s\<lparr>mem := ?m3\<rparr>)) (\<lambda>(r, s2).
       bindr (recycle_cache c (mem s2)) (\<lambda>(_, m4). Inr (r, s2\<lparr>mem := m4\<rparr>)))"
    unfolding notice_def Let_def sz using g(1) w(1) p ms(2) len
    by (simp add: strcpy_name_def CLIENT_NAME_MAXIMUM_SIZE_def notice_msg_def)
  show ?thesis
    by (rule that[OF server_mem(1)[OF ok io3(1)] _ _ _ _ run])
      (use io3 w(3,5) g(3,5) in \<open>simp_all add: same_online_def\<close>)
qed

lemma suffix_texts: "line_text MSG_LOGIN_SUFFIX" "length MSG_LOGIN_SUFFIX \<le> 20"
  "line_text MSG_LOGOUT_SUFFIX" "length MSG_LOGOUT_SUFFIX \<le> 20"
  by (simp_all add: MSG_LOGIN_SUFFIX_def MSG_LOGOUT_SUFFIX_def line_text_def)

lemma notice_msg_ok:
  assumes "name_text who" and "length suffix \<le> 20"
  shows "0 < msg_size (notice_msg who suffix)" "msg_size (notice_msg who suffix) \<le> length (content (notice_msg who suffix))"
    "msg_size (notice_msg who suffix) < int_max"
    "take (msg_size (notice_msg who suffix)) (content (notice_msg who suffix)) = sys_text (who @ '' '' @ suffix)"
  using name_text_len[OF assms(1)] assms(2) by (simp_all add: notice_msg_def sys_text_def int_max_def)

end
