(* ===== verification/Dispatch.thy ===== *)
theory Dispatch
  imports ServerSpec
begin

text \<open>
  What the server does with the lines of a client: \<open>a_handle\<close> is the promise for one line
  over the abstract state, \<open>drain_lines\<close> says which lines a reading buffer offers, and
  \<open>try_to_handle_msg_ok\<close> shows that \<^verbatim>\<open>try_to_handle_msg\<close> returns and does exactly that.
\<close>

section \<open>Finding a command\<close>

lemma c_match_NUL: "NUL \<in> set p \<Longrightarrow> NUL \<notin> set cmd \<Longrightarrow> c_match cmd p = Inr (take (length cmd) p = cmd)"
  by (induction cmd p rule: c_match.induct) auto

lemma c_strstr_NUL:
  "NUL \<in> set p \<Longrightarrow> NUL \<notin> set cmd \<Longrightarrow> cmd \<noteq> [] \<Longrightarrow> \<exists>r. c_strstr p cmd = Inr r \<and> (r = Some 0 \<longleftrightarrow> take (length cmd) p = cmd)"
proof (induction p)
  case (Cons c p)
  note m = c_match_NUL[OF Cons.prems(1,2)]
  show ?case
  proof (cases "take (length cmd) (c # p) = cmd \<or> c = NUL")
    case True
    then show ?thesis using m by auto
  next
    case False
    then obtain r where "c_strstr p cmd = Inr r" using Cons by auto
    then show ?thesis using m False by auto
  qed
qed simp

definition starts :: "string \<Rightarrow> string \<Rightarrow> bool" where
  "starts cmd line \<longleftrightarrow> take (length cmd) line = cmd"

lemma starts_with_line:
  assumes "NUL \<in> set sl" and "NUL \<notin> set cmd" and "cmd \<noteq> []" and "LF \<notin> set cmd"
  shows "starts_with (line @ LF # sl) cmd = Inr (starts cmd line)"
proof -
  obtain r where r: "c_strstr (line @ LF # sl) cmd = Inr r" "r = Some 0 \<longleftrightarrow> take (length cmd) (line @ LF # sl) = cmd"
    using c_strstr_NUL[of "line @ LF # sl" cmd] assms by auto
  have "take (length cmd) (line @ LF # sl) = cmd \<longleftrightarrow> take (length cmd) line = cmd"
  proof (cases "length cmd \<le> length line")
    case False
    then obtain n where "length cmd - length line = Suc n" by (cases "length cmd - length line") auto
    then have "LF \<in> set (take (length cmd) (line @ LF # sl))" by simp
    moreover have "length (take (length cmd) line) \<noteq> length cmd" using False by simp
    ultimately show ?thesis using assms(4) by metis
  qed simp
  then show ?thesis using r by (simp add: starts_with_def starts_def)
qed

lemma commands: "NUL \<notin> set CMD_LOGIN" "CMD_LOGIN \<noteq> []" "LF \<notin> set CMD_LOGIN" "length CMD_LOGIN = 7"
  "NUL \<notin> set CMD_TO_ALL" "CMD_TO_ALL \<noteq> []" "LF \<notin> set CMD_TO_ALL" "length CMD_TO_ALL = 7"
  "NUL \<notin> set CMD_TO_C" "CMD_TO_C \<noteq> []" "LF \<notin> set CMD_TO_C" "length CMD_TO_C = 5"
  by (simp_all add: wire)

section \<open>The promise for one line\<close>

definition a_update :: "nat \<Rightarrow> (aclient \<Rightarrow> aclient) \<Rightarrow> aclient option list \<Rightarrow> aclient option list" where
  "a_update i f v = v[i := map_option f (v ! i)]"

definition a_say :: "nat list \<Rightarrow> string \<Rightarrow> string \<Rightarrow> string \<Rightarrow> aclient option list \<Rightarrow> nat \<times> aclient option list" where
  "a_say ids tgt ex line v = (a_count ids tgt ex v, a_deliver ids tgt ex line v)"

definition to_c_target :: "string \<Rightarrow> string" where
  "to_c_target line = takeWhile (\<lambda>c. c \<noteq> CHR '':'') (drop 5 line)"

definition a_handle :: "nat list \<Rightarrow> nat \<Rightarrow> string \<Rightarrow> aclient option list \<Rightarrow> nat \<times> aclient option list" where
  "a_handle ids i line v =
     (let me = a_name (the (v ! i)) in
      if starts CMD_LOGIN line then
        (let who = take 29 (drop 7 line)
         in a_say ids CMD_TO_ALL who (sys_text (who @ '' '' @ MSG_LOGIN_SUFFIX)) (a_update i (\<lambda>a. a\<lparr>a_name := who\<rparr>) v))
      else if starts CMD_TO_ALL line then a_say ids CMD_TO_ALL me (p2p_text me (drop 8 line)) v
      else if starts CMD_TO_C line then
        a_say ids (to_c_target line) me (p2p_text me (drop (length (to_c_target line) + 7) line)) v
      else (0, v))"

text \<open>
  The lines the parser copes with: a broadcast has a byte behind \<^verbatim>\<open>TO-ALL:\<close>, a private
  message has a colon with a byte behind it, and its target fits a name field.
\<close>

definition good_line :: "string \<Rightarrow> bool" where
  "good_line line \<longleftrightarrow> line_text line \<and> length line \<le> 512
     \<and> (starts CMD_TO_ALL line \<longrightarrow> 8 \<le> length line)
     \<and> (starts CMD_TO_C line \<longrightarrow> CHR '':'' \<in> set line \<and> length (to_c_target line) < 30
          \<and> length (to_c_target line) + 7 \<le> length line)"

section \<open>Redirection of one line\<close>

lemma put_client_same_mem: "(put_client i c s)\<lparr>mem := mem s\<rparr> = put_client i c s"
  by (simp add: put_client_def)

lemma rename_ok:
  assumes ok: "server_ok held s" and i: "i < length (infos s)" "infos s ! i = Some c"
    and who: "name_text who" "LF \<notin> set who"
  shows "server_ok held (put_client i (c\<lparr>name := who\<rparr>) s)"
    and "abs_srv (put_client i (c\<lparr>name := who\<rparr>) s) = a_update i (\<lambda>a. a\<lparr>a_name := who\<rparr>) (abs_srv s)"
    and "same_online s (put_client i (c\<lparr>name := who\<rparr>) s)"
proof -
  let ?c = "c\<lparr>name := who\<rparr>"
  have io: "infos_ok (mem s) held (infos s)" and on: "online_ok s" using ok by (simp_all add: server_ok_def)
  have "client_ok c" using io i by (metis infos_ok_def nth_mem)
  then have co: "client_ok ?c" using who by (simp add: client_ok_def)
  obtain others where b: "buffer_ok (mem s) others (reading_buffer c)" and
    up: "\<And>rb m' c'. buffer_ok m' others rb \<Longrightarrow> pool_frame (mem s) m' (set others) \<Longrightarrow> reading_buffer c' = rb
      \<Longrightarrow> writing_buffer c' = writing_buffer c \<Longrightarrow> client_ok c'
      \<Longrightarrow> infos_ok m' held ((infos s)[i := Some c'])
        \<and> abs_infos m' ((infos s)[i := Some c']) = (abs_srv s)[i := Some (abs_client m' c')]
        \<and> chunks m' (writing_buffer c) = chunks (mem s) (writing_buffer c)"
    using reading_focus[OF io i] by blast
  have u: "infos_ok (mem s) held ((infos s)[i := Some ?c])
        \<and> abs_infos (mem s) ((infos s)[i := Some ?c]) = (abs_srv s)[i := Some (abs_client (mem s) ?c)]"
    using up[OF b pool_frame_refl _ _ co] by simp
  have "online_ok ((put_client i ?c s)\<lparr>mem := mem s\<rparr>)" by (rule online_ok_put[OF on i]) simp
  then have "online_ok (put_client i ?c s)" by (simp only: put_client_same_mem)
  with u show "server_ok held (put_client i ?c s)" by (simp add: server_ok_def put_client_def)
  show "abs_srv (put_client i ?c s) = a_update i (\<lambda>a. a\<lparr>a_name := who\<rparr>) (abs_srv s)"
    using u i by (simp add: put_client_def a_update_def abs_client_def)
  show "same_online s (put_client i ?c s)" by (simp add: same_online_def put_client_def)
qed

lemma user_login_ok:
  assumes ok: "server_ok held s" and i: "i < length (infos s)" "infos s ! i = Some c"
    and l: "line_text line" "starts CMD_LOGIN line"
  obtains s' where "user_login i (line @ [LF]) s = Inr (Some (notice_msg (take 29 (drop 7 line)) MSG_LOGIN_SUFFIX), s')"
    "server_ok held s'" "same_online s s'" "name_text (take 29 (drop 7 line))"
    "abs_srv s' = a_update i (\<lambda>a. a\<lparr>a_name := take 29 (drop 7 line)\<rparr>) (abs_srv s)"
proof -
  let ?who = "take 29 (drop 7 line)" and ?sl = "slack (mem s)"
  have len: "7 \<le> length line" using l(2) commands(4) unfolding starts_def by (metis length_take min.absorb_iff2)
  have cut: "cut_line ((line @ [LF]) @ ?sl) (length (line @ [LF])) = Inr (line @ NUL # ?sl)"
    using cut_line_LF[OF l(1), of "length (line @ [LF])" ?sl] by simp
  have str: "c_str (drop 7 (line @ NUL # ?sl)) = Inr (drop 7 line)"
    using c_str_append[of "drop 7 line" ?sl] l(1) len by (auto simp: line_text_def dest: in_set_dropD)
  obtain c' where up: "update_client_name c (Some (drop 7 (line @ NUL # ?sl))) = Inr c'"
    using str by (simp add: update_client_name_def)
  have c': "c' = c\<lparr>name := ?who\<rparr>" "name_text ?who" using update_client_name_Inr[OF up] str by auto
  have lf: "LF \<notin> set ?who" using l(1) by (auto simp: line_text_def dest: in_set_takeD in_set_dropD)
  note rn = rename_ok[OF ok i c'(2) lf]
  let ?s = "put_client i (c\<lparr>name := ?who\<rparr>) s"
  obtain k s1 where n: "server_ok (k # held) s1" "same_online ?s s1" "infos s1 = infos ?s" "abs_srv s1 = abs_srv ?s"
    "notice ?who MSG_LOGIN_SUFFIX (\<lambda>message s. Inr (message, s)) None ?s
      = bindr (Inr (Some (notice_msg ?who MSG_LOGIN_SUFFIX), s1)) (\<lambda>(r, s2).
       bindr (recycle_cache k (mem s2)) (\<lambda>(_, m4). Inr (r, s2\<lparr>mem := m4\<rparr>)))"
    by (rule notice_run[OF rn(1) c'(2) lf suffix_texts(1,2), where k = "\<lambda>message s. Inr (message, s)" and none = None])
  obtain m4 where r: "recycle_cache k (mem s1) = Inr (0, m4)" "infos_ok m4 held (infos s1)" "abs_infos m4 (infos s1) = abs_srv s1"
    using infos_recycle[OF server_infos[OF n(1)]] by blast
  have wc: "with_client i (\<lambda>c m. bindr (update_client_name c (Some (drop (length CMD_LOGIN) (line @ NUL # ?sl))))
      (\<lambda>c'. Inr (name c', c', m))) s = Inr (?who, ?s)"
    using i up by (simp add: with_client_def deref_def commands(4) c'(1) put_client_same_mem)
  have "user_login i (line @ [LF]) s = Inr (Some (notice_msg ?who MSG_LOGIN_SUFFIX), s1\<lparr>mem := m4\<rparr>)"
    using cut wc n(5) r(1) by (simp add: user_login_def)
  moreover have "same_online s (s1\<lparr>mem := m4\<rparr>)"
    using same_online_trans[OF same_online_trans[OF rn(3) n(2)] server_mem(2)[OF n(1) r(2)]] .
  ultimately show ?thesis using that server_mem(1)[OF n(1) r(2)] c'(2) r(3) n(4) rn(2) by simp
qed

text \<open>The message that a line of a client becomes.\<close>

definition p2p_msg :: "string \<Rightarrow> string \<Rightarrow> string \<Rightarrow> msg" where
  "p2p_msg sender tgt body = \<lparr>target = Some tgt, exclude = Some sender, msg_size = length (p2p_text sender body),
     content = p2p_text sender body @ [NUL]\<rparr>"

lemma p2p_msg_ok:
  assumes "name_text sender" and "length body \<le> 512"
  shows "0 < msg_size (p2p_msg sender tgt body)" "msg_size (p2p_msg sender tgt body) \<le> length (content (p2p_msg sender tgt body))"
    "msg_size (p2p_msg sender tgt body) < int_max"
    "take (msg_size (p2p_msg sender tgt body)) (content (p2p_msg sender tgt body)) = p2p_text sender body"
proof -
  show "0 < msg_size (p2p_msg sender tgt body)" "msg_size (p2p_msg sender tgt body) < int_max"
    using name_text_len[OF assms(1)] assms(2) by (simp_all add: p2p_msg_def p2p_text_def int_max_def)
qed (simp_all add: p2p_msg_def)

lemma redirect_p2p_ok:
  assumes ok: "server_ok held s" and i: "i < length (infos s)" "infos s ! i = Some c"
    and l: "line_text line" "length line \<le> 512" "off \<le> length line" and t: "c_str t = Inr tgt" "length tgt < 30"
  obtains s' where "redirect_p2p i (Some t) (line @ [LF]) off s = Inr (Some (p2p_msg (name c) tgt (drop off line)), s')"
    "server_ok held s'" "same_online s s'" "abs_srv s' = abs_srv s" "infos s' = infos s" "slack (mem s') = slack (mem s)"
proof -
  note io = server_infos[OF ok]
  let ?sl = "slack (mem s)" and ?body = "drop off line"
  have nm: "name_text (name c)" using io i unfolding infos_ok_def client_ok_def by (metis nth_mem)
  have lt: "line_text ?body" using l(1) by (auto simp: line_text_def dest: in_set_dropD)
  have mem: "drop off ((line @ [LF]) @ ?sl) = ?body @ LF # ?sl" using l(3) by simp
  have cut: "cut_line (?body @ LF # ?sl) (length (line @ [LF]) - off) = Inr (?body @ NUL # ?sl)"
    by (rule cut_line_LF[OF lt]) (use l(3) in simp)
  have str: "c_str (?body @ NUL # ?sl) = Inr ?body" by (rule c_str_append) (use lt in \<open>simp add: line_text_def\<close>)
  have "length ?body + 39 < int_max" using l(2) by (simp add: int_max_def)
  note made = create_p2p_made[OF cut str t name_text_len[OF nm] this, of "mem s"]
  have "plenty (mem s)" using io by (simp add: infos_ok_def)
  then obtain ms where ms: "set ms \<subseteq> set (mallocs (mem s))"
    "create_p2p_msg_base_on_content (name c) (Some t) (?body @ LF # ?sl) (length (line @ [LF]) - off) (mem s)
      = Inr (Some (p2p_msg (name c) tgt ?body), (mem s)\<lparr>mallocs := ms\<rparr>)"
    using made by (auto simp: made_def p2p_msg_def)
  let ?s = "s\<lparr>mem := (mem s)\<lparr>mallocs := ms\<rparr>\<rparr>"
  have "redirect_p2p i (Some t) (line @ [LF]) off s = Inr (Some (p2p_msg (name c) tgt ?body), ?s)"
    using i ms(2) l(3) unfolding redirect_p2p_def mem by (simp add: deref_def)
  then show ?thesis
    using that[of ?s] server_mem[OF ok infos_mallocs(1)[OF io ms(1)]] infos_mallocs(2)[OF io ms(1)] by simp
qed

lemma to_c_split:
  assumes "starts CMD_TO_C line" and "CHR '':'' \<in> set line"
  shows "\<exists>rest. line = CMD_TO_C @ to_c_target line @ CHR '':'' # rest" and "CHR '':'' \<notin> set (to_c_target line)"
proof -
  have l: "line = CMD_TO_C @ drop 5 line" using assms(1) commands(12) unfolding starts_def by (metis append_take_drop_id)
  have "CHR '':'' \<notin> set CMD_TO_C" by (simp add: wire)
  then have "CHR '':'' \<in> set (drop 5 line)" using assms(2) l by (metis UnE set_append)
  then obtain xs ys where "drop 5 line = xs @ CHR '':'' # ys" "CHR '':'' \<notin> set xs" using split_list_first by fastforce
  moreover from this have "takeWhile (\<lambda>c. c \<noteq> CHR '':'') (xs @ CHR '':'' # ys) = xs"
    by (subst takeWhile_append2) auto
  ultimately have "drop 5 line = to_c_target line @ CHR '':'' # ys" by (simp add: to_c_target_def)
  then show "\<exists>rest. line = CMD_TO_C @ to_c_target line @ CHR '':'' # rest" using l by metis
  show "CHR '':'' \<notin> set (to_c_target line)" unfolding to_c_target_def using set_takeWhileD by fastforce
qed

lemma redirect_to_c_ok:
  assumes ok: "server_ok held s" and i: "i < length (infos s)" "infos s ! i = Some c"
    and l: "good_line line" "starts CMD_TO_C line"
  obtains s' where "redirect_to_c i (line @ [LF]) s
      = Inr (Some (p2p_msg (name c) (to_c_target line) (drop (length (to_c_target line) + 7) line)), s')"
    "server_ok held s'" "same_online s s'" "abs_srv s' = abs_srv s"
proof -
  note io = server_infos[OF ok]
  let ?t = "to_c_target line" and ?sl = "slack (mem s)"
  have g: "CHR '':'' \<in> set line" "length ?t < 30" "length ?t + 7 \<le> length line" "line_text line" "length line \<le> 512"
    using l by (auto simp: good_line_def)
  obtain rest where line: "line = CMD_TO_C @ ?t @ CHR '':'' # rest" using to_c_split(1)[OF l(2) g(1)] by blast
  have t: "NUL \<notin> set ?t"
  proof
    assume "NUL \<in> set ?t"
    then have "NUL \<in> set line" unfolding to_c_target_def by (meson in_set_dropD set_takeWhileD)
    then show False using g(4) by (simp add: line_text_def)
  qed
  then have nul: "NUL \<notin> set ?t" "NUL \<notin> set (CMD_TO_C @ ?t)" "CHR '':'' \<notin> set (CMD_TO_C @ ?t)"
    using to_c_split(2)[OF l(2) g(1)] by (simp_all add: wire)
  have ind: "c_strchr (CHR '':'') ((line @ [LF]) @ ?sl) = Inr (Some (length ?t + 5))"
    using c_strchr_hit[OF nul(3,2), of "rest @ LF # ?sl"] commands(12) by (subst line) simp
  have part: "take (length ?t) (drop 5 ((line @ [LF]) @ ?sl)) = ?t"
    using commands(12) by (subst (2) line) simp
  have n: "0 \<le> int (length ?t)" "int (length ?t) \<le> 2048" using g(2) by simp_all
  obtain k m1 where c: "get_new_cache (int (length ?t)) (mem s) = Inr (Some k, m1)" "infos_ok m1 (k # held) (infos s)"
    "abs_infos m1 (infos s) = abs_srv s" "block m1 k = replicate (nat (class_for (int (length ?t)))) NUL"
    "k < length (store m1)" "slack m1 = slack (mem s)"
    by (rule infos_get_cache[OF io n])
  have cls: "class_for (int (length ?t)) = 64" using g(2) by (simp add: class_for_def)
  obtain m2 where w: "cache_write k 0 ?t m1 = Inr m2" "infos_ok m2 (k # held) (infos s)"
    "abs_infos m2 (infos s) = abs_infos m1 (infos s)"
    "block m2 k = ?t @ drop (length ?t) (block m1 k)" "slack m2 = slack m1" "k < length (store m2)"
    by (rule infos_cache_write[OF c(2), of ?t]) (use g(2) c(4) cls in simp)
  obtain z where z: "64 - length ?t = Suc z" using g(2) by (cases "64 - length ?t") auto
  have p: "cache_pointer k 0 m2 = Inr (?t @ NUL # (replicate z NUL @ slack m2))"
    using w(4,6) c(4) cls z by (simp add: cache_pointer_def)
  have tgt: "c_str (?t @ NUL # (replicate z NUL @ slack m2)) = Inr ?t" by (rule c_str_append[OF nul(1)])
  let ?s2 = "s\<lparr>mem := m2\<rparr>"
  note s2 = server_mem[OF ok w(2)]
  have i2: "i < length (infos ?s2)" "infos ?s2 ! i = Some c" using i by simp_all
  have off: "length ?t + 5 + 2 \<le> length line" using g(3) by simp
  obtain s3 where s3: "redirect_p2p i (Some (?t @ NUL # (replicate z NUL @ slack m2))) (line @ [LF]) (length ?t + 5 + 2) ?s2
      = Inr (Some (p2p_msg (name c) ?t (drop (length ?t + 5 + 2) line)), s3)"
    "server_ok (k # held) s3" "same_online ?s2 s3" "abs_srv s3 = abs_srv ?s2" "infos s3 = infos ?s2"
    using redirect_p2p_ok[OF s2(1) i2 g(4,5) off tgt g(2)] by blast
  obtain m4 where r: "recycle_cache k (mem s3) = Inr (0, m4)" "infos_ok m4 held (infos s3)" "abs_infos m4 (infos s3) = abs_srv s3"
    using infos_recycle[OF server_infos[OF s3(2)]] by blast
  have "redirect_to_c i (line @ [LF]) s = Inr (Some (p2p_msg (name c) ?t (drop (length ?t + 7) line)), s3\<lparr>mem := m4\<rparr>)"
    unfolding redirect_to_c_def using ind part c(1) w(1) p s3(1) r(1) by (simp add: commands(12) Let_def add.commute)
  then show ?thesis
    using that server_mem(1)[OF s3(2) r(2)] same_online_trans[OF same_online_trans[OF s2(2) s3(3)] server_mem(2)[OF s3(2) r(2)]]
      r(3) s3(4) w(3) c(3) by simp
qed

lemma starts_nth: "starts cmd line \<Longrightarrow> n < length cmd \<Longrightarrow> line ! n = cmd ! n"
  unfolding starts_def by (metis nth_take)

lemma starts_exclusive:
  "starts CMD_LOGIN line \<Longrightarrow> \<not> starts CMD_TO_ALL line" "starts CMD_LOGIN line \<Longrightarrow> \<not> starts CMD_TO_C line"
  "starts CMD_TO_ALL line \<Longrightarrow> \<not> starts CMD_TO_C line"
  using starts_nth[of CMD_LOGIN line 0] starts_nth[of CMD_TO_ALL line 0] starts_nth[of CMD_TO_C line 0]
    starts_nth[of CMD_TO_ALL line 3] starts_nth[of CMD_TO_C line 3]
  by (auto simp: wire)

section \<open>One line: redirection and delivery\<close>

lemma redirect_ok:
  assumes ok: "server_ok held s" and i: "i < length (infos s)" "infos s ! i = Some c" and l: "good_line line"
  shows "starts CMD_LOGIN line \<Longrightarrow> redirect i (line @ [LF]) s = user_login i (line @ [LF]) s"
    and "starts CMD_TO_ALL line \<Longrightarrow> redirect i (line @ [LF]) s
      = redirect_p2p i (Some (CMD_TO_ALL @ [NUL])) (line @ [LF]) 8 s"
    and "starts CMD_TO_C line \<Longrightarrow> redirect i (line @ [LF]) s = redirect_to_c i (line @ [LF]) s"
    and "\<not> starts CMD_LOGIN line \<Longrightarrow> \<not> starts CMD_TO_ALL line \<Longrightarrow> \<not> starts CMD_TO_C line
      \<Longrightarrow> redirect i (line @ [LF]) s = Inr (None, s)"
proof -
  have nul: "NUL \<in> set (slack (mem s))" using server_infos[OF ok] by (simp add: infos_ok_def)
  obtain lg where "c_str (line @ LF # slack (mem s)) = Inr lg"
    using c_str_total[of "line @ LF # slack (mem s)"] nul by auto
  note this and starts_with_line[OF nul commands(1-3), of line] and starts_with_line[OF nul commands(5-7), of line]
    and starts_with_line[OF nul commands(9-11), of line]
  then show "starts CMD_LOGIN line \<Longrightarrow> redirect i (line @ [LF]) s = user_login i (line @ [LF]) s"
    "starts CMD_TO_ALL line \<Longrightarrow> redirect i (line @ [LF]) s
      = redirect_p2p i (Some (CMD_TO_ALL @ [NUL])) (line @ [LF]) 8 s"
    "starts CMD_TO_C line \<Longrightarrow> redirect i (line @ [LF]) s = redirect_to_c i (line @ [LF]) s"
    "\<not> starts CMD_LOGIN line \<Longrightarrow> \<not> starts CMD_TO_ALL line \<Longrightarrow> \<not> starts CMD_TO_C line
      \<Longrightarrow> redirect i (line @ [LF]) s = Inr (None, s)"
    using starts_exclusive[of line]
    by (cases "starts CMD_LOGIN line"; cases "starts CMD_TO_ALL line"; simp add: redirect_def commands(8) Let_def)+
qed

lemma same_online_clients: "same_online s s' \<Longrightarrow> clients s' = clients s"
  by (simp add: same_online_def)

lemma handle_redirected:
  assumes r: "redirect i msg s = Inr (Some m, s1)" and ok: "server_ok held s1" and so: "same_online s s1"
    and m: "target m = Some tgt" "exclude m = Some ex"
    and sz: "0 < msg_size m" "msg_size m \<le> length (content m)" "msg_size m < int_max"
    and v: "abs_srv s1 = v" "take (msg_size m) (content m) = line'"
  obtains s' where "handle_msg i msg s = Inr (int (fst (a_say (clients s) tgt ex line' v)), s')" "server_ok held s'"
    "same_online s s'" "abs_srv s' = snd (a_say (clients s) tgt ex line' v)"
proof -
  obtain s' where d: "deliver_msg_to_all_clients s1 m = Inr (int (a_count (clients s1) tgt ex (abs_srv s1)), s')"
    "server_ok held s'" "same_online s1 s'"
    "abs_srv s' = a_deliver (clients s1) tgt ex (take (msg_size m) (content m)) (abs_srv s1)"
    by (rule deliver_ok[OF ok m sz])
  show ?thesis
    using that[of s'] r d same_online_trans[OF so d(3)] v same_online_clients[OF so] by (simp add: handle_msg_def a_say_def)
qed

lemma handle_msg_ok:
  assumes ok: "server_ok held s" and i: "i < length (infos s)" "infos s ! i = Some c" and l: "good_line line"
  obtains s' where "handle_msg i (line @ [LF]) s = Inr (int (fst (a_handle (clients s) i line (abs_srv s))), s')"
    "server_ok held s'" "same_online s s'" "abs_srv s' = snd (a_handle (clients s) i line (abs_srv s))"
proof -
  note rd = redirect_ok[OF ok i l]
  have io: "infos_ok (mem s) held (infos s)" by (rule server_infos[OF ok])
  have nm: "name_text (name c)" using io i unfolding infos_ok_def client_ok_def by (metis nth_mem)
  have me: "a_name (the (abs_srv s ! i)) = name c" using i by (simp add: abs_client_def)
  have lt: "line_text line" "length line \<le> 512" using l by (auto simp: good_line_def)
  have body: "length (drop n line) \<le> 512" for n using lt(2) by simp
  consider (login) "starts CMD_LOGIN line" | (all) "\<not> starts CMD_LOGIN line" "starts CMD_TO_ALL line"
    | (one) "\<not> starts CMD_LOGIN line" "\<not> starts CMD_TO_ALL line" "starts CMD_TO_C line"
    | (other) "\<not> starts CMD_LOGIN line" "\<not> starts CMD_TO_ALL line" "\<not> starts CMD_TO_C line" by blast
  then show ?thesis
  proof cases
    case login
    let ?who = "take 29 (drop 7 line)"
    obtain s1 where u: "user_login i (line @ [LF]) s = Inr (Some (notice_msg ?who MSG_LOGIN_SUFFIX), s1)"
      "server_ok held s1" "same_online s s1" "name_text ?who"
      "abs_srv s1 = a_update i (\<lambda>a. a\<lparr>a_name := ?who\<rparr>) (abs_srv s)"
      by (rule user_login_ok[OF ok i lt(1) login])
    note nk = notice_msg_ok[OF u(4) suffix_texts(2)]
    have r: "redirect i (line @ [LF]) s = Inr (Some (notice_msg ?who MSG_LOGIN_SUFFIX), s1)" using rd(1)[OF login] u(1) by simp
    have t: "target (notice_msg ?who MSG_LOGIN_SUFFIX) = Some CMD_TO_ALL" "exclude (notice_msg ?who MSG_LOGIN_SUFFIX) = Some ?who"
      by (simp_all add: notice_msg_def)
    show ?thesis
      by (rule handle_redirected[OF r u(2,3) t nk(1-3) u(5) nk(4)], rule that) (simp_all add: a_handle_def login Let_def)
  next
    case all
    have "c_str (CMD_TO_ALL @ [NUL]) = Inr CMD_TO_ALL" "length CMD_TO_ALL < 30" by (simp_all add: wire)
    moreover have "8 \<le> length line" using l all by (simp add: good_line_def)
    ultimately obtain s1 where u: "redirect_p2p i (Some (CMD_TO_ALL @ [NUL])) (line @ [LF]) 8 s
        = Inr (Some (p2p_msg (name c) CMD_TO_ALL (drop 8 line)), s1)" "server_ok held s1" "same_online s s1" "abs_srv s1 = abs_srv s"
      using redirect_p2p_ok[OF ok i lt] by metis
    note pk = p2p_msg_ok[OF nm body[of 8], where tgt = CMD_TO_ALL]
    have r: "redirect i (line @ [LF]) s = Inr (Some (p2p_msg (name c) CMD_TO_ALL (drop 8 line)), s1)"
      using rd(2)[OF all(2)] u(1) by simp
    have t: "target (p2p_msg (name c) CMD_TO_ALL (drop 8 line)) = Some CMD_TO_ALL"
      "exclude (p2p_msg (name c) CMD_TO_ALL (drop 8 line)) = Some (name c)" by (simp_all add: p2p_msg_def)
    show ?thesis
      by (rule handle_redirected[OF r u(2,3) t pk(1-3) u(4) pk(4)], rule that) (simp_all add: a_handle_def all Let_def me)
  next
    case one
    let ?t = "to_c_target line" and ?b = "drop (length (to_c_target line) + 7) line"
    obtain s1 where u: "redirect_to_c i (line @ [LF]) s = Inr (Some (p2p_msg (name c) ?t ?b), s1)"
      "server_ok held s1" "same_online s s1" "abs_srv s1 = abs_srv s"
      by (rule redirect_to_c_ok[OF ok i l one(3)])
    note pk = p2p_msg_ok[OF nm body[of "length ?t + 7"], where tgt = ?t]
    have r: "redirect i (line @ [LF]) s = Inr (Some (p2p_msg (name c) ?t ?b), s1)"
      using rd(3)[OF one(3)] u(1) by simp
    have t: "target (p2p_msg (name c) ?t ?b) = Some ?t" "exclude (p2p_msg (name c) ?t ?b) = Some (name c)"
      by (simp_all add: p2p_msg_def)
    show ?thesis
      by (rule handle_redirected[OF r u(2,3) t pk(1-3) u(4) pk(4)], rule that) (simp_all add: a_handle_def one Let_def me)
  next
    case other
    then show ?thesis
      using that[of s] rd(4)[OF other] ok by (simp add: a_handle_def handle_msg_def)
  qed
qed

section \<open>The lines that a reading buffer offers\<close>

text \<open>
  Only the first chunk is searched for the end of a line; a NUL ends the search like the end
  of the chunk does.
\<close>

definition line_size :: "string \<Rightarrow> nat" where
  "line_size ch = (if LF \<in> set (takeWhile (\<lambda>c. c \<noteq> NUL) ch) then Suc (length (takeWhile (\<lambda>c. c \<noteq> LF) ch)) else 0)"

lemma takeWhile_short: "x \<in> set ch \<Longrightarrow> \<not> P x \<Longrightarrow> length (takeWhile P ch) < length ch"
  by (induction ch) auto

lemma line_size_le: "line_size ch \<le> length ch"
proof (cases "LF \<in> set (takeWhile (\<lambda>c. c \<noteq> NUL) ch)")
  case True
  then have "LF \<in> set ch" using set_takeWhileD by fast
  from takeWhile_short[OF this] show ?thesis by (simp add: line_size_def Suc_le_eq)
qed (simp add: line_size_def)

lemma c_strchr_line:
  "NUL \<in> set q \<Longrightarrow> \<exists>r. c_strchr LF (ch @ q) = Inr r \<and>
     (if LF \<in> set (takeWhile (\<lambda>c. c \<noteq> NUL) ch) then r = Some (length (takeWhile (\<lambda>c. c \<noteq> LF) ch))
      else \<forall>k. r = Some k \<longrightarrow> length ch \<le> k)"
proof (induction ch)
  case Nil
  have "\<exists>r. c_strchr LF q = Inr r" using Nil by (induction q) auto
  then show ?case by auto
next
  case (Cons x ch)
  from Cons.IH[OF Cons.prems] obtain r where r: "c_strchr LF (ch @ q) = Inr r"
    "if LF \<in> set (takeWhile (\<lambda>c. c \<noteq> NUL) ch) then r = Some (length (takeWhile (\<lambda>c. c \<noteq> LF) ch))
      else \<forall>k. r = Some k \<longrightarrow> length ch \<le> k" by blast
  consider "x = LF" | "x = NUL" | "x \<noteq> LF" "x \<noteq> NUL" by blast
  then show ?case using r by cases (auto split: if_splits)
qed

lemma next_msg_line_size:
  assumes "NUL \<in> set (slack m)"
  shows "next_msg_size m (n # rest) = Inr (line_size (node_data m n))"
proof -
  have "NUL \<in> set (behind_head m n)" using assms by (simp add: behind_head_def)
  from c_strchr_line[OF this, of "node_data m n"] obtain r where r: "c_strchr LF (node_data m n @ behind_head m n) = Inr r"
    "if LF \<in> set (takeWhile (\<lambda>c. c \<noteq> NUL) (node_data m n)) then r = Some (length (takeWhile (\<lambda>c. c \<noteq> LF) (node_data m n)))
      else \<forall>k. r = Some k \<longrightarrow> length (node_data m n) \<le> k" by blast
  show ?thesis
  proof (cases "LF \<in> set (takeWhile (\<lambda>c. c \<noteq> NUL) (node_data m n))")
    case True
    then show ?thesis using r line_size_le[of "node_data m n"] by (simp add: next_msg_size_def line_size_def)
  next
    case False
    then show ?thesis using r by (auto simp: next_msg_size_def line_size_def split: option.splits)
  qed
qed

text \<open>The text of a line, its end, and what is left.\<close>

lemma take_line:
  assumes "0 < line_size ch"
  shows "take (line_size ch) ch = takeWhile (\<lambda>c. c \<noteq> LF) ch @ [LF]" and "line_text (takeWhile (\<lambda>c. c \<noteq> LF) ch)"
proof -
  have lf: "LF \<in> set (takeWhile (\<lambda>c. c \<noteq> NUL) ch)" using assms by (auto simp: line_size_def split: if_splits)
  then show "take (line_size ch) ch = takeWhile (\<lambda>c. c \<noteq> LF) ch @ [LF]"
    unfolding line_size_def by (induction ch) (auto split: if_splits)
  show "line_text (takeWhile (\<lambda>c. c \<noteq> LF) ch)"
    using lf unfolding line_text_def by (induction ch) (auto split: if_splits dest: set_takeWhileD)
qed

definition first_size :: "string list \<Rightarrow> nat" where
  "first_size chs = (case chs of [] \<Rightarrow> 0 | c # cs \<Rightarrow> line_size c)"

definition first_line :: "string list \<Rightarrow> string" where
  "first_line chs = (case chs of [] \<Rightarrow> [] | c # cs \<Rightarrow> takeWhile (\<lambda>c. c \<noteq> LF) c)"

lemma concat_cut: "concat (cut_chunks (first_size chs) chs) = drop (first_size chs) (concat chs)"
proof (cases chs)
  case (Cons c cs)
  then show ?thesis using line_size_le[of c] by (auto simp: cut_chunks_def first_size_def)
qed (simp add: cut_chunks_def)

lemma first_size_le: "first_size chs \<le> length (concat chs)"
  using line_size_le by (auto simp: first_size_def trans_le_add1 split: list.splits)

function drain_lines :: "string list \<Rightarrow> string list \<times> string list" where
  "drain_lines chs =
     (if first_size chs = 0 then ([], chs)
      else case drain_lines (cut_chunks (first_size chs) chs) of (ls, rest) \<Rightarrow> (first_line chs # ls, rest))"
  by pat_completeness auto
termination
proof (relation "measure (\<lambda>chs. length (concat chs))")
  fix chs :: "string list" assume "first_size chs \<noteq> 0"
  then have "length (concat chs) - first_size chs < length (concat chs)"
    using first_size_le[of chs] by linarith
  then show "(cut_chunks (first_size chs) chs, chs) \<in> measure (\<lambda>chs. length (concat chs))"
    by (simp only: in_measure concat_cut length_drop)
qed simp

declare drain_lines.simps [simp del]

fun a_handle_all :: "nat list \<Rightarrow> nat \<Rightarrow> string list \<Rightarrow> aclient option list \<Rightarrow> nat \<times> aclient option list" where
  "a_handle_all ids i [] v = (0, v)"
| "a_handle_all ids i (l # ls) v =
     (case a_handle ids i l v of (n, v1) \<Rightarrow> case a_handle_all ids i ls v1 of (k, v2) \<Rightarrow> (n + k, v2))"

section \<open>The abstract operations, client by client\<close>

lemma a_deliver_nth:
  "distinct ids \<Longrightarrow> \<forall>i \<in> set ids. i < length v \<Longrightarrow> length (a_deliver ids tgt ex line v) = length v
    \<and> (\<forall>j. a_deliver ids tgt ex line v ! j = (if j \<in> set ids then a_send tgt ex line (v ! j) else v ! j))"
proof (induction ids arbitrary: v)
  case (Cons i ids)
  then show ?case by (auto simp: a_deliver_def nth_list_update)
qed (simp add: a_deliver_def)

lemma a_update_length [simp]: "length (a_update i f v) = length v"
  by (simp add: a_update_def)

lemma a_update_nth: "i < length v \<Longrightarrow> a_update i f v ! j = (if j = i then map_option f (v ! j) else v ! j)"
  by (simp add: a_update_def nth_list_update)

definition set_in :: "nat \<Rightarrow> string list \<Rightarrow> aclient option list \<Rightarrow> aclient option list" where
  "set_in i chs = a_update i (\<lambda>a. a\<lparr>a_in := chs\<rparr>)"

lemma receives_in [simp]: "receives tgt ex (a\<lparr>a_in := x\<rparr>) \<longleftrightarrow> receives tgt ex a"
  by (simp add: receives_def)

lemma set_in_length [simp]: "length (set_in i x v) = length v"
  by (simp add: set_in_def a_update_def)

lemma set_in_nth: "i < length v \<Longrightarrow> set_in i x v ! j = (if j = i then map_option (\<lambda>a. a\<lparr>a_in := x\<rparr>) (v ! j) else v ! j)"
  by (simp add: set_in_def a_update_def nth_list_update)

lemma a_count_in: "i < length v \<Longrightarrow> a_count ids tgt ex (set_in i x v) = a_count ids tgt ex v"
proof -
  assume i: "i < length v"
  have "(\<exists>a. set_in i x v ! j = Some a \<and> receives tgt ex a) \<longleftrightarrow> (\<exists>a. v ! j = Some a \<and> receives tgt ex a)" for j
    by (cases "v ! i") (auto simp: set_in_nth[OF i])
  then show ?thesis by (simp add: a_count_def)
qed

lemma a_deliver_in:
  assumes "distinct ids" and "\<forall>i \<in> set ids. i < length v" and i: "i < length v"
  shows "a_deliver ids tgt ex line (set_in i x v) = set_in i x (a_deliver ids tgt ex line v)"
proof (rule nth_equalityI)
  have ids: "\<forall>i \<in> set ids. i < length (set_in i x v)" for i using assms(2) by simp
  note dl = a_deliver_nth[OF assms(1,2), of tgt ex line] a_deliver_nth[OF assms(1), of "set_in i x v" tgt ex line]
  show "length (a_deliver ids tgt ex line (set_in i x v)) = length (set_in i x (a_deliver ids tgt ex line v))"
    using dl assms(2) by simp
  fix j assume "j < length (a_deliver ids tgt ex line (set_in i x v))"
  have i': "i < length (a_deliver ids tgt ex line v)" using dl i by simp
  show "a_deliver ids tgt ex line (set_in i x v) ! j = set_in i x (a_deliver ids tgt ex line v) ! j"
    using dl assms(2) by (cases "v ! i") (auto simp: set_in_nth[OF i] set_in_nth[OF i'] a_send_def)
qed

lemma a_update_in:
  assumes "i < length v" and "\<And>a. f (a\<lparr>a_in := x\<rparr>) = (f a)\<lparr>a_in := x\<rparr>"
  shows "a_update i f (set_in i x v) = set_in i x (a_update i f v)"
  using assms by (cases "v ! i") (auto simp: set_in_def a_update_def)

lemma a_say_in:
  assumes "distinct ids" and "\<forall>i \<in> set ids. i < length v" and i: "i < length v"
  shows "a_say ids tgt ex line (set_in i x v) = map_prod id (set_in i x) (a_say ids tgt ex line v)"
  using a_deliver_in[OF assms] a_count_in[OF i] by (simp add: a_say_def)

lemma a_handle_in:
  assumes ids: "distinct ids" "\<forall>i \<in> set ids. i < length v" and i: "i < length v"
  shows "a_handle ids i l (set_in i x v) = map_prod id (set_in i x) (a_handle ids i l v)"
proof -
  have me: "a_name (the (set_in i x v ! i)) = a_name (the (v ! i))" if "v ! i \<noteq> None"
    using that by (auto simp: set_in_nth[OF i])
  have up: "a_update i (\<lambda>a. a\<lparr>a_name := w\<rparr>) (set_in i x v) = set_in i x (a_update i (\<lambda>a. a\<lparr>a_name := w\<rparr>) v)" for w
    by (rule a_update_in[OF i]) simp
  have ids': "\<forall>i \<in> set ids. i < length (a_update i' f v)" "i < length (a_update i' f v)" for i' f
    using ids(2) i by simp_all
  show ?thesis
  proof (cases "v ! i")
    case None
    then have "set_in i x v = v" by (simp add: set_in_def a_update_def) (metis list_update_id)
    moreover have "set_in i x (snd (a_handle ids i l v)) = snd (a_handle ids i l v)"
    proof -
      have "snd (a_handle ids i l v) ! i = None"
        using None a_deliver_nth[OF ids] a_deliver_nth[OF ids(1) ids'(1)]
        by (auto simp: a_handle_def a_say_def a_send_def Let_def a_update_nth[OF i])
      then show ?thesis by (simp add: set_in_def a_update_def) (metis list_update_id)
    qed
    ultimately show ?thesis by (cases "a_handle ids i l v") simp
  next
    case (Some a)
    then show ?thesis
      using a_say_in[OF ids i] a_say_in[OF ids(1) ids'] up me by (auto simp: a_handle_def Let_def)
  qed
qed

lemma a_handle_some:
  assumes ids: "distinct ids" "\<forall>i \<in> set ids. i < length v" and i: "i < length v" "v ! i = Some a"
  shows "\<exists>a'. snd (a_handle ids i l v) ! i = Some a'" and "length (snd (a_handle ids i l v)) = length v"
proof -
  have ids': "\<forall>i \<in> set ids. i < length (a_update i' f v)" for i' f
    using ids(2) by simp
  show "\<exists>a'. snd (a_handle ids i l v) ! i = Some a'" "length (snd (a_handle ids i l v)) = length v"
    using i a_deliver_nth[OF ids] a_deliver_nth[OF ids(1) ids']
    by (auto simp: a_handle_def a_say_def a_send_def Let_def a_update_nth[OF i(1)])
qed

lemma set_in_set_in: "set_in i x (set_in i y v) = set_in i x v"
  by (cases "i < length v") (auto simp: set_in_def a_update_def option.map_comp comp_def list_update_beyond)

lemma a_handle_all_in:
  "distinct ids \<Longrightarrow> \<forall>j \<in> set ids. j < length v \<Longrightarrow> i < length v
    \<Longrightarrow> a_handle_all ids i ls (set_in i x v) = map_prod id (set_in i x) (a_handle_all ids i ls v)"
proof (induction ls arbitrary: v)
  case (Cons l ls)
  obtain n v1 where h: "a_handle ids i l v = (n, v1)" by (cases "a_handle ids i l v") auto
  have "length v1 = length v"
  proof -
    have ids': "\<forall>i \<in> set ids. i < length (a_update i' f v)" for i' f using Cons.prems(2) by simp
    show ?thesis using h a_deliver_nth[OF Cons.prems(1,2)] a_deliver_nth[OF Cons.prems(1) ids']
      by (auto simp: a_handle_def a_say_def Let_def split: if_splits)
  qed
  then have "a_handle_all ids i ls (set_in i x v1) = map_prod id (set_in i x) (a_handle_all ids i ls v1)"
    using Cons.IH[OF Cons.prems(1), of v1] Cons.prems(2,3) by metis
  then show ?case using a_handle_in[OF Cons.prems, of l x] h by (auto split: prod.splits)
qed simp

section \<open>The loop over the lines\<close>

lemma fetch_msg_ok:
  assumes ok: "server_ok held s" and i: "i < length (infos s)" "infos s ! i = Some c"
    and chs: "chunks (mem s) (reading_buffer c) = chs" and len: "length (concat chs) < int_max"
  obtains s' where "fetch_msg i s = Inr ((first_size chs, Some (take (first_size chs) (concat chs))), s')"
    "server_ok held s'" "same_online s s'" "abs_srv s' = set_in i (cut_chunks (first_size chs) chs) (abs_srv s)"
proof -
  have io: "infos_ok (mem s) held (infos s)" and on: "online_ok s" using ok by (simp_all add: server_ok_def)
  have co: "client_ok c" and pl: "plenty (mem s)" and nul: "NUL \<in> set (slack (mem s))"
    using io i unfolding infos_ok_def by (metis nth_mem)+
  obtain others where b: "buffer_ok (mem s) others (reading_buffer c)" and
    up: "\<And>rb m' c'. buffer_ok m' others rb \<Longrightarrow> pool_frame (mem s) m' (set others) \<Longrightarrow> reading_buffer c' = rb
      \<Longrightarrow> writing_buffer c' = writing_buffer c \<Longrightarrow> client_ok c'
      \<Longrightarrow> infos_ok m' held ((infos s)[i := Some c'])
        \<and> abs_infos m' ((infos s)[i := Some c']) = (abs_srv s)[i := Some (abs_client m' c')]
        \<and> chunks m' (writing_buffer c) = chunks (mem s) (writing_buffer c)"
    using reading_focus[OF io i] by blast
  have cont: "contents (mem s) (reading_buffer c) = concat chs" by (simp add: contents_chunks chs)
  have k: "next_msg_size (mem s) (reading_buffer c) = Inr (first_size chs)"
    using next_msg_line_size[OF nul] chs[symmetric]
    by (cases "reading_buffer c") (simp_all add: first_size_def chunks_def next_msg_size_def)
  have l: "last_check_cmd_index c = 0" using co by (simp add: client_ok_def)
  have len': "length (contents (mem s) (reading_buffer c)) < int_max" using len cont by simp
  obtain rb m' where f: "fetch_msg_from_client c (mem s)
      = Inr (first_size chs, Some (take (first_size chs) (concat chs)), c\<lparr>reading_buffer := rb, last_check_cmd_index := 0\<rparr>, m')"
    "buffer_ok m' others rb" "pool_frame (mem s) m' (set others)" "chunks m' rb = cut_chunks (first_size chs) chs"
    using fetch_msg_spec[OF b pl len' l k] unfolding cont chs by blast
  let ?c = "c\<lparr>reading_buffer := rb, last_check_cmd_index := 0\<rparr>"
  have "client_ok ?c" using co by (simp add: client_ok_def)
  then have u: "infos_ok m' held ((infos s)[i := Some ?c])
        \<and> abs_infos m' ((infos s)[i := Some ?c]) = (abs_srv s)[i := Some (abs_client m' ?c)]
        \<and> chunks m' (writing_buffer c) = chunks (mem s) (writing_buffer c)"
    by (intro up[OF f(2,3)]) simp_all
  let ?s = "(put_client i ?c s)\<lparr>mem := m'\<rparr>"
  have "online_ok ?s" by (rule online_ok_put[OF on i]) simp
  then have "server_ok held ?s" using u by (simp add: server_ok_def put_client_def)
  moreover have "abs_srv ?s = set_in i (cut_chunks (first_size chs) chs) (abs_srv s)"
    using u i f(4) by (simp add: put_client_def set_in_def a_update_def abs_client_def contents_chunks)
  moreover have "fetch_msg i s = Inr ((first_size chs, Some (take (first_size chs) (concat chs))), ?s)"
    using i f(1) by (simp add: fetch_msg_def with_client_def deref_def)
  ultimately show ?thesis using that same_online_put by blast
qed

lemma take_first_line:
  assumes "0 < first_size chs"
  shows "take (first_size chs) (concat chs) = first_line chs @ [LF]" and "line_text (first_line chs)"
proof -
  obtain ch rest where chs: "chs = ch # rest" and pos: "0 < line_size ch"
    using assms by (cases chs) (auto simp: first_size_def)
  have "take (line_size ch) (ch @ concat rest) = take (line_size ch) ch" using line_size_le[of ch] by simp
  then show "take (first_size chs) (concat chs) = first_line chs @ [LF]" "line_text (first_line chs)"
    using take_line[OF pos] by (simp_all add: chs first_size_def first_line_def)
qed

lemma client_at: "i < length (infos s) \<Longrightarrow> abs_srv s ! i = Some a
    \<Longrightarrow> \<exists>c. infos s ! i = Some c \<and> a = abs_client (mem s) c"
  by (cases "infos s ! i") auto

lemma handle_loop_ok:
  assumes "server_ok held s" and "i < length (infos s)" and "abs_srv s ! i = Some a" and "a_in a = chs"
    and "length (concat chs) < int_max" and "\<forall>l \<in> set (fst (drain_lines chs)). good_line l"
  shows "\<exists>fetched s1 s'. fetch_msg i s = Inr (fetched, s1)
    \<and> handle_loop i need fetched s1
        = Some (Inr (need + int (fst (a_handle_all (clients s) i (fst (drain_lines chs)) (abs_srv s))), s'))
    \<and> server_ok held s' \<and> same_online s s'
    \<and> abs_srv s' = set_in i (snd (drain_lines chs)) (snd (a_handle_all (clients s) i (fst (drain_lines chs)) (abs_srv s)))"
  using assms
proof (induction chs arbitrary: s need a rule: drain_lines.induct)
  case (1 chs)
  obtain c where c: "infos s ! i = Some c" "a = abs_client (mem s) c" using client_at[OF "1.prems"(2,3)] by blast
  have chs: "chunks (mem s) (reading_buffer c) = chs" using c(2) "1.prems"(4) by (simp add: abs_client_def)
  let ?k = "first_size chs" and ?cut = "cut_chunks (first_size chs) chs"
  obtain s1 where f: "fetch_msg i s = Inr ((?k, Some (take ?k (concat chs))), s1)" "server_ok held s1" "same_online s s1"
    "abs_srv s1 = set_in i ?cut (abs_srv s)"
    by (rule fetch_msg_ok[OF "1.prems"(1,2) c(1) chs "1.prems"(5)])
  have ids: "distinct (clients s)" "\<forall>j \<in> set (clients s). j < length (abs_srv s)"
    using "1.prems"(1) by (auto simp: server_ok_def online_ok_def)
  have il: "i < length (abs_srv s)" using "1.prems"(2) by simp
  show ?case
  proof (cases "?k = 0")
    case True
    then have "handle_loop i need (?k, Some (take ?k (concat chs))) s1 = Some (Inr (need, s1))"
      by (subst handle_loop.simps) simp
    moreover have "?cut = chs" using True by (simp add: cut_chunks_def split: list.splits)
    ultimately show ?thesis using f True by (simp add: drain_lines.simps[of chs])
  next
    case False
    let ?l = "first_line chs" and ?v = "abs_srv s"
    have fl: "take ?k (concat chs) = ?l @ [LF]" using take_first_line(1) False by simp
    obtain ls rest where dl: "drain_lines ?cut = (ls, rest)" by (cases "drain_lines ?cut") auto
    have dl': "drain_lines chs = (?l # ls, rest)" using False dl by (simp add: drain_lines.simps[of chs])
    have good: "good_line ?l" "\<forall>l \<in> set ls. good_line l" using "1.prems"(6) dl' by auto
    have i1: "i < length (infos s1)" using f(3) "1.prems"(2) by (simp add: same_online_def)
    have "abs_srv s1 ! i = Some (a\<lparr>a_in := ?cut\<rparr>)" using f(4) set_in_nth[OF il] "1.prems"(3) by simp
    then obtain c1 where c1: "infos s1 ! i = Some c1" using client_at[OF i1] by blast
    have cl1: "clients s1 = clients s" using f(3) by (rule same_online_clients)
    obtain n v1 where h: "a_handle (clients s) i ?l ?v = (n, v1)" by (cases "a_handle (clients s) i ?l ?v") auto
    have h1: "a_handle (clients s) i ?l (abs_srv s1) = (n, set_in i ?cut v1)"
      using a_handle_in[OF ids il, of ?l ?cut] h f(4) by simp
    obtain s2 where m: "handle_msg i (?l @ [LF]) s1 = Inr (int n, s2)" "server_ok held s2" "same_online s1 s2"
      "abs_srv s2 = set_in i ?cut v1"
      using handle_msg_ok[OF f(2) i1 c1 good(1)] h1 cl1 by (metis fst_conv snd_conv)
    obtain a1 where v1: "v1 ! i = Some a1" "length v1 = length ?v"
      using a_handle_some[OF ids il "1.prems"(3), of ?l] h by auto
    have i2: "i < length (infos s2)" using m(3) i1 by (simp add: same_online_def)
    have iv: "i < length v1" using v1(2) il by simp
    have a2: "abs_srv s2 ! i = Some (a1\<lparr>a_in := ?cut\<rparr>)" using m(4) set_in_nth[OF iv] v1(1) by simp
    have cl2: "clients s2 = clients s" using m(3) cl1 by (simp add: same_online_clients)
    have "length (concat ?cut) < int_max" using "1.prems"(5) by (simp add: concat_cut)
    moreover have "\<forall>l \<in> set (fst (drain_lines ?cut)). good_line l" using good(2) dl by simp
    ultimately obtain fetched s3 s' where ih: "fetch_msg i s2 = Inr (fetched, s3)"
      "handle_loop i (need + int n) fetched s3
        = Some (Inr (need + int n + int (fst (a_handle_all (clients s) i ls (abs_srv s2))), s'))"
      "server_ok held s'" "same_online s2 s'"
      "abs_srv s' = set_in i rest (snd (a_handle_all (clients s) i ls (abs_srv s2)))"
      using "1.IH"[OF False m(2) i2 a2, of "need + int n"] dl cl2 by auto
    have all: "a_handle_all (clients s) i ls (set_in i ?cut v1) = map_prod id (set_in i ?cut) (a_handle_all (clients s) i ls v1)"
      by (rule a_handle_all_in) (use ids v1(2) iv in auto)
    have step: "handle_loop i need (?k, Some (take ?k (concat chs))) s1 = handle_loop i (need + int n) fetched s3"
      using False fl m(1) ih(1) by (subst handle_loop.simps) simp
    obtain k2 v2 where a: "a_handle_all (clients s) i ls v1 = (k2, v2)" by (cases "a_handle_all (clients s) i ls v1") auto
    have "set_in i rest (set_in i ?cut v2) = set_in i rest v2" by (rule set_in_set_in)
    then show ?thesis
      using f(1) step ih(2-5) same_online_trans[OF f(3) same_online_trans[OF m(3) ih(4)]] all a h m(4)
      by (simp add: dl')
  qed
qed

lemma try_to_handle_msg_ok:
  assumes ok: "server_ok held s" and i: "i < length (infos s)" "abs_srv s ! i = Some a"
    and len: "length (concat (a_in a)) < int_max" and good: "\<forall>l \<in> set (fst (drain_lines (a_in a))). good_line l"
    and r: "a_handle_all (clients s) i (fst (drain_lines (a_in a))) (abs_srv s) = (n, v)"
  shows "\<exists>s'. try_to_handle_msg i s = Inr s' \<and> server_ok held s'
    \<and> abs_srv s' = set_in i (snd (drain_lines (a_in a))) v
    \<and> same_online (s\<lparr>sign_to_flush_msg := sign_to_flush_msg s + (if n = 0 then 0 else 1)\<rparr>) s'"
proof -
  obtain fetched s1 s' where f: "fetch_msg i s = Inr (fetched, s1)"
    "handle_loop i 0 fetched s1 = Some (Inr (0 + int n, s'))" "server_ok held s'" "same_online s s'"
    "abs_srv s' = set_in i (snd (drain_lines (a_in a))) v"
    using handle_loop_ok[OF ok i refl len good, of 0] r by auto
  show ?thesis
  proof (cases "n = 0")
    case True
    then have "try_to_handle_msg i s = Inr s'" using f by (simp add: try_to_handle_msg_def)
    then show ?thesis using f True by (simp add: same_online_def)
  next
    case False
    let ?s = "s'\<lparr>sign_to_flush_msg := sign_to_flush_msg s' + 1\<rparr>"
    have nl: "\<not> server_lock s'" using f(3) by (simp add: server_ok_def online_ok_def)
    then have "mutex_unlock (s'\<lparr>server_lock := True, sign_to_flush_msg := sign_to_flush_msg s' + 1\<rparr>) = ?s"
      by (cases s') (simp add: mutex_unlock_def)
    then have "try_to_handle_msg i s = Inr ?s"
      using f False nl by (simp add: try_to_handle_msg_def mutex_lock_def)
    moreover have "server_ok held ?s" using f(3) by (simp add: server_ok_def online_ok_def)
    ultimately show ?thesis using f(4,5) False by (auto simp: same_online_def)
  qed
qed

end
