(* ===== verification/Rounds.thy ===== *)
theory Rounds
  imports Dispatch
begin

text \<open>
  The rounds of the three threads: a client that arrives (\<^verbatim>\<open>handle_listen\<close>), the flushing of
  what waits to be sent and the logout of marked clients (\<^verbatim>\<open>write_sockets\<close>), and the events
  of the polling list (\<^verbatim>\<open>read_sockets\<close>).
\<close>

section \<open>Logout\<close>

lemma infos_release:
  assumes ok: "infos_ok m held cs" and i: "i < length cs" "cs ! i = Some c"
  obtains m' where "release_client_info (Some c) m = Inr (0, m')" "infos_ok m' held (cs[i := None])"
    "abs_infos m' (cs[i := None]) = (abs_infos m cs)[i := None]"
    "set (map node_cache (reading_buffer c @ writing_buffer c)) \<subseteq> set (free_ids (available_cache_node m'))"
proof -
  obtain as bs where f: "cs = as @ Some c # bs" "length as = i" "\<And>x. cs[i := x] = as @ x # bs"
    using infos_focus[OF i] by blast
  have pl: "plenty m" using ok by (simp add: infos_ok_def)
  let ?o = "blocks (live as) @ blocks (writing_buffer c # live bs) @ held"
  have b: "buffers_ok m held (live as @ reading_buffer c # (writing_buffer c # live bs))"
    using ok f(1) by (simp add: infos_ok_def)
  obtain m1 where d1: "destroy_buffer m (reading_buffer c) = Inr (0, m1)" "held_ok m1 ?o" "pool_frame m m1 (set ?o)"
    using destroy_buffer_run[OF buffers_focus[OF b]] pl by (cases "destroy_buffer m (reading_buffer c)") auto
  have b1: "buffers_ok m1 held (live as @ writing_buffer c # live bs)"
    unfolding buffers_ok_def
  proof
    show "held_ok m1 (blocks (live as @ writing_buffer c # live bs) @ held)"
      by (rule held_perm[OF d1(2)]) simp
    show "\<forall>x \<in> set (live as @ writing_buffer c # live bs). nodes_ok m1 x"
      using buffers_kept(2)[OF b d1(3)] by auto
  qed
  let ?o2 = "blocks (live as) @ blocks (live bs) @ held"
  have pl1: "plenty m1" using pool_frame_env(2)[OF d1(3) pl] .
  obtain m2 where d2: "destroy_buffer m1 (writing_buffer c) = Inr (0, m2)" "held_ok m2 ?o2" "pool_frame m1 m2 (set ?o2)"
    using destroy_buffer_run[OF buffers_focus[OF b1]] pl1 by (cases "destroy_buffer m1 (writing_buffer c)") auto
  have fr: "pool_frame m m2 (set ?o2)"
    by (rule pool_frame_trans[OF pool_frame_mono[OF d1(3)] d2(3)]) auto
  have same: "chunks m2 x = chunks m x" "nodes_ok m2 x" if "x \<in> set (live as) \<union> set (live bs)" for x
    using buffers_kept(2,3)[OF b1 d2(3) that] buffers_kept(3)[OF b d1(3), of x] that by auto
  have "buffers_ok m2 held (live (as @ None # bs))"
    unfolding buffers_ok_def using d2(2) same(2) by auto
  then have "infos_ok m2 held (cs[i := None])"
    using ok fr pool_frame_env(2)[OF fr pl] unfolding infos_ok_def f(3) by (auto simp: f(1) pool_frame_def)
  moreover have "abs_infos m2 as = abs_infos m as" "abs_infos m2 bs = abs_infos m bs"
    by (rule abs_infos_cong, rule same(1), simp)+
  then have "abs_infos m2 (cs[i := None]) = (abs_infos m cs)[i := None]"
    using f(2) unfolding f(3) by (subst f(1)) (simp add: list_update_append)
  moreover have "set (map node_cache (reading_buffer c @ writing_buffer c)) \<subseteq> set (free_ids (available_cache_node m2))"
    using destroy_buffer_run(3)[OF buffers_focus[OF b] d1(1)] destroy_buffer_run(3)[OF buffers_focus[OF b1] d2(1)] by auto
  ultimately show ?thesis using that d1(1) d2(1) by (simp add: release_client_info_def)
qed

lemma unlink_ok:
  assumes "distinct (sockets (infos s) xs)" and "\<forall>x \<in> set xs. x < length (infos s) \<and> infos s ! x \<noteq> None"
    and "i \<in> set xs"
  shows "unlink i xs s = Inr (True, remove1 i xs)"
  using assms
proof (induction xs)
  case (Cons x xs)
  obtain c where c: "deref x s = Inr c" "infos s ! x = Some c" using Cons.prems(2) by (auto simp: deref_iff)
  obtain d where d: "deref i s = Inr d" "infos s ! i = Some d" using Cons.prems(2,3) by (fastforce simp: deref_iff)
  show ?case
  proof (cases "x = i")
    case True
    then show ?thesis using c d by simp
  next
    case False
    then have i: "i \<in> set xs" using Cons.prems(3) by simp
    then have "socket_id d \<in> set (sockets (infos s) xs)" using d(2) by (force simp: sockets_def)
    then have "socket_id c \<noteq> socket_id d" using Cons.prems(1) c(2) by (auto simp: sockets_def)
    then show ?thesis using Cons.IH Cons.prems i c(1) d(1) False by (simp add: sockets_def)
  qed
qed simp

text \<open>The server without client \<open>i\<close> in its list.\<close>

lemma online_without:
  assumes ok: "server_ok held s" and i: "i \<in> set (clients s)"
  shows "server_ok held (s\<lparr>clients := remove1 i (clients s), client_count := client_count s - 1\<rparr>)"
proof -
  have d: "distinct (clients s)" "distinct (sockets (infos s) (clients s))" using ok by (auto simp: server_ok_def online_ok_def)
  have "length (remove1 i (clients s)) + 1 = length (clients s)"
    using i by (simp add: length_remove1) (metis Suc_pred length_pos_if_in_set)
  moreover have "distinct (sockets (infos s) (remove1 i (clients s)))"
    using d by (simp add: sockets_def distinct_map set_remove1_eq inj_on_diff)
  ultimately show ?thesis using ok d(1) by (auto simp: server_ok_def online_ok_def)
qed

text \<open>A delivery leaves the records alone that its copy of the list does not name.\<close>

lemma with_client_other: "with_client j f s = Inr (r, s') \<Longrightarrow> i \<noteq> j \<Longrightarrow> infos s' ! i = infos s ! i"
  by (auto simp: with_client_def put_client_def bindr_Inr_iff)

lemma deliver_loop_other:
  "deliver_loop msg to_all xs n s = Inr (r, s') \<Longrightarrow> Some i \<notin> set xs \<Longrightarrow> infos s' ! i = infos s ! i"
proof (induction msg to_all xs n s rule: deliver_loop.induct)
  case (2 msg to_all x xs n s)
  then show ?case by (auto simp: bindr_Inr_iff slot_def dest!: with_client_other[of _ _ _ _ _ i] split: if_splits option.splits)
qed simp

lemma deliver_other:
  assumes "server_ok held s" and "deliver_msg_to_all_clients s msg = Inr (r, s')" and "i \<notin> set (clients s)"
  shows "infos s' ! i = infos s ! i"
proof -
  obtain s1 where "get_client_list s = Inr (Some (map Some (clients s)), int (length (clients s)), s1)" "infos s1 = infos s"
    using get_client_list_ok[OF assms(1)] by blast
  then show ?thesis using assms(2,3) by (auto simp: deliver_msg_to_all_clients_def bindr_Inr_iff dest!: deliver_loop_other[of _ _ _ _ _ _ _ i])
qed

lemma user_logout_ok:
  assumes ok: "server_ok held s" and i: "i \<in> set (clients s)" and a: "abs_srv s ! i = Some a"
  shows "\<exists>s'. user_logout i s = Inr s' \<and> server_ok held s' \<and> clients s' = remove1 i (clients s)
    \<and> closed s' = a_socket a # closed s \<and> outs s' = outs s \<and> server_info s' = server_info s
    \<and> length (infos s') = length (infos s)
    \<and> abs_srv s' = (a_deliver (remove1 i (clients s)) CMD_TO_ALL (a_name a)
         (sys_text (a_name a @ '' '' @ MSG_LOGOUT_SUFFIX)) (abs_srv s))[i := None]
    \<and> sign_to_flush_msg s' = sign_to_flush_msg s
        + (if a_count (remove1 i (clients s)) CMD_TO_ALL (a_name a) (abs_srv s) = 0 then 0 else 1)
    \<and> (\<forall>c. infos s ! i = Some c \<longrightarrow> (\<forall>b \<in> set (reading_buffer c @ writing_buffer c). waits (mem s') (node_cache b)))"
proof -
  have on: "online_ok s" and io: "infos_ok (mem s) held (infos s)" using ok by (simp_all add: server_ok_def)
  have il: "i < length (infos s)" and isi: "i \<noteq> server_info s" using on i by (auto simp: online_ok_def)
  obtain c where c: "infos s ! i = Some c" "a = abs_client (mem s) c" using client_at[OF il a] by blast
  have nm: "name_text (name c)" "LF \<notin> set (name c)" "a_name a = name c" "a_socket a = socket_id c"
    using io il c unfolding infos_ok_def client_ok_def by (metis nth_mem, metis nth_mem, simp_all add: abs_client_def)
  let ?r = "remove1 i (clients s)" and ?n = "notice_msg (name c) MSG_LOGOUT_SUFFIX"
  let ?line = "sys_text (name c @ '' '' @ MSG_LOGOUT_SUFFIX)"
  let ?s2 = "s\<lparr>clients := ?r, client_count := client_count s - 1\<rparr>"
  have ok2: "server_ok held ?s2" by (rule online_without[OF ok i])
  have lock: "\<not> server_lock s" using on by (simp add: online_ok_def)
  have "unlink i (clients s) (s\<lparr>server_lock := True\<rparr>) = Inr (True, ?r)"
    by (rule unlink_ok) (use on i in \<open>auto simp: online_ok_def\<close>)
  moreover have "mutex_unlock (s\<lparr>server_lock := True, clients := ?r, client_count := client_count s - 1\<rparr>) = ?s2"
    using lock by (cases s) (simp add: mutex_unlock_def)
  ultimately have start: "user_logout i s = (bindr (deref i ?s2) (\<lambda>info.
     bindr (notice (name info) MSG_LOGOUT_SUFFIX
              (\<lambda>message s. case message of None \<Rightarrow> Inr (0, s) | Some message \<Rightarrow> deliver_msg_to_all_clients s message)
              0 ?s2) (\<lambda>(sent_count, s3).
     bindr (deref i s3) (\<lambda>info.
     bindr (release_client_info (Some info) (mem s3)) (\<lambda>(_, m).
     let s4 = s3\<lparr>mem := m, closed := socket_id info # closed s3, infos := (infos s3)[i := None]\<rparr>
     in if sent_count \<noteq> 0
        then bindr (mutex_lock s4) (\<lambda>s5. Inr (mutex_unlock (s5\<lparr>sign_to_flush_msg := sign_to_flush_msg s5 + 1\<rparr>)))
        else Inr s4)))))"
    using lock by (simp add: user_logout_def mutex_lock_def Let_def)
  obtain k s1 where n: "server_ok (k # held) s1" "same_online ?s2 s1" "abs_srv s1 = abs_srv ?s2"
    "notice (name c) MSG_LOGOUT_SUFFIX
       (\<lambda>message s. case message of None \<Rightarrow> Inr (0, s) | Some message \<Rightarrow> deliver_msg_to_all_clients s message) 0 ?s2
      = bindr (case Some ?n of None \<Rightarrow> Inr (0, s1) | Some message \<Rightarrow> deliver_msg_to_all_clients s1 message) (\<lambda>(r, s2).
       bindr (recycle_cache k (mem s2)) (\<lambda>(_, m4). Inr (r, s2\<lparr>mem := m4\<rparr>)))" "infos s1 = infos ?s2"
    by (rule notice_run[OF ok2 nm(1,2) suffix_texts(3,4), where none = 0
          and k = "\<lambda>message s. case message of None \<Rightarrow> Inr (0, s) | Some message \<Rightarrow> deliver_msg_to_all_clients s message"])
  note nk = notice_msg_ok[OF nm(1) suffix_texts(4)]
  have t: "target ?n = Some CMD_TO_ALL" "exclude ?n = Some (name c)" by (simp_all add: notice_msg_def)
  have cl1: "clients s1 = ?r" using n(2) by (simp add: same_online_def)
  obtain s3 where d: "deliver_msg_to_all_clients s1 ?n = Inr (int (a_count ?r CMD_TO_ALL (name c) (abs_srv s)), s3)"
    "server_ok (k # held) s3" "same_online s1 s3" "abs_srv s3 = a_deliver ?r CMD_TO_ALL (name c) ?line (abs_srv s)"
    using deliver_ok[OF n(1) t nk(1-3)] n(3) nk(4) cl1 by (metis (no_types, lifting) server.select_convs(1,2) server.surjective server.update_convs(3,4))
  obtain m4 where r: "recycle_cache k (mem s3) = Inr (0, m4)" "infos_ok m4 held (infos s3)" "abs_infos m4 (infos s3) = abs_srv s3"
    using infos_recycle[OF server_infos[OF d(2)]] by blast
  let ?s4 = "s3\<lparr>mem := m4\<rparr>"
  have ok4: "server_ok held ?s4" by (rule server_mem(1)[OF d(2) r(2)])
  have so: "same_online ?s2 ?s4"
    using same_online_trans[OF same_online_trans[OF n(2) d(3)] server_mem(2)[OF d(2) r(2)]] .
  have ids: "distinct ?r" "\<forall>j \<in> set ?r. j < length (abs_srv s)"
    using on by (auto simp: online_ok_def dest: notin_set_remove1)
  have ir: "i \<notin> set ?r" using on by (simp add: online_ok_def)
  have il4: "i < length (infos ?s4)" using so il by (simp add: same_online_def)
  have "abs_srv ?s4 ! i = Some a" using a_deliver_nth[OF ids] ir d(4) r(3) a by simp
  then obtain c4 where c4: "infos ?s4 ! i = Some c4" "a = abs_client (mem ?s4) c4" using client_at[OF il4] by blast
  have "infos s3 ! i = infos s ! i" using deliver_other[OF n(1) d(1), of i] ir cl1 n(5) by simp
  then have same: "c4 = c" using c4(1) c(1) by simp
  have sock: "socket_id c4 = a_socket a" using c4(2) by (simp add: abs_client_def)
  obtain m5 where rel: "release_client_info (Some c4) m4 = Inr (0, m5)" "infos_ok m5 held ((infos s3)[i := None])"
    "abs_infos m5 ((infos s3)[i := None]) = (abs_infos m4 (infos s3))[i := None]"
    "set (map node_cache (reading_buffer c @ writing_buffer c)) \<subseteq> set (free_ids (available_cache_node m5))"
    using infos_release[of m4 held "infos s3" i c4] ok4 il4 c4(1) unfolding same by (auto simp: server_ok_def)
  have freed: "\<forall>b \<in> set (reading_buffer c @ writing_buffer c). waits m5 (node_cache b)"
    using rel(4) waits_iff[OF infos_held[OF rel(2)]] by auto
  let ?s5 = "?s4\<lparr>mem := m5, closed := a_socket a # closed s3, infos := (infos s3)[i := None]\<rparr>"
  have on4: "online_ok ?s4" using ok4 by (simp add: server_ok_def)
  have i4: "i \<notin> set (clients s3)" "i \<noteq> server_info s3" using so ir isi by (simp_all add: same_online_def)
  have "(infos s3)[i := None] ! x = infos s3 ! x" if "x \<in> set (clients s3)" for x
    using that i4(1) by (metis nth_list_update_neq)
  note kept = this
  then have "sockets ((infos s3)[i := None]) (clients s3) = sockets (infos s3) (clients s3)"
    by (simp add: sockets_def)
  then have on5: "online_ok ?s5" using on4 i4 kept by (simp add: online_ok_def)
  have ok5: "server_ok held ?s5" using on5 rel(2) by (simp add: server_ok_def)
  have "bindr (notice (name c) MSG_LOGOUT_SUFFIX
       (\<lambda>message s. case message of None \<Rightarrow> Inr (0, s) | Some message \<Rightarrow> deliver_msg_to_all_clients s message) 0 ?s2) f
      = f (int (a_count ?r CMD_TO_ALL (name c) (abs_srv s)), ?s4)" for f :: "int \<times> server \<Rightarrow> server res"
    using n(4) d(1) r(1) by simp
  then have run: "user_logout i s = (if a_count ?r CMD_TO_ALL (name c) (abs_srv s) = 0 then Inr ?s5
      else Inr (mutex_unlock (?s5\<lparr>server_lock := True, sign_to_flush_msg := sign_to_flush_msg s3 + 1\<rparr>)))"
    using il c(1) il4 c4(1) rel(1) on5 sock unfolding start
    by (simp add: deref_def mutex_lock_def online_ok_def Let_def)
  have unl: "mutex_unlock (?s5\<lparr>server_lock := True, sign_to_flush_msg := sign_to_flush_msg s3 + 1\<rparr>)
      = ?s5\<lparr>sign_to_flush_msg := sign_to_flush_msg s3 + 1\<rparr>"
    using on5 by (cases s3) (simp add: mutex_unlock_def online_ok_def)
  have ok6: "server_ok held (?s5\<lparr>sign_to_flush_msg := sign_to_flush_msg s3 + 1\<rparr>)"
    using ok5 by (simp add: server_ok_def online_ok_def)
  have ab: "abs_infos m5 ((infos s3)[i := None]) = (a_deliver ?r CMD_TO_ALL (name c) ?line (abs_srv s))[i := None]"
    using rel(3) r(3) d(4) by simp
  show ?thesis
    using run unl ok5 ok6 ab so nm(3) freed c(1) by (auto simp: same_online_def)
qed

section \<open>A client that arrives\<close>

lemma malloc_sub:
  assumes "plenty m"
  obtains ms where "malloc m = (True, m\<lparr>mallocs := ms\<rparr>)" "set ms \<subseteq> set (mallocs m)" "plenty (m\<lparr>mallocs := ms\<rparr>)"
proof -
  obtain ms where "malloc m = (True, m\<lparr>mallocs := ms\<rparr>)" "\<forall>b \<in> set ms. b" using malloc_plenty[OF assms] by blast
  moreover have "set (mallocs (snd (malloc m))) \<subseteq> set (mallocs m)" by (auto simp: malloc_def split: list.splits)
  ultimately show ?thesis using that by (simp add: plenty_def)
qed

lemma get_addr_and_port_ok:
  assumes "plenty m"
  shows "\<exists>r ms. get_addr_and_port inet_ntop peer m = Inr (r, m\<lparr>mallocs := ms\<rparr>) \<and> set ms \<subseteq> set (mallocs m)"
proof -
  obtain ms where 1: "malloc m = (True, m\<lparr>mallocs := ms\<rparr>)" "set ms \<subseteq> set (mallocs m)" "plenty (m\<lparr>mallocs := ms\<rparr>)"
    using malloc_sub[OF assms] by blast
  obtain ms' where 2: "malloc (m\<lparr>mallocs := ms\<rparr>) = (True, m\<lparr>mallocs := ms'\<rparr>)" "set ms' \<subseteq> set ms"
    using malloc_sub[OF 1(3)] by auto
  show ?thesis
    using 1(1,2) 2 by (cases peer) (auto simp: get_addr_and_port_def peer_text_def split: option.splits)
qed

lemma new_client_info_ok:
  assumes pl: "plenty m" and nm: "c_str p = Inr nm" "length nm < 30" "LF \<notin> set nm"
  obtains c ms where "new_client_info inet_ntop peer (0, 0) sock (Some p) type m = Inr (Some c, m\<lparr>mallocs := ms\<rparr>)"
    "set ms \<subseteq> set (mallocs m)" "socket_id c = sock" "name c = nm" "pub c = 0" "client_ok c" "client_type c = type"
    "reading_buffer c = []" "writing_buffer c = []"
proof -
  let ?d0 = "\<lparr>socket_id = 0, peer_ip = None, peer_port = 0, name = [], client_type = 0, pub = 0,
    reading_buffer = [], writing_buffer = [], writing_lock = False, last_check_cmd_index = 0\<rparr>"
  obtain ms where m1: "malloc m = (True, m\<lparr>mallocs := ms\<rparr>)" "set ms \<subseteq> set (mallocs m)" "plenty (m\<lparr>mallocs := ms\<rparr>)"
    using malloc_sub[OF pl] by blast
  obtain ip port mt where a: "(if type = C_TYPE_C
      then bindr (get_addr_and_port inet_ntop peer (m\<lparr>mallocs := ms\<rparr>)) (\<lambda>((ret, ip, port), m2).
        Inr (if ret \<noteq> 0 then ?d0\<lparr>peer_ip := None, peer_port := - 1\<rparr>
             else ?d0\<lparr>peer_ip := ip, peer_port := (case port of None \<Rightarrow> 0 | Some p \<Rightarrow> p)\<rparr>, m2))
      else Inr (?d0, m\<lparr>mallocs := ms\<rparr>)) = Inr (?d0\<lparr>peer_ip := ip, peer_port := port\<rparr>, m\<lparr>mallocs := mt\<rparr>)"
    and s2: "set mt \<subseteq> set ms"
  proof (cases "type = C_TYPE_C")
    case True
    obtain ret ip port mt where "get_addr_and_port inet_ntop peer (m\<lparr>mallocs := ms\<rparr>)
      = Inr ((ret, ip, port), m\<lparr>mallocs := mt\<rparr>)" "set mt \<subseteq> set ms"
      using get_addr_and_port_ok[OF m1(3), of inet_ntop peer] by auto
    then show ?thesis
      using that[where ip = "if ret \<noteq> 0 then None else ip"
          and port = "if ret \<noteq> 0 then - 1 else (case port of None \<Rightarrow> 0 | Some p \<Rightarrow> p)" and mt = mt] True by simp
  next
    case False
    then show ?thesis using that[where ip = None and port = 0 and mt = ms] by simp
  qed
  have pl2: "plenty (m\<lparr>mallocs := mt\<rparr>)" using m1(3) s2 by (auto simp: plenty_def)
  obtain ms3 where m3: "malloc (m\<lparr>mallocs := mt\<rparr>) = (True, m\<lparr>mallocs := ms3\<rparr>)" "set ms3 \<subseteq> set mt" "plenty (m\<lparr>mallocs := ms3\<rparr>)"
    using malloc_sub[OF pl2] by auto
  obtain ms4 where m4: "malloc (m\<lparr>mallocs := ms3\<rparr>) = (True, m\<lparr>mallocs := ms4\<rparr>)" "set ms4 \<subseteq> set ms3"
    using malloc_sub[OF m3(3)] by auto
  have min: "to_int (min (length nm) 29) = int (length nm)" using nm(2) by (simp add: to_int_small int_max_def)
  have up: "update_client_name d (Some p) = Inr (d\<lparr>name := nm\<rparr>)" for d
    using nm(1) min by (simp add: update_client_name_def CLIENT_NAME_MAXIMUM_SIZE_def)
  let ?c = "(?d0\<lparr>peer_ip := ip, peer_port := port\<rparr>)\<lparr>name := nm, client_type := type, socket_id := sock,
    reading_buffer := [], writing_buffer := []\<rparr>"
  have "new_client_info inet_ntop peer (0, 0) sock (Some p) type m = Inr (Some ?c, m\<lparr>mallocs := ms4\<rparr>)"
    unfolding new_client_info_def using m1(1) m3(1) m4(1)
    by (simp add: Let_def a[simplified] up create_new_buffer_def)
  moreover have "client_ok ?c"
    using c_str_prefix[OF nm(1)] nm(2,3) by (simp add: client_ok_def name_text_def CLIENT_NAME_MAXIMUM_SIZE_def)
  ultimately show ?thesis using that[of ?c ms4] m1(2) s2 m3(2) m4(2) by auto
qed

lemma handle_listen_round_ok:
  assumes ok: "server_ok held s" and id: "0 \<le> sock" "sock \<notin> set (sockets (infos s) (clients s))"
  shows "\<exists>s'. handle_listen_round inet_ntop peer (0, 0) sock s = Inr s' \<and> server_ok held s'
    \<and> clients s' = clients s @ [length (infos s)]
    \<and> abs_srv s' = abs_srv s @ [Some \<lparr>a_socket = sock, a_name = UNKNOWN_CLIENT, a_pub = 0, a_in = [], a_out = []\<rparr>]
    \<and> outs s' = outs s \<and> closed s' = closed s \<and> server_info s' = server_info s
    \<and> sign_to_flush_msg s' = sign_to_flush_msg s"
proof -
  have on: "online_ok s" and io: "infos_ok (mem s) held (infos s)" using ok by (simp_all add: server_ok_def)
  have pl: "plenty (mem s)" using io by (simp add: infos_ok_def)
  have nm: "c_str (UNKNOWN_CLIENT @ [NUL]) = Inr UNKNOWN_CLIENT" "length UNKNOWN_CLIENT < 30" "LF \<notin> set UNKNOWN_CLIENT"
    by (simp_all add: UNKNOWN_CLIENT_def)
  obtain c ms where c: "new_client_info inet_ntop peer (0, 0) sock (Some (UNKNOWN_CLIENT @ [NUL])) C_TYPE_C (mem s)
      = Inr (Some c, (mem s)\<lparr>mallocs := ms\<rparr>)" "set ms \<subseteq> set (mallocs (mem s))" "socket_id c = sock" "name c = UNKNOWN_CLIENT"
    "pub c = 0" "client_ok c" "reading_buffer c = []" "writing_buffer c = []"
    using new_client_info_ok[OF pl nm] by metis
  have "plenty ((mem s)\<lparr>mallocs := ms\<rparr>)" using pl c(2) by (auto simp: plenty_def)
  then obtain ms' where m: "malloc ((mem s)\<lparr>mallocs := ms\<rparr>) = (True, (mem s)\<lparr>mallocs := ms'\<rparr>)" "set ms' \<subseteq> set ms"
    using malloc_sub by (metis sys.select_convs(1) sys.surjective sys.update_convs(1))
  let ?m = "(mem s)\<lparr>mallocs := ms'\<rparr>"
  let ?s = "s\<lparr>mem := ?m, infos := infos s @ [Some c], clients := clients s @ [length (infos s)], client_count := client_count s + 1\<rparr>"
  have "mutex_unlock (s\<lparr>mem := ?m, server_lock := True, infos := infos s @ [Some c], clients := clients s @ [length (infos s)],
      client_count := client_count s + 1\<rparr>) = ?s"
    using on by (cases s) (simp add: mutex_unlock_def online_ok_def)
  then have run: "handle_listen_round inet_ntop peer (0, 0) sock s = Inr ?s"
    using on id(1) c(1) m(1) by (auto simp: handle_listen_round_def online_ok_def deref_def mutex_lock_def)
  have sub: "set ms' \<subseteq> set (mallocs (mem s))" using c(2) m(2) by blast
  note io' = infos_mallocs[OF io sub]
  have "infos_ok ?m held (infos s @ [Some c])"
    using io'(1) c(6-8) by (fastforce simp: infos_ok_def buffers_ok_def nodes_ok_def)
  moreover have "sockets (infos s @ [Some c]) (clients s) = sockets (infos s) (clients s)"
    using on by (auto simp: sockets_def online_ok_def nth_append)
  moreover have "sockets (infos s @ [Some c]) (clients s @ [length (infos s)]) = sockets (infos s @ [Some c]) (clients s) @ [sock]"
    using c(3) by (simp add: sockets_def)
  ultimately have "infos_ok ?m held (infos s @ [Some c])" and "online_ok ?s"
    using on id(2) by (auto simp: online_ok_def nth_append)
  moreover have "abs_srv ?s = abs_srv s @ [Some \<lparr>a_socket = sock, a_name = UNKNOWN_CLIENT, a_pub = 0, a_in = [], a_out = []\<rparr>]"
    using io'(2) c(3-5,7,8) by (simp add: abs_client_def chunks_def)
  ultimately show ?thesis using run by (auto simp: server_ok_def)
qed

section \<open>Flushing\<close>

definition a_flush :: "nat \<Rightarrow> aclient option list \<times> (int \<Rightarrow> string) \<Rightarrow> aclient option list \<times> (int \<Rightarrow> string)" where
  "a_flush i vo = (case fst vo ! i of
       None \<Rightarrow> vo
     | Some a \<Rightarrow> if a_pub a = to_size (- 1) then vo
         else ((fst vo)[i := Some (a\<lparr>a_out := []\<rparr>)], (snd vo)(a_socket a := snd vo (a_socket a) @ a_out a)))"

definition sent_by :: "server \<Rightarrow> int \<Rightarrow> string" where
  "sent_by s = (\<lambda>f. sent (outs s f))"

text \<open>No socket answers with an error, and nobody has more than a \<^verbatim>\<open>size_t\<close> of bytes to send.\<close>

definition healthy :: "server \<Rightarrow> bool" where
  "healthy s \<longleftrightarrow> (\<forall>f. no_write_fail (outs s f)) \<and> (\<forall>a. Some a \<in> set (abs_srv s) \<longrightarrow> length (a_out a) < 2 ^ 64)"

lemma flush_one:
  assumes ok: "server_ok held s" and h: "healthy s" and i: "i < length (infos s)" "infos s ! i = Some c"
  obtains v c' sock m' where "flush_messages c (outs s (socket_id c)) (mem s) = Inr (v, c', sock, m')"
    "server_ok held ((put_client i c' s)\<lparr>mem := m'\<rparr>)" "socket_id c' = socket_id c"
    "abs_srv ((put_client i c' s)\<lparr>mem := m'\<rparr>) = (abs_srv s)[i := Some ((abs_client (mem s) c)\<lparr>a_out := []\<rparr>)]"
    "sent sock = sent (outs s (socket_id c)) @ contents (mem s) (writing_buffer c)" "no_write_fail sock"
proof -
  have io: "infos_ok (mem s) held (infos s)" and on: "online_ok s" using ok by (simp_all add: server_ok_def)
  have co: "client_ok c" and pl: "plenty (mem s)" using io i unfolding infos_ok_def by (metis nth_mem)+
  let ?b = "writing_buffer c" and ?o = "outs s (socket_id c)"
  have "Some (abs_client (mem s) c) \<in> set (abs_srv s)" using i by (metis abs_infos_nth abs_infos_simps(4) nth_mem option.map(2))
  then have len: "length (contents (mem s) ?b) < 2 ^ 64" using h by (auto simp: healthy_def abs_client_def)
  have nf: "no_write_fail ?o" using h by (simp add: healthy_def)
  obtain others where b: "buffer_ok (mem s) others ?b" and
    up: "\<And>wb m' c'. buffer_ok m' others wb \<Longrightarrow> pool_frame (mem s) m' (set others) \<Longrightarrow> writing_buffer c' = wb
      \<Longrightarrow> reading_buffer c' = reading_buffer c \<Longrightarrow> client_ok c'
      \<Longrightarrow> infos_ok m' held ((infos s)[i := Some c'])
        \<and> abs_infos m' ((infos s)[i := Some c']) = (abs_srv s)[i := Some (abs_client m' c')]
        \<and> chunks m' (reading_buffer c) = chunks (mem s) (reading_buffer c)"
    using writing_focus[OF io i] by blast
  have sz: "buffer_size ?b = length (contents (mem s) ?b)" by (rule buffer_size_contents[OF b len])
  obtain v wb sock m' where w: "flush_messages c ?o (mem s) = Inr (v, c\<lparr>writing_buffer := wb\<rparr>, sock, m')"
    "drained (mem s) others ?b ?o (length (contents (mem s) ?b)) m' wb sock"
  proof (cases "contents (mem s) ?b = []")
    case True
    then have "flush_messages c ?o (mem s) = Inr (0, c\<lparr>writing_buffer := ?b\<rparr>, ?o, mem s)"
      using sz co by (simp add: flush_messages_def client_ok_def)
    then show ?thesis using that[where wb = ?b and v = 0 and sock = ?o and m' = "mem s"] b nf True by (simp add: drained_def)
  next
    case False
    obtain v wb sock m' where w: "write_from_buffer (mem s) ?o ?b (length (contents (mem s) ?b)) = Inr (v, wb, sock, m')"
      using write_from_buffer_run(1)[OF b nf len] pl
      by (cases "write_from_buffer (mem s) ?o ?b (length (contents (mem s) ?b))") auto
    then have "drained (mem s) others ?b ?o (length (contents (mem s) ?b)) m' wb sock"
      using write_from_buffer_run(2)[OF b nf len w] by (metis min.idem)
    moreover have "flush_messages c ?o (mem s) = Inr (v, c\<lparr>writing_buffer := wb\<rparr>, sock, m')"
      using w False sz co by (simp add: flush_messages_def client_ok_def)
    ultimately show ?thesis using that by blast
  qed
  let ?c = "c\<lparr>writing_buffer := wb\<rparr>"
  have d: "buffer_ok m' others wb" "contents m' wb = []" "sent sock = sent ?o @ contents (mem s) ?b" "no_write_fail sock"
    "pool_frame (mem s) m' (set others)" using w(2) by (auto simp: drained_def)
  have "client_ok ?c" using co by (simp add: client_ok_def)
  then have u: "infos_ok m' held ((infos s)[i := Some ?c])
      \<and> abs_infos m' ((infos s)[i := Some ?c]) = (abs_srv s)[i := Some (abs_client m' ?c)]
      \<and> chunks m' (reading_buffer c) = chunks (mem s) (reading_buffer c)"
    by (intro up[OF d(1,5)]) simp_all
  let ?s = "(put_client i ?c s)\<lparr>mem := m'\<rparr>"
  have "online_ok ?s" by (rule online_ok_put[OF on i]) simp
  then have "server_ok held ?s" using u by (simp add: server_ok_def put_client_def)
  moreover have "abs_srv ?s = (abs_srv s)[i := Some ((abs_client (mem s) c)\<lparr>a_out := []\<rparr>)]"
    using u d(2) by (simp add: put_client_def abs_client_def)
  ultimately show ?thesis using that[OF w(1)] d(3,4) by simp
qed

definition same_list :: "server \<Rightarrow> server \<Rightarrow> bool" where
  "same_list s s' \<longleftrightarrow> clients s' = clients s \<and> server_info s' = server_info s \<and> closed s' = closed s
     \<and> sign_to_flush_msg s' = sign_to_flush_msg s \<and> length (infos s') = length (infos s)"

lemma set_update_Some: "Some a \<in> set (v[i := Some b]) \<Longrightarrow> a = b \<or> Some a \<in> set v"
  using set_update_subset_insert by fastforce

lemma flush_clients_ok:
  assumes "server_ok held s" and "healthy s" and "\<forall>i \<in> set ids. i < length (infos s) \<and> infos s ! i \<noteq> None"
  shows "\<exists>s'. flush_clients (map Some ids) s = Inr s' \<and> server_ok held s' \<and> healthy s' \<and> same_list s s'
    \<and> (abs_srv s', sent_by s') = fold a_flush ids (abs_srv s, sent_by s)"
  using assms
proof (induction ids arbitrary: s)
  case Nil
  then show ?case by (simp add: same_list_def)
next
  case (Cons i ids)
  obtain c where i: "i < length (infos s)" "infos s ! i = Some c" using Cons.prems(3) by auto
  let ?a = "abs_client (mem s) c"
  have a: "abs_srv s ! i = Some ?a" "a_pub ?a = pub c" "a_socket ?a = socket_id c" using i by (simp_all add: abs_client_def)
  show ?case
  proof (cases "to_size (- 1) = pub c")
    case True
    then have "flush_clients (map Some (i # ids)) s = flush_clients (map Some ids) s"
      using i by (simp add: slot_def deref_def)
    moreover have "a_flush i (abs_srv s, sent_by s) = (abs_srv s, sent_by s)"
      using a True by (simp add: a_flush_def)
    ultimately show ?thesis using Cons.IH[of s] Cons.prems by simp
  next
    case False
    obtain v c' sock m' where f: "flush_messages c (outs s (socket_id c)) (mem s) = Inr (v, c', sock, m')"
      "server_ok held ((put_client i c' s)\<lparr>mem := m'\<rparr>)" "socket_id c' = socket_id c"
      "abs_srv ((put_client i c' s)\<lparr>mem := m'\<rparr>) = (abs_srv s)[i := Some (?a\<lparr>a_out := []\<rparr>)]"
      "sent sock = sent (outs s (socket_id c)) @ contents (mem s) (writing_buffer c)" "no_write_fail sock"
      by (rule flush_one[OF Cons.prems(1,2) i])
    let ?s = "(put_client i c' s)\<lparr>mem := m', outs := (outs s)(socket_id c := sock)\<rparr>"
    have ok: "server_ok held ?s" using f(2) by (simp add: server_ok_def online_ok_def)
    have abs: "abs_srv ?s = (abs_srv s)[i := Some (?a\<lparr>a_out := []\<rparr>)]" using f(4) by simp
    have h: "healthy ?s"
      unfolding healthy_def abs using Cons.prems(2) f(6) set_update_Some by (fastforce simp: healthy_def)
    have ids: "\<forall>j \<in> set ids. j < length (infos ?s) \<and> infos ?s ! j \<noteq> None"
      using Cons.prems(3) by (auto simp: put_client_def nth_list_update)
    have step: "flush_clients (map Some (i # ids)) s = flush_clients (map Some ids) ?s"
      using i False f(1) by (simp add: slot_def deref_def)
    have "sent_by ?s = (sent_by s)(socket_id c := sent_by s (socket_id c) @ a_out ?a)"
      using f(5) by (auto simp: sent_by_def abs_client_def)
    then have "a_flush i (abs_srv s, sent_by s) = (abs_srv ?s, sent_by ?s)"
      using a False abs by (simp add: a_flush_def)
    moreover have "same_list s ?s" by (simp add: same_list_def put_client_def)
    ultimately show ?thesis using Cons.IH[OF ok h ids] step by (auto simp: same_list_def)
  qed
qed

section \<open>Logging out the marked clients\<close>

definition a_logout :: "nat \<Rightarrow> nat list \<times> aclient option list \<Rightarrow> nat list \<times> aclient option list" where
  "a_logout i cv = (case snd cv ! i of
       None \<Rightarrow> cv
     | Some a \<Rightarrow> if a_pub a = to_size (- 1)
         then (remove1 i (fst cv), (a_deliver (remove1 i (fst cv)) CMD_TO_ALL (a_name a)
                 (sys_text (a_name a @ '' '' @ MSG_LOGOUT_SUFFIX)) (snd cv))[i := None])
         else cv)"

lemma logout_clients_ok:
  assumes "server_ok held s" and "distinct ids" and "set ids \<subseteq> set (clients s)"
  shows "\<exists>s'. logout_clients (map Some ids) s = Inr s' \<and> server_ok held s' \<and> outs s' = outs s
    \<and> server_info s' = server_info s \<and> length (infos s') = length (infos s)
    \<and> sign_to_flush_msg s \<le> sign_to_flush_msg s'
    \<and> (clients s', abs_srv s') = fold a_logout ids (clients s, abs_srv s)"
  using assms
proof (induction ids arbitrary: s)
  case (Cons i ids)
  have on: "online_ok s" using Cons.prems(1) by (simp add: server_ok_def)
  have i: "i \<in> set (clients s)" using Cons.prems(3) by simp
  obtain c where c: "deref i s = Inr c" "i < length (infos s)" "infos s ! i = Some c" by (rule online_deref[OF on i])
  let ?a = "abs_client (mem s) c"
  have a: "abs_srv s ! i = Some ?a" "a_pub ?a = pub c" using c by (simp_all add: abs_client_def)
  show ?case
  proof (cases "to_size (- 1) = pub c")
    case False
    then have "logout_clients (map Some (i # ids)) s = logout_clients (map Some ids) s"
      using c(1) by (simp add: slot_def)
    moreover have "a_logout i (clients s, abs_srv s) = (clients s, abs_srv s)" using a False by (simp add: a_logout_def)
    ultimately show ?thesis using Cons.IH[of s] Cons.prems by simp
  next
    case True
    obtain s1 where s1: "user_logout i s = Inr s1" "server_ok held s1" "clients s1 = remove1 i (clients s)" "outs s1 = outs s"
      "server_info s1 = server_info s" "length (infos s1) = length (infos s)"
      "abs_srv s1 = (a_deliver (remove1 i (clients s)) CMD_TO_ALL (a_name ?a)
         (sys_text (a_name ?a @ '' '' @ MSG_LOGOUT_SUFFIX)) (abs_srv s))[i := None]"
      and sg: "sign_to_flush_msg s \<le> sign_to_flush_msg s1"
      using user_logout_ok[OF Cons.prems(1) i a(1)] by fastforce
    have "logout_clients (map Some (i # ids)) s = logout_clients (map Some ids) s1"
      using c(1) True s1(1) by (simp add: slot_def)
    moreover have "a_logout i (clients s, abs_srv s) = (clients s1, abs_srv s1)" using a True s1(3,7) by (simp add: a_logout_def)
    moreover have "set ids \<subseteq> set (clients s1)"
      using Cons.prems(2,3) s1(3) by (metis distinct.simps(2) in_set_remove1 list.set_intros(2) subset_code(1))
    ultimately show ?thesis using Cons.IH[OF s1(2)] Cons.prems(2) s1(4-6) sg by fastforce
  qed
qed simp

section \<open>A round of the writing thread\<close>

lemma wait_for_messages_ok:
  assumes "server_ok held s"
  shows "wait_for_messages raised s = Inr s"
proof (cases s)
  case (fields mem infos clients client_count server_lock is_running server_info sign outs closed)
  then show ?thesis using assms by (simp add: wait_for_messages_def mutex_lock_def mutex_unlock_def server_ok_def online_ok_def)
qed

lemma write_sockets_round_ok:
  assumes ok: "server_ok held s" and h: "healthy s"
  shows "\<exists>s'. write_sockets_round raised s = Inr (Some s', s') \<and> server_ok held s' \<and> server_info s' = server_info s
    \<and> length (infos s') = length (infos s) \<and> sign_to_flush_msg s \<le> sign_to_flush_msg s'
    \<and> (case fold a_flush (clients s) (abs_srv s, sent_by s) of (v, sn) \<Rightarrow>
        sent_by s' = sn \<and> (clients s', abs_srv s') = fold a_logout (clients s) (clients s, v))"
proof -
  obtain s1 where g: "get_client_list s = Inr (Some (map Some (clients s)), int (length (clients s)), s1)"
    "server_ok held s1" "same_online s s1" "infos s1 = infos s" "abs_srv s1 = abs_srv s"
    using get_client_list_ok[OF ok] by blast
  have ids: "\<forall>i \<in> set (clients s). i < length (infos s1) \<and> infos s1 ! i \<noteq> None"
    using ok g(4) by (auto simp: server_ok_def online_ok_def)
  have "healthy s1" and sb: "sent_by s1 = sent_by s" using h g(3,5) by (simp_all add: healthy_def sent_by_def same_online_def)
  then obtain s2 where f: "flush_clients (map Some (clients s)) s1 = Inr s2" "server_ok held s2" "same_list s1 s2"
    "(abs_srv s2, sent_by s2) = fold a_flush (clients s) (abs_srv s1, sent_by s1)"
    using flush_clients_ok[OF g(2) _ ids] by blast
  have cl: "clients s2 = clients s" using f(3) g(3) by (simp add: same_list_def same_online_def)
  have d: "distinct (clients s)" using ok by (simp add: server_ok_def online_ok_def)
  have sub: "set (clients s) \<subseteq> set (clients s2)" using cl by simp
  obtain s3 where l: "logout_clients (map Some (clients s)) s2 = Inr s3" "server_ok held s3" "outs s3 = outs s2"
    "server_info s3 = server_info s2" "length (infos s3) = length (infos s2)"
    "sign_to_flush_msg s2 \<le> sign_to_flush_msg s3"
    "(clients s3, abs_srv s3) = fold a_logout (clients s) (clients s2, abs_srv s2)"
    using logout_clients_ok[OF f(2) d sub] by blast
  have "write_sockets_round raised s = Inr (Some s3, s3)"
    using g(1) f(1) l(1) wait_for_messages_ok[OF l(2)] by (simp add: write_sockets_round_def)
  moreover have "sent_by s3 = sent_by s2" using l(3) by (simp add: sent_by_def)
  ultimately show ?thesis
    using l(2,4-7) f(3,4) g(3-5) sb cl by (auto simp: same_list_def same_online_def split: prod.splits)
qed

end
