(* ===== verification/Events.thy ===== *)
theory Events
  imports Rounds
begin

text \<open>
  What the reading thread does with each answer of \<^verbatim>\<open>poll\<close> (the body of the inner loop
  of \<^verbatim>\<open>read_sockets\<close>): data is appended to the client's reading buffer and its lines are handled, a closed
  connection or an error marks the client (and may lose a block), and a failing \<^verbatim>\<open>read\<close> is taken
  for data. Bytes that do not end a line in the first block are never read (\<open>deaf\<close>).
\<close>

section \<open>Complete lines\<close>

function full_lines :: "string \<Rightarrow> string list" where
  "full_lines t = (if LF \<in> set t then takeWhile (\<lambda>c. c \<noteq> LF) t # full_lines (tl (dropWhile (\<lambda>c. c \<noteq> LF) t)) else [])"
  by pat_completeness auto
termination
proof (relation "measure length")
  fix t :: string assume "LF \<in> set t"
  then have "length (dropWhile (\<lambda>c. c \<noteq> LF) t) \<le> length t" "dropWhile (\<lambda>c. c \<noteq> LF) t \<noteq> []"
    by (auto simp: length_dropWhile_le)
  then show "(tl (dropWhile (\<lambda>c. c \<noteq> LF) t), t) \<in> measure length"
    by (cases "dropWhile (\<lambda>c. c \<noteq> LF) t") auto
qed simp

declare full_lines.simps [simp del]

lemma full_lines_split: "LF \<notin> set l \<Longrightarrow> full_lines (l @ LF # t) = l # full_lines t"
  by (subst full_lines.simps) (simp add: takeWhile_append dropWhile_append)

lemma full_lines_none [simp]: "LF \<notin> set t \<Longrightarrow> full_lines t = []"
  by (simp add: full_lines.simps)

lemma drain_prefix: "\<exists>ls. full_lines (concat chs) = fst (drain_lines chs) @ ls"
proof (induction chs rule: drain_lines.induct)
  case (1 chs)
  show ?case
  proof (cases "first_size chs = 0")
    case True
    then show ?thesis by (simp add: drain_lines.simps[of chs])
  next
    case False
    then have "concat chs = first_line chs @ LF # drop (first_size chs) (concat chs)"
      using take_first_line(1)[of chs] append_take_drop_id[of "first_size chs" "concat chs"] by simp
    moreover have "LF \<notin> set (first_line chs)" using take_first_line(2)[of chs] False by (simp add: line_text_def)
    ultimately have "full_lines (concat chs) = first_line chs # full_lines (concat (cut_chunks (first_size chs) chs))"
      using full_lines_split concat_cut by metis
    then show ?thesis using 1 False by (auto simp: drain_lines.simps[of chs] split: prod.splits)
  qed
qed

section \<open>Reading\<close>

text \<open>The state of one client after a step on its reading buffer and its own fields.\<close>

lemma put_reading:
  assumes ok: "server_ok held s" and i: "i < length (infos s)" "infos s ! i = Some c"
  obtains others where "buffer_ok (mem s) others (reading_buffer c)"
    "\<And>rb m' c'. buffer_ok m' others rb \<Longrightarrow> pool_frame (mem s) m' (set others) \<Longrightarrow> reading_buffer c' = rb
      \<Longrightarrow> writing_buffer c' = writing_buffer c \<Longrightarrow> client_ok c' \<Longrightarrow> socket_id c' = socket_id c \<Longrightarrow> name c' = name c
      \<Longrightarrow> server_ok held ((put_client i c' s)\<lparr>mem := m'\<rparr>)
        \<and> abs_srv ((put_client i c' s)\<lparr>mem := m'\<rparr>)
          = (abs_srv s)[i := Some ((abs_client (mem s) c)\<lparr>a_pub := pub c', a_in := chunks m' rb\<rparr>)]"
proof -
  have io: "infos_ok (mem s) held (infos s)" and on: "online_ok s" using ok by (simp_all add: server_ok_def)
  obtain others where b: "buffer_ok (mem s) others (reading_buffer c)" and
    up: "\<And>rb m' c'. buffer_ok m' others rb \<Longrightarrow> pool_frame (mem s) m' (set others) \<Longrightarrow> reading_buffer c' = rb
      \<Longrightarrow> writing_buffer c' = writing_buffer c \<Longrightarrow> client_ok c'
      \<Longrightarrow> infos_ok m' held ((infos s)[i := Some c'])
        \<and> abs_infos m' ((infos s)[i := Some c']) = (abs_srv s)[i := Some (abs_client m' c')]
        \<and> chunks m' (writing_buffer c) = chunks (mem s) (writing_buffer c)"
    using reading_focus[OF io i] by blast
  show ?thesis
  proof (rule that[OF b])
    fix rb m' c'
    assume n: "buffer_ok m' others rb" "pool_frame (mem s) m' (set others)" "reading_buffer c' = rb"
      "writing_buffer c' = writing_buffer c" "client_ok c'" and same: "socket_id c' = socket_id c" "name c' = name c"
    note u = up[OF n]
    have "online_ok ((put_client i c' s)\<lparr>mem := m'\<rparr>)" by (rule online_ok_put[OF on i same(1)])
    then show "server_ok held ((put_client i c' s)\<lparr>mem := m'\<rparr>)
        \<and> abs_srv ((put_client i c' s)\<lparr>mem := m'\<rparr>)
          = (abs_srv s)[i := Some ((abs_client (mem s) c)\<lparr>a_pub := pub c', a_in := chunks m' rb\<rparr>)]"
      using u n(3,4) same by (simp add: server_ok_def put_client_def abs_client_def contents_chunks)
  qed
qed

section \<open>Marking a client\<close>

lemma mark_client_ok:
  assumes ok: "server_ok held s" and i: "i < length (infos s)" "abs_srv s ! i = Some a"
  shows "\<exists>s'. with_client i (\<lambda>c m. Inr ((), c\<lparr>pub := p\<rparr>, m)) s = Inr ((), s') \<and> server_ok held s'
    \<and> abs_srv s' = (abs_srv s)[i := Some (a\<lparr>a_pub := p\<rparr>)] \<and> same_online s s'"
proof -
  obtain c where c: "infos s ! i = Some c" "a = abs_client (mem s) c" using client_at[OF i] by blast
  have co: "client_ok c" using ok i(1) c(1) unfolding server_ok_def infos_ok_def by (metis nth_mem)
  obtain others where b: "buffer_ok (mem s) others (reading_buffer c)" and
    up: "\<And>rb m' c'. buffer_ok m' others rb \<Longrightarrow> pool_frame (mem s) m' (set others) \<Longrightarrow> reading_buffer c' = rb
      \<Longrightarrow> writing_buffer c' = writing_buffer c \<Longrightarrow> client_ok c' \<Longrightarrow> socket_id c' = socket_id c \<Longrightarrow> name c' = name c
      \<Longrightarrow> server_ok held ((put_client i c' s)\<lparr>mem := m'\<rparr>)
        \<and> abs_srv ((put_client i c' s)\<lparr>mem := m'\<rparr>)
          = (abs_srv s)[i := Some ((abs_client (mem s) c)\<lparr>a_pub := pub c', a_in := chunks m' rb\<rparr>)]"
    using put_reading[OF ok i(1) c(1)] by blast
  let ?c = "c\<lparr>pub := p\<rparr>" and ?s = "(put_client i (c\<lparr>pub := p\<rparr>) s)\<lparr>mem := mem s\<rparr>"
  have "client_ok ?c" using co by (simp add: client_ok_def)
  then have u: "server_ok held ?s \<and> abs_srv ?s
      = (abs_srv s)[i := Some ((abs_client (mem s) c)\<lparr>a_pub := p, a_in := chunks (mem s) (reading_buffer c)\<rparr>)]"
    using up[OF b pool_frame_refl, of ?c] by simp
  have e: "a\<lparr>a_pub := p, a_in := chunks (mem s) (reading_buffer c)\<rparr> = a\<lparr>a_pub := p\<rparr>"
    using c(2) by (simp add: abs_client_def)
  have "with_client i (\<lambda>c m. Inr ((), c\<lparr>pub := p\<rparr>, m)) s = Inr ((), ?s)"
    using i c(1) by (simp add: with_client_def deref_def)
  then show ?thesis using u same_online_put[where s = s and i = i and c = ?c and m = "mem s"] unfolding c(2)[symmetric] e by blast
qed

abbreviation FAIL :: size_t where "FAIL \<equiv> to_size (- 1)"

text \<open>An entry of the snapshot that still fits its record: the descriptor is that of the record.\<close>

definition fresh_entry :: "pollfd \<Rightarrow> server \<Rightarrow> bool" where
  "fresh_entry p s \<longleftrightarrow> (\<exists>c. info_ptr p < length (infos s) \<and> infos s ! info_ptr p = Some c
     \<and> fd p = socket_id c \<and> fd p \<noteq> - 1)"

lemma event_hangup:
  assumes ok: "server_ok held s" and p: "fresh_entry p s" and a: "abs_srv s ! info_ptr p = Some a"
    and ev: "revents ev \<noteq> 0" "even (revents ev)"
  shows "\<exists>s'. handle_event p ev s = Inr s' \<and> server_ok held s' \<and> same_online s s'
    \<and> abs_srv s' = (abs_srv s)[info_ptr p := Some (a\<lparr>a_pub := FAIL\<rparr>)]"
proof -
  obtain c where c: "info_ptr p < length (infos s)" "infos s ! info_ptr p = Some c" "fd p = socket_id c" "fd p \<noteq> - 1"
    using p by (auto simp: fresh_entry_def)
  obtain s' where s': "with_client (info_ptr p) (\<lambda>c m. Inr ((), c\<lparr>pub := FAIL\<rparr>, m)) s = Inr ((), s')" "server_ok held s'"
    "abs_srv s' = (abs_srv s)[info_ptr p := Some (a\<lparr>a_pub := FAIL\<rparr>)]" "same_online s s'"
    using mark_client_ok[OF ok c(1) a] by blast
  have "handle_event p ev s = Inr s'"
    using c ev s'(1) by (simp add: handle_event_def deref_def Let_def)
  then show ?thesis using s'(2-4) by blast
qed

lemma event_closed:
  assumes ok: "server_ok held s" and p: "fresh_entry p s" and a: "abs_srv s ! info_ptr p = Some a"
    and ev: "odd (revents ev)" "byte_available ev = Some 0"
  shows "\<exists>s'. handle_event p ev s = Inr s' \<and> server_ok held s' \<and> same_online s s'
    \<and> abs_srv s' = (abs_srv s)[info_ptr p := Some (a\<lparr>a_pub := FAIL\<rparr>)]"
proof -
  let ?i = "info_ptr p"
  obtain c where c: "?i < length (infos s)" "infos s ! ?i = Some c" "fd p = socket_id c" "fd p \<noteq> - 1"
    using p by (auto simp: fresh_entry_def)
  have co: "client_ok c" and pl: "plenty (mem s)" using ok c unfolding server_ok_def infos_ok_def by (metis nth_mem)+
  obtain others where b: "buffer_ok (mem s) others (reading_buffer c)" and
    up: "\<And>rb m' c'. buffer_ok m' others rb \<Longrightarrow> pool_frame (mem s) m' (set others) \<Longrightarrow> reading_buffer c' = rb
      \<Longrightarrow> writing_buffer c' = writing_buffer c \<Longrightarrow> client_ok c' \<Longrightarrow> socket_id c' = socket_id c \<Longrightarrow> name c' = name c
      \<Longrightarrow> server_ok held ((put_client ?i c' s)\<lparr>mem := m'\<rparr>)
        \<and> abs_srv ((put_client ?i c' s)\<lparr>mem := m'\<rparr>)
          = (abs_srv s)[?i := Some ((abs_client (mem s) c)\<lparr>a_pub := pub c', a_in := chunks m' rb\<rparr>)]"
    using put_reading[OF ok c(1,2)] by blast
  obtain m' where m': "read_into_buffer (mem s) (incoming ev) (reading_buffer c) 0 = Inr (0, reading_buffer c, incoming ev, m')"
    "buffer_ok m' others (reading_buffer c)" "chunks m' (reading_buffer c) = chunks (mem s) (reading_buffer c)"
    "pool_frame (mem s) m' (set others)"
    using read_into_buffer_zero[OF b pl] by blast
  let ?s = "(put_client ?i c s)\<lparr>mem := m'\<rparr>"
  have u: "server_ok held ?s \<and> abs_srv ?s
      = (abs_srv s)[?i := Some ((abs_client (mem s) c)\<lparr>a_pub := pub c, a_in := chunks m' (reading_buffer c)\<rparr>)]"
    by (intro up[OF m'(2,4)] co) simp_all
  have "abs_client (mem s) c = a" using a c(1,2) by simp
  then have at: "abs_srv ?s ! ?i = Some a" "abs_srv ?s = abs_srv s"
    using u m'(3) c(1,2) a by (auto simp: abs_client_def list_update_same_conv)
  have len: "?i < length (infos ?s)" using c(1) by (simp add: put_client_def)
  obtain s' where s': "with_client ?i (\<lambda>c m. Inr ((), c\<lparr>pub := FAIL\<rparr>, m)) ?s = Inr ((), s')" "server_ok held s'"
    "abs_srv s' = (abs_srv s)[?i := Some (a\<lparr>a_pub := FAIL\<rparr>)]" "same_online ?s s'"
    using mark_client_ok[OF conjunct1[OF u] len at(1)] unfolding at(2) by blast
  have "c\<lparr>reading_buffer := reading_buffer c\<rparr> = c" "revents ev \<noteq> 0" using ev(1) by (auto intro: odd_pos)
  then have "handle_event p ev s = Inr s'"
    using c ev m'(1) s'(1) by (simp add: handle_event_def deref_def Let_def with_client_def[of ?i _ s] fetch_from_client_def
        to_size_def[of 0] to_int_def[of 0])
  then show ?thesis using s'(2-4) same_online_trans[OF same_online_put] by blast
qed

text \<open>
  What the mark leaves alone: everything else of the server. The block that is lost when the
  peer has closed the connection of a client with nothing to be read.
\<close>

definition no_room :: "buffer \<Rightarrow> bool" where
  "no_room nodes \<longleftrightarrow> nodes = [] \<or> w_offset (last nodes) = CACHE_SIZE"

definition lost :: "server \<Rightarrow> server \<Rightarrow> nat \<Rightarrow> bool" where
  "lost s s' b \<longleftrightarrow> (waits (mem s) b \<or> length (store (mem s)) \<le> b) \<and> length (block (mem s') b) = 512
     \<and> \<not> waits (mem s') b \<and> b \<notin> set (blocks (live (infos s')))"

lemma held_is_out:
  assumes "server_ok (b # held) s"
  shows "\<not> waits (mem s) b \<and> b \<notin> set (blocks (live (infos s)))"
proof -
  have h: "held_ok (mem s) (blocks (live (infos s)) @ b # held)" by (rule infos_held[OF server_infos[OF assms]])
  then have "b \<notin> set (free_ids (available_cache_node (mem s)))" by (auto simp: held_ok_def pool_ok_def pool_parts_def)
  then show ?thesis using waits_iff[OF h, of b] held_distinct[OF h] by simp
qed

lemma mark_exact:
  assumes "i < length (infos s)" and "infos s ! i = Some c"
  shows "with_client i (\<lambda>c m. Inr ((), c\<lparr>pub := p\<rparr>, m)) s = Inr ((), put_client i (c\<lparr>pub := p\<rparr>) s)"
  using assms by (simp add: with_client_def deref_def put_client_def)

lemma event_hangup_exact:
  assumes "fresh_entry p s" and "infos s ! info_ptr p = Some c" and "revents ev \<noteq> 0" "even (revents ev)"
  shows "handle_event p ev s = Inr (put_client (info_ptr p) (c\<lparr>pub := FAIL\<rparr>) s)"
  using assms mark_exact[of "info_ptr p" s c FAIL] by (auto simp: fresh_entry_def handle_event_def deref_def Let_def)

lemma event_closed_exact:
  assumes ok: "server_ok held s" and p: "fresh_entry p s" and c: "infos s ! info_ptr p = Some c"
    and ev: "odd (revents ev)" "byte_available ev = Some 0"
    and rd: "read_into_buffer (mem s) (incoming ev) (reading_buffer c) 0 = Inr (0, reading_buffer c, inp, m')"
  shows "handle_event p ev s = Inr ((put_client (info_ptr p) (c\<lparr>pub := FAIL\<rparr>) s)\<lparr>mem := m'\<rparr>)"
proof -
  let ?i = "info_ptr p"
  have f: "?i < length (infos s)" "fd p = socket_id c" "fd p \<noteq> - 1" using p c by (auto simp: fresh_entry_def)
  have "c\<lparr>reading_buffer := reading_buffer c\<rparr> = c" "revents ev \<noteq> 0" "(infos s)[?i := Some c] = infos s"
    using ev(1) list_update_id[of "infos s" ?i] unfolding c by (auto intro: odd_pos)
  then have "handle_event p ev s = bindr (with_client ?i (\<lambda>c m. Inr ((), c\<lparr>pub := FAIL\<rparr>, m)) (s\<lparr>mem := m'\<rparr>)) (\<lambda>(_, s1). Inr s1)"
    using c f ev rd by (simp add: handle_event_def deref_def Let_def with_client_def[of ?i _ s] fetch_from_client_def
        to_size_def[of 0] to_int_def[of 0] put_client_def)
  then show ?thesis using mark_exact[of ?i "s\<lparr>mem := m'\<rparr>" c FAIL] f(1) c by (simp add: put_client_def)
qed

lemma event_closed_loses:
  assumes ok: "server_ok held s" and p: "fresh_entry p s" and c: "infos s ! info_ptr p = Some c" and nr: "no_room (reading_buffer c)"
    and ev: "odd (revents ev)" "byte_available ev = Some 0"
  obtains b m' where "handle_event p ev s = Inr ((put_client (info_ptr p) (c\<lparr>pub := FAIL\<rparr>) s)\<lparr>mem := m'\<rparr>)"
    "lost s ((put_client (info_ptr p) (c\<lparr>pub := FAIL\<rparr>) s)\<lparr>mem := m'\<rparr>) b"
proof -
  let ?i = "info_ptr p"
  note io = server_infos[OF ok]
  have pl: "plenty (mem s)" using io by (simp add: infos_ok_def)
  obtain b m' where r: "read_into_buffer (mem s) (incoming ev) (reading_buffer c) 0 = Inr (0, reading_buffer c, incoming ev, m')"
    "held_ok m' (b # blocks (live (infos s)) @ held)" "pool_frame (mem s) m' (set (blocks (live (infos s)) @ held))"
    "length (block m' b) = 512" "waits (mem s) b \<or> length (store (mem s)) \<le> b"
    using read_nothing_loses[OF nr[unfolded no_room_def] infos_held[OF io] pl, where inp = "incoming ev"] by blast
  have "held_ok m' (blocks (live (infos s)) @ b # held)" by (rule held_perm[OF r(2)]) simp
  moreover have "pool_frame (mem s) m' (set (blocks (live (infos s))))" by (rule pool_frame_mono[OF r(3)]) simp
  ultimately have "infos_ok m' (b # held) (infos s)" by (rule infos_frame[OF io])
  then have ok1: "server_ok (b # held) (s\<lparr>mem := m'\<rparr>)" by (rule server_mem[OF ok])
  have i: "?i < length (infos s)" using p by (auto simp: fresh_entry_def)
  then have "abs_srv (s\<lparr>mem := m'\<rparr>) ! ?i = Some (abs_client m' c)" using c by simp
  then obtain s' where s': "with_client ?i (\<lambda>c m. Inr ((), c\<lparr>pub := FAIL\<rparr>, m)) (s\<lparr>mem := m'\<rparr>) = Inr ((), s')" "server_ok (b # held) s'"
    using mark_client_ok[OF ok1, of ?i _ FAIL] i by fastforce
  then have "s' = (put_client ?i (c\<lparr>pub := FAIL\<rparr>) s)\<lparr>mem := m'\<rparr>"
    using mark_exact[of ?i "s\<lparr>mem := m'\<rparr>" c FAIL] i c by (simp add: put_client_def)
  then show ?thesis using that event_closed_exact[OF ok p c ev r(1)] r(4,5) held_is_out[OF s'(2)] by (simp add: lost_def)
qed

lemma read_into_buffer_data:
  assumes b: "buffer_ok m others nodes" and pl: "plenty m" and sz: "0 < length d" "length d < int_max"
  shows "\<exists>nodes' inp m'. read_into_buffer m [Read_data d] nodes (length d) = Inr (length d, nodes', inp, m')
    \<and> buffer_ok m' others nodes' \<and> contents m' nodes' = contents m nodes @ d \<and> pool_frame m m' (set others)
    \<and> (nodes = [] \<longrightarrow> length d \<le> 512 \<longrightarrow> chunks m' nodes' = [d]) \<and> (\<forall>ch \<in> set (chunks m' nodes'). length ch \<le> 512)"
proof (cases "read_into_buffer m [Read_data d] nodes (length d)")
  case (Inl e)
  then show ?thesis using read_into_buffer_Inl[OF b sz] pl by fastforce
next
  case (Inr q)
  then obtain v nodes' inp m' where r: "read_into_buffer m [Read_data d] nodes (length d) = Inr (v, nodes', inp, m')"
    by (cases q) auto
  from b sz r show ?thesis
  proof (cases rule: read_into_buffer_Inr)
    case (ok d')
    then have d': "d' = d" using pl by simp
    have "chunks m' nodes' = [d]" if e: "nodes = []" "length d \<le> 512"
    proof -
      obtain c m1 where "attach_cache m = Inr (Some c, m1)" using attach_total[OF buffer_ok_held[OF b] pl] by blast
      then have "length nodes' = 1"
        using r sz e by (cases "cache_write c 0 d m1")
          (auto simp: read_into_buffer_def first_node_def returned_def read_loop.simps Let_def cur_node_def
            to_size_def int_max_def add_size_small put_node_def merge_tmp_def to_int_small)
      then obtain n where n: "nodes' = [n]" by (cases nodes') auto
      have "contents m' nodes' = d" using ok(4) d' e(1) by (simp add: contents_chunks chunks_def)
      then show ?thesis using n by (simp add: contents_chunks chunks_def)
    qed
    moreover have "\<forall>ch \<in> set (chunks m' nodes'). length ch \<le> 512"
      using ok(3) NODE_SIZE_ok by (fastforce simp: chunks_def buffer_ok_def nodes_ok_def)
    ultimately show ?thesis using ok(1,3,4,7) d' r by blast
  qed (use pl in auto)
qed

text \<open>
  Data: the bytes come in behind what is already waiting, and the lines that are complete then
  are handled in their order. How the bytes lie in the nodes (\<open>chs\<close>) decides which lines
  the search finds, but they are always the first ones.
\<close>

lemma event_data_chunks:
  assumes ok: "server_ok held s" and p: "fresh_entry p s" and a: "abs_srv s ! info_ptr p = Some a"
    and ids: "\<forall>j \<in> set (clients s). j < length (infos s)"
    and ev: "odd (revents ev)" "byte_available ev = Some (int (length d))" "incoming ev = [Read_data d]"
    and len: "d \<noteq> []" "length (concat (a_in a) @ d) < int_max"
    and good: "\<And>chs. concat chs = concat (a_in a) @ d \<Longrightarrow> \<forall>ch \<in> set chs. length ch \<le> 512
      \<Longrightarrow> \<forall>l \<in> set (fst (drain_lines chs)). good_line l"
  shows "\<exists>s' chs n v. handle_event p ev s = Inr s' \<and> server_ok held s'
    \<and> concat chs = concat (a_in a) @ d \<and> (a_in a = [] \<longrightarrow> length d \<le> 512 \<longrightarrow> chs = [d]) \<and> (\<forall>ch \<in> set chs. length ch \<le> 512)
    \<and> a_handle_all (clients s) (info_ptr p) (fst (drain_lines chs)) (abs_srv s) = (n, v)
    \<and> abs_srv s' = set_in (info_ptr p) (snd (drain_lines chs)) v
    \<and> same_online (s\<lparr>sign_to_flush_msg := sign_to_flush_msg s + (if n = 0 then 0 else 1)\<rparr>) s'"
proof -
  let ?i = "info_ptr p"
  obtain c where c: "?i < length (infos s)" "infos s ! ?i = Some c" "fd p = socket_id c" "fd p \<noteq> - 1"
    using p by (auto simp: fresh_entry_def)
  have ac: "abs_client (mem s) c = a" using a c(1,2) by simp
  have cont: "contents (mem s) (reading_buffer c) = concat (a_in a)" using ac by (auto simp: abs_client_def contents_chunks)
  have co: "client_ok c" and pl: "plenty (mem s)" using ok c unfolding server_ok_def infos_ok_def by (metis nth_mem)+
  obtain others where b: "buffer_ok (mem s) others (reading_buffer c)" and
    up: "\<And>rb m' c'. buffer_ok m' others rb \<Longrightarrow> pool_frame (mem s) m' (set others) \<Longrightarrow> reading_buffer c' = rb
      \<Longrightarrow> writing_buffer c' = writing_buffer c \<Longrightarrow> client_ok c' \<Longrightarrow> socket_id c' = socket_id c \<Longrightarrow> name c' = name c
      \<Longrightarrow> server_ok held ((put_client ?i c' s)\<lparr>mem := m'\<rparr>)
        \<and> abs_srv ((put_client ?i c' s)\<lparr>mem := m'\<rparr>)
          = (abs_srv s)[?i := Some ((abs_client (mem s) c)\<lparr>a_pub := pub c', a_in := chunks m' rb\<rparr>)]"
    using put_reading[OF ok c(1,2)] by blast
  have sz: "0 < length d" "length d < int_max" using len by simp_all
  obtain rb inp m' where rd: "read_into_buffer (mem s) [Read_data d] (reading_buffer c) (length d) = Inr (length d, rb, inp, m')"
    "buffer_ok m' others rb" "contents m' rb = concat (a_in a) @ d" "pool_frame (mem s) m' (set others)"
    and one: "reading_buffer c = [] \<longrightarrow> length d \<le> 512 \<longrightarrow> chunks m' rb = [d]" and small: "\<forall>ch \<in> set (chunks m' rb). length ch \<le> 512"
    using read_into_buffer_data[OF b pl sz] unfolding cont by blast
  have "a_in a = chunks (mem s) (reading_buffer c)" using ac by (auto simp: abs_client_def)
  then have one: "a_in a = [] \<longrightarrow> length d \<le> 512 \<longrightarrow> chunks m' rb = [d]"
    using one by (simp add: chunks_def)
  let ?c = "c\<lparr>reading_buffer := rb\<rparr>"
  let ?s = "(put_client ?i ?c s)\<lparr>mem := m'\<rparr>" and ?chs = "chunks m' rb"
  have chs: "concat ?chs = concat (a_in a) @ d" using rd(3) by (simp add: contents_chunks)
  have "client_ok ?c" using co by (simp add: client_ok_def)
  then have u: "server_ok held ?s \<and> abs_srv ?s = (abs_srv s)[?i := Some ((abs_client (mem s) c)\<lparr>a_pub := pub ?c, a_in := ?chs\<rparr>)]"
    by (intro up[OF rd(2,4)]) simp_all
  have at: "abs_srv ?s ! ?i = Some (a\<lparr>a_in := ?chs\<rparr>)" using u ac c(1) by (auto simp: abs_client_def)
  have into: "abs_srv ?s = set_in ?i ?chs (abs_srv s)"
    using u ac c(1,2) by (auto simp: abs_client_def set_in_def a_update_def)
  have l: "?i < length (infos ?s)" using c(1) by (simp add: put_client_def)
  have cl: "clients ?s = clients s" by (simp add: put_client_def)
  have g: "\<forall>l \<in> set (fst (drain_lines ?chs)). good_line l" using good[OF chs small] .
  have len': "length (concat (a_in (a\<lparr>a_in := ?chs\<rparr>))) < int_max" using len(2) chs by simp
  obtain n v where h: "a_handle_all (clients s) ?i (fst (drain_lines ?chs)) (abs_srv s) = (n, v)"
    by (cases "a_handle_all (clients s) ?i (fst (drain_lines ?chs)) (abs_srv s)")
  have "a_handle_all (clients s) ?i (fst (drain_lines ?chs)) (set_in ?i ?chs (abs_srv s)) = (n, set_in ?i ?chs v)"
    using a_handle_all_in[of "clients s" "abs_srv s" ?i "fst (drain_lines ?chs)" ?chs] ids c(1) h ok
    by (simp add: server_ok_def online_ok_def)
  then have h': "a_handle_all (clients ?s) ?i (fst (drain_lines (a_in (a\<lparr>a_in := ?chs\<rparr>)))) (abs_srv ?s) = (n, set_in ?i ?chs v)"
    unfolding into cl by simp
  obtain s' where s': "try_to_handle_msg ?i ?s = Inr s'" "server_ok held s'"
    "abs_srv s' = set_in ?i (snd (drain_lines ?chs)) (set_in ?i ?chs v)"
    "same_online (?s\<lparr>sign_to_flush_msg := sign_to_flush_msg ?s + (if n = 0 then 0 else 1)\<rparr>) s'"
    using try_to_handle_msg_ok[OF conjunct1[OF u] l at len' _ h'] g by auto
  have "set_in ?i (snd (drain_lines ?chs)) (set_in ?i ?chs v) = set_in ?i (snd (drain_lines ?chs)) v"
    by (cases "?i < length v") (auto simp: set_in_def a_update_def option.map_comp comp_def list_update_beyond not_less)
  moreover have "revents ev \<noteq> 0" using ev(1) by (auto intro: odd_pos)
  then have "handle_event p ev s = Inr s'"
    using c ev rd(1) s'(1) sz by (simp add: handle_event_def deref_def Let_def with_client_def[of ?i _ s] fetch_from_client_def
        to_size_of_nat to_int_small int_max_def)
  moreover have "same_online (s\<lparr>sign_to_flush_msg := sign_to_flush_msg s + (if n = 0 then 0 else 1)\<rparr>) s'"
    using s'(4) by (simp add: same_online_def put_client_def)
  ultimately show ?thesis using s'(2,3) chs h one small by metis
qed

lemma event_data:
  assumes "server_ok held s" and "fresh_entry p s" and "abs_srv s ! info_ptr p = Some a"
    and "\<forall>j \<in> set (clients s). j < length (infos s)"
    and "odd (revents ev)" "byte_available ev = Some (int (length d))" "incoming ev = [Read_data d]"
    and "d \<noteq> []" "length (concat (a_in a) @ d) < int_max"
    and good: "\<forall>l \<in> set (full_lines (concat (a_in a) @ d)). good_line l"
  shows "\<exists>s' chs n v. handle_event p ev s = Inr s' \<and> server_ok held s'
    \<and> concat chs = concat (a_in a) @ d \<and> (a_in a = [] \<longrightarrow> length d \<le> 512 \<longrightarrow> chs = [d])
    \<and> a_handle_all (clients s) (info_ptr p) (fst (drain_lines chs)) (abs_srv s) = (n, v)
    \<and> abs_srv s' = set_in (info_ptr p) (snd (drain_lines chs)) v
    \<and> same_online (s\<lparr>sign_to_flush_msg := sign_to_flush_msg s + (if n = 0 then 0 else 1)\<rparr>) s'"
proof -
  have g: "\<forall>l \<in> set (fst (drain_lines chs)). good_line l" if "concat chs = concat (a_in a) @ d" for chs
    using drain_prefix[of chs] good that by auto
  show ?thesis using event_data_chunks[OF assms(1-9)] g by blast
qed

section \<open>Lines that no node holds\<close>

text \<open>
  The search for the end of a line ends with the first node. When the first 512 bytes that wait
  hold none, no line is found, now or after anything that comes in behind.
\<close>

definition deaf :: "string \<Rightarrow> bool" where
  "deaf t \<longleftrightarrow> 512 \<le> length t \<and> LF \<notin> set (take 512 t)"

lemma deaf_append: "deaf t \<Longrightarrow> deaf (t @ d)"
  by (simp add: deaf_def)

lemma deaf_drains_nothing:
  assumes "deaf (concat chs)" and "\<forall>ch \<in> set chs. length ch \<le> 512"
  shows "drain_lines chs = ([], chs)"
proof (cases chs)
  case (Cons c cs)
  then have "c = take (length c) (take 512 (concat chs))" using assms(2) by simp
  then have "set c \<subseteq> set (take 512 (concat chs))" by (metis set_take_subset)
  then have "LF \<notin> set c" using assms(1) by (auto simp: deaf_def)
  then have "first_size chs = 0" using Cons by (auto simp: first_size_def line_size_def dest: set_takeWhileD)
  then show ?thesis by (simp add: drain_lines.simps[of chs])
qed (use assms(1) in \<open>simp add: deaf_def\<close>)

lemma set_in_same: "v ! i = Some a \<Longrightarrow> a_in a = chs \<Longrightarrow> set_in i chs v = v"
  by (cases "i < length v") (auto simp: set_in_def a_update_def list_update_same_conv list_update_beyond not_less)

lemma event_deaf:
  assumes ok: "server_ok held s" and p: "fresh_entry p s" and a: "abs_srv s ! info_ptr p = Some a"
    and ev: "odd (revents ev)" "byte_available ev = Some (int (length d))" "incoming ev = [Read_data d]"
    and len: "d \<noteq> []" "length (concat (a_in a) @ d) < int_max" and deaf: "deaf (concat (a_in a) @ d)"
  obtains s' chs where "handle_event p ev s = Inr s'" "server_ok held s'" "fresh_entry p s'" "same_online s s'"
    "concat chs = concat (a_in a) @ d" "abs_srv s' = set_in (info_ptr p) chs (abs_srv s)"
proof -
  let ?i = "info_ptr p"
  have ids: "\<forall>j \<in> set (clients s). j < length (infos s)" using ok by (simp add: server_ok_def online_ok_def)
  have g: "\<forall>l \<in> set (fst (drain_lines chs)). good_line l"
    if "concat chs = concat (a_in a) @ d" "\<forall>ch \<in> set chs. length ch \<le> 512" for chs
    using deaf_drains_nothing[of chs] deaf that by simp
  obtain s' chs n v where s': "handle_event p ev s = Inr s'" "server_ok held s'" "concat chs = concat (a_in a) @ d"
    "\<forall>ch \<in> set chs. length ch \<le> 512" "a_handle_all (clients s) ?i (fst (drain_lines chs)) (abs_srv s) = (n, v)"
    "abs_srv s' = set_in ?i (snd (drain_lines chs)) v"
    "same_online (s\<lparr>sign_to_flush_msg := sign_to_flush_msg s + (if n = 0 then 0 else 1)\<rparr>) s'"
    using event_data_chunks[OF ok p a ids ev len g] by blast
  have "drain_lines chs = ([], chs)" using deaf_drains_nothing s'(3,4) deaf by simp
  then have v: "v = abs_srv s" "n = 0" and ab: "abs_srv s' = set_in ?i chs (abs_srv s)" using s'(5,6) by auto
  have so: "same_online s s'" using s'(7) v(2) by simp
  obtain c where c: "?i < length (infos s)" "infos s ! ?i = Some c" "fd p = socket_id c" "fd p \<noteq> - 1"
    using p by (auto simp: fresh_entry_def)
  have l: "?i < length (infos s')" using so c(1) by (simp add: same_online_def)
  have "abs_srv s' ! ?i = Some (a\<lparr>a_in := chs\<rparr>)" unfolding ab using set_in_nth[of ?i "abs_srv s" chs ?i] c(1) a by simp
  then obtain c' where "infos s' ! ?i = Some c'" "a\<lparr>a_in := chs\<rparr> = abs_client (mem s') c'" using client_at[OF l] by blast
  moreover have "a = abs_client (mem s) c" using a c(1,2) by simp
  ultimately have "fresh_entry p s'" using c(3,4) l by (auto simp: fresh_entry_def abs_client_def)
  then show ?thesis using that s'(1-3) ab so by blast
qed

text \<open>What arrives on a connection, as the answer of \<^verbatim>\<open>poll\<close>, of \<^verbatim>\<open>ioctl\<close> and of \<^verbatim>\<open>read\<close>.\<close>

definition arrival :: "string \<Rightarrow> event" where
  "arrival d = \<lparr>revents = 1, byte_available = Some (int (length d)), incoming = [Read_data d]\<rparr>"

lemma arrivals_deaf:
  assumes "server_ok held s" and "fresh_entry p s" and "abs_srv s ! info_ptr p = Some a"
    and "deaf (concat (a_in a))" "[] \<notin> set ds" "length (concat (a_in a) @ concat ds) < int_max"
  shows "\<exists>s' chs. handle_events (map (\<lambda>d. (p, arrival d)) ds) s = Inr s' \<and> server_ok held s' \<and> same_online s s'
    \<and> concat chs = concat (a_in a) @ concat ds \<and> abs_srv s' = set_in (info_ptr p) chs (abs_srv s)"
  using assms
proof (induction ds arbitrary: s a)
  case Nil
  then show ?case using set_in_same[OF Nil(3)] by (intro exI[of _ s] exI[of _ "a_in a"]) simp
next
  case (Cons d ds)
  let ?i = "info_ptr p"
  have d: "d \<noteq> []" "length (concat (a_in a) @ d) < int_max" using Cons.prems(5,6) by auto
  obtain s1 chs where s1: "handle_event p (arrival d) s = Inr s1" "server_ok held s1" "fresh_entry p s1" "same_online s s1"
    "concat chs = concat (a_in a) @ d" "abs_srv s1 = set_in ?i chs (abs_srv s)"
    by (rule event_deaf[OF Cons.prems(1-3) _ _ _ d deaf_append[OF Cons.prems(4)], where ev = "arrival d"])
      (simp_all add: arrival_def)
  have i: "?i < length (abs_srv s)" using Cons.prems(2) by (auto simp: fresh_entry_def)
  have a1: "abs_srv s1 ! ?i = Some (a\<lparr>a_in := chs\<rparr>)" unfolding s1(6) using set_in_nth[OF i, of chs ?i] Cons.prems(3) by simp
  have "deaf (concat (a_in (a\<lparr>a_in := chs\<rparr>)))" using s1(5) deaf_append[OF Cons.prems(4)] by simp
  from Cons.IH[OF s1(2,3) a1 this] Cons.prems(5,6) s1(5)
  obtain s' chs' where s': "handle_events (map (\<lambda>d. (p, arrival d)) ds) s1 = Inr s'" "server_ok held s'" "same_online s1 s'"
    "concat chs' = concat (a_in a) @ d @ concat ds" "abs_srv s' = set_in ?i chs' (abs_srv s1)" by auto
  have "abs_srv s' = set_in ?i chs' (abs_srv s)" using s'(5) s1(6) set_in_set_in by simp
  then show ?case using s1(1) s' same_online_trans[OF s1(4)] by (intro exI[of _ s'] exI[of _ chs']) simp
qed

section \<open>A read that fails\<close>

text \<open>
  A failing \<^verbatim>\<open>read\<close> on an idle client writes in front of the buffer's block, and on a client
  with waiting data its result, \<open>- 1\<close>, is taken for the number of bytes that arrived.
\<close>

lemma event_fail_idle:
  assumes ok: "server_ok held s" and p: "fresh_entry p s" and a: "abs_srv s ! info_ptr p = Some a" "a_in a = []"
    and ev: "odd (revents ev)" "byte_available ev = Some (int n)" "incoming ev = [Read_fail]" "0 < n" "n < int_max"
  shows "handle_event p ev s = Inl Out_of_bounds"
proof -
  let ?i = "info_ptr p"
  obtain c where c: "?i < length (infos s)" "infos s ! ?i = Some c" "fd p = socket_id c" "fd p \<noteq> - 1"
    using p by (auto simp: fresh_entry_def)
  have pl: "plenty (mem s)" and io: "infos_ok (mem s) held (infos s)" using ok by (simp_all add: server_ok_def infos_ok_def)
  have "abs_client (mem s) c = a" using a(1) c(1,2) by simp
  then have "chunks (mem s) (reading_buffer c) = []" using a(2) by (auto simp: abs_client_def)
  then have e: "reading_buffer c = []" by (simp add: chunks_def)
  obtain others where b: "buffer_ok (mem s) others (reading_buffer c)"
    by (rule put_reading[OF ok c(1,2)], erule that)
  have "read_into_buffer (mem s) (incoming ev) (reading_buffer c) n = Inl Out_of_bounds"
    using read_into_buffer_empty_fault[OF b[unfolded e] ev(4,5) pl] ev(3) e by simp
  moreover have "revents ev \<noteq> 0" using ev(1) by (auto intro: odd_pos)
  ultimately show ?thesis
    using c ev by (simp add: handle_event_def deref_def Let_def with_client_def fetch_from_client_def to_size_of_nat int_max_def)
qed

lemma event_no_size:
  assumes ok: "server_ok held s" and p: "fresh_entry p s"
    and ev: "odd (revents ev)" "byte_available ev = None"
  shows "handle_event p ev s = try_to_handle_msg (info_ptr p) s"
proof -
  let ?i = "info_ptr p"
  obtain c where c: "?i < length (infos s)" "infos s ! ?i = Some c" "fd p = socket_id c" "fd p \<noteq> - 1"
    using p by (auto simp: fresh_entry_def)
  have "(infos s)[?i := Some c] = infos s" by (metis c(2) list_update_id)
  then have s: "(put_client ?i c s)\<lparr>mem := mem s\<rparr> = s" and "put_client ?i c s = s" by (simp_all add: put_client_def)
  moreover have "revents ev \<noteq> 0" using ev(1) by (auto intro: odd_pos)
  moreover have "to_int (to_size (- 1)) = - 1" by (simp add: to_int_def)
  ultimately show ?thesis
    using c ev s by (simp add: handle_event_def deref_def Let_def with_client_def fetch_from_client_def)
qed

end
