(* ===== verification/Systems.thy ===== *)
theory Systems
  imports Prelude
begin

text \<open>
  Transition systems with an environment: the runs of a step relation in which every action is one
  that the environment allows, and what follows from an invariant, from the absence of faults
  and from a quantity that decreases. \<open>Steps\<close> and \<open>Threads\<close> interpret the locales on the threads
  of the server.
\<close>

section \<open>Runs\<close>

inductive runs :: "('act \<Rightarrow> 's \<Rightarrow> 's \<Rightarrow> bool) \<Rightarrow> ('act \<Rightarrow> 's \<Rightarrow> bool) \<Rightarrow> 's \<Rightarrow> nat \<Rightarrow> 's \<Rightarrow> bool"
  for step allowed s where
  runs_refl: "runs step allowed s 0 s"
| runs_move: "runs step allowed s n s1 \<Longrightarrow> allowed act s1 \<Longrightarrow> step act s1 s2 \<Longrightarrow> runs step allowed s (Suc n) s2"

lemma runs_first: "runs step allowed s1 n s2 \<Longrightarrow> allowed act s \<Longrightarrow> step act s s1 \<Longrightarrow> runs step allowed s (Suc n) s2"
  by (induction rule: runs.induct) (auto intro: runs.intros)

section \<open>An invariant\<close>

locale guarded_system =
  fixes step :: "'act \<Rightarrow> 's \<Rightarrow> 's \<Rightarrow> bool"
    and allowed :: "'act \<Rightarrow> 's \<Rightarrow> bool"
    and ok :: "'s \<Rightarrow> bool"
  assumes keeps: "step act s s' \<Longrightarrow> allowed act s \<Longrightarrow> ok s \<Longrightarrow> ok s'"
begin

lemma runs_ok: "runs step allowed s n s' \<Longrightarrow> ok s \<Longrightarrow> ok s'"
  by (induction rule: runs.induct) (auto intro: keeps)

end

section \<open>No faults\<close>

locale safe_system = guarded_system step allowed ok
  for step :: "'act \<Rightarrow> 's \<Rightarrow> 's \<Rightarrow> bool" and allowed :: "'act \<Rightarrow> 's \<Rightarrow> bool" and ok :: "'s \<Rightarrow> bool" +
  fixes crash :: "'act \<Rightarrow> 's \<Rightarrow> fault \<Rightarrow> bool"
  assumes safe: "ok s \<Longrightarrow> allowed act s \<Longrightarrow> \<not> crash act s e"
begin

lemma runs_safe: "runs step allowed s n s' \<Longrightarrow> ok s \<Longrightarrow> allowed act s' \<Longrightarrow> \<not> crash act s' e"
  using safe[OF runs_ok] .

end

section \<open>Stopping\<close>

text \<open>Once \<open>stopping\<close> holds it stays, and every move lowers the number of moves that are left.\<close>

locale stopping_system = guarded_system step allowed ok
  for step :: "'act \<Rightarrow> 's \<Rightarrow> 's \<Rightarrow> bool" and allowed :: "'act \<Rightarrow> 's \<Rightarrow> bool" and ok :: "'s \<Rightarrow> bool" +
  fixes stopping :: "'s \<Rightarrow> bool" and left :: "'s \<Rightarrow> nat"
  assumes decreases: "step act s s' \<Longrightarrow> allowed act s \<Longrightarrow> ok s \<Longrightarrow> stopping s \<Longrightarrow> stopping s' \<and> left s' < left s"
begin

lemma runs_lower: "runs step allowed s n s' \<Longrightarrow> ok s \<Longrightarrow> stopping s \<Longrightarrow> stopping s' \<and> n + left s' \<le> left s"
proof (induction rule: runs.induct)
  case (runs_move n s1 act s2)
  then show ?case using decreases[OF runs_move(3,2) runs_ok[OF runs_move(1,5)]] by simp
qed simp

lemma runs_bounded: "runs step allowed s n s' \<Longrightarrow> ok s \<Longrightarrow> stopping s \<Longrightarrow> n \<le> left s"
  using runs_lower by fastforce

end

end
