(* ===== verification/Steps.thy ===== *)
theory Steps
  imports Events Systems
begin

text \<open>
  The three threads of the server as one transition system. A transition is a part of a thread
  after which the others may run: a pass of the listening thread's loop; the reading thread's
  snapshot, the logging of the snapshot (\<^verbatim>\<open>DEBUG_BLOCK\<close>), \<^verbatim>\<open>poll\<close> and then every event it
  handles; the writing thread's copy of the list, the flushing of every client, the logout of every
  client and the wait. Both working threads run from the start here, on an empty list until the
  first client arrives; their creation and end is the subject of theory \<open>Threads\<close>.
\<close>

section \<open>The system\<close>

text \<open>
  Where the two working threads are. \<open>Listed\<close> and \<open>Polling\<close>: before and after the logging of
  the snapshot; \<open>Handling\<close>: the entries that the loop after \<^verbatim>\<open>poll\<close> has not reached yet.
  \<open>Flushing\<close> has the list of the round and what is left of it, \<open>Logging_out\<close> what is left.
\<close>

datatype reader =
  Between
| Listed "pollfd list"
| Polling "pollfd list"
| Handling "(pollfd \<times> event) list"
| Reader_ended

datatype writer =
  Resting
| Flushing "nat option list" "nat option list"
| Logging_out "nat option list"
| Writer_ended

record system =
  srv :: server
  reader :: reader
  writer :: writer

datatype action =
  Accept peer "int \<times> int" int
| List_clients
| Log_list
| Poll int "event list"
| Handle
| Take_clients
| Flush
| Log_out
| Wait int

inductive step :: "(nat \<Rightarrow> string \<Rightarrow> nat \<Rightarrow> string option) \<Rightarrow> action \<Rightarrow> system \<Rightarrow> system \<Rightarrow> bool"
  for inet_ntop where
  accept: "handle_listen_round inet_ntop peer spins sock (srv y) = Inr s
    \<Longrightarrow> step inet_ntop (Accept peer spins sock) y (y\<lparr>srv := s\<rparr>)"
| listed: "reader y = Between \<Longrightarrow> get_polling_and_client_list (srv y) = Inr (Some data, s)
    \<Longrightarrow> step inet_ntop List_clients y (y\<lparr>srv := s, reader := Listed data\<rparr>)"
| no_list: "reader y = Between \<Longrightarrow> get_polling_and_client_list (srv y) = Inr (None, s)
    \<Longrightarrow> step inet_ntop List_clients y (y\<lparr>srv := s, reader := Reader_ended\<rparr>)"
| logged: "reader y = Listed data \<Longrightarrow> debug_block data (srv y) = Inr ()
    \<Longrightarrow> step inet_ntop Log_list y (y\<lparr>reader := Polling data\<rparr>)"
| polled: "reader y = Polling data \<Longrightarrow> length events = length data
    \<Longrightarrow> step inet_ntop (Poll ret events) y
          (y\<lparr>reader := (if - 1 = ret \<or> 0 = ret then Between else Handling (zip data events))\<rparr>)"
| handled: "reader y = Handling ((p, e) # pes) \<Longrightarrow> handle_event p e (srv y) = Inr s
    \<Longrightarrow> step inet_ntop Handle y (y\<lparr>srv := s, reader := Handling pes\<rparr>)"
| all_handled: "reader y = Handling [] \<Longrightarrow> step inet_ntop Handle y (y\<lparr>reader := Between\<rparr>)"
| taken: "writer y = Resting \<Longrightarrow> get_client_list (srv y) = Inr (Some arr, sz, s) \<Longrightarrow> xs = take (nat sz) arr
    \<Longrightarrow> step inet_ntop Take_clients y (y\<lparr>srv := s, writer := Flushing xs xs\<rparr>)"
| not_taken: "writer y = Resting \<Longrightarrow> get_client_list (srv y) = Inr (None, sz, s)
    \<Longrightarrow> step inet_ntop Take_clients y (y\<lparr>srv := s, writer := Writer_ended\<rparr>)"
| flushed: "writer y = Flushing xs (x # ys) \<Longrightarrow> flush_clients [x] (srv y) = Inr s
    \<Longrightarrow> step inet_ntop Flush y (y\<lparr>srv := s, writer := Flushing xs ys\<rparr>)"
| all_flushed: "writer y = Flushing xs [] \<Longrightarrow> step inet_ntop Flush y (y\<lparr>writer := Logging_out xs\<rparr>)"
| logged_out: "writer y = Logging_out (x # xs) \<Longrightarrow> logout_clients [x] (srv y) = Inr s
    \<Longrightarrow> step inet_ntop Log_out y (y\<lparr>srv := s, writer := Logging_out xs\<rparr>)"
| waited: "writer y = Logging_out [] \<Longrightarrow> wait_for_messages raised (srv y) = Inr s
    \<Longrightarrow> step inet_ntop (Wait raised) y (y\<lparr>srv := s, writer := Resting\<rparr>)"

text \<open>A transition that does not come back: the code runs into undefined behaviour or a deadlock.\<close>

inductive crash :: "(nat \<Rightarrow> string \<Rightarrow> nat \<Rightarrow> string option) \<Rightarrow> action \<Rightarrow> system \<Rightarrow> fault \<Rightarrow> bool"
  for inet_ntop where
  "handle_listen_round inet_ntop peer spins sock (srv y) = Inl e \<Longrightarrow> crash inet_ntop (Accept peer spins sock) y e"
| "reader y = Between \<Longrightarrow> get_polling_and_client_list (srv y) = Inl e \<Longrightarrow> crash inet_ntop List_clients y e"
| "reader y = Listed data \<Longrightarrow> debug_block data (srv y) = Inl e \<Longrightarrow> crash inet_ntop Log_list y e"
| "reader y = Handling ((p, ev) # pes) \<Longrightarrow> handle_event p ev (srv y) = Inl e \<Longrightarrow> crash inet_ntop Handle y e"
| "writer y = Resting \<Longrightarrow> get_client_list (srv y) = Inl e \<Longrightarrow> crash inet_ntop Take_clients y e"
| "writer y = Flushing xs (x # ys) \<Longrightarrow> flush_clients [x] (srv y) = Inl e \<Longrightarrow> crash inet_ntop Flush y e"
| "writer y = Logging_out (x # xs) \<Longrightarrow> logout_clients [x] (srv y) = Inl e \<Longrightarrow> crash inet_ntop Log_out y e"
| "writer y = Logging_out [] \<Longrightarrow> wait_for_messages raised (srv y) = Inl e \<Longrightarrow> crash inet_ntop (Wait raised) y e"

inductive_cases step_acceptE: "step ntop (Accept peer spins sock) y y'"
inductive_cases step_listE: "step ntop List_clients y y'"
inductive_cases step_logE: "step ntop Log_list y y'"
inductive_cases step_pollE: "step ntop (Poll ret events) y y'"
inductive_cases step_handleE: "step ntop Handle y y'"
inductive_cases step_takeE: "step ntop Take_clients y y'"
inductive_cases step_flushE: "step ntop Flush y y'"
inductive_cases step_logoutE: "step ntop Log_out y y'"
inductive_cases step_waitE: "step ntop (Wait raised) y y'"

inductive_simps crash_simps:
  "crash ntop (Accept peer spins sock) y e"
  "crash ntop List_clients y e"
  "crash ntop Log_list y e"
  "crash ntop (Poll ret events) y e"
  "crash ntop Handle y e"
  "crash ntop Take_clients y e"
  "crash ntop Flush y e"
  "crash ntop Log_out y e"
  "crash ntop (Wait raised) y e"

inductive run :: "(nat \<Rightarrow> string \<Rightarrow> nat \<Rightarrow> string option) \<Rightarrow> action list \<Rightarrow> system \<Rightarrow> system \<Rightarrow> bool" for ntop where
  run_done: "run ntop [] y y"
| run_step: "step ntop act y y1 \<Longrightarrow> run ntop acts y1 y2 \<Longrightarrow> run ntop (act # acts) y y2"

fun writing_action :: "action \<Rightarrow> bool" where
  "writing_action Take_clients = True"
| "writing_action Flush = True"
| "writing_action Log_out = True"
| "writing_action (Wait raised) = True"
| "writing_action _ = False"

fun reading_action :: "action \<Rightarrow> bool" where
  "reading_action List_clients = True"
| "reading_action Log_list = True"
| "reading_action (Poll ret events) = True"
| "reading_action Handle = True"
| "reading_action _ = False"

section \<open>Clients that a step leaves alone\<close>

text \<open>Client \<open>j\<close> is still there, with its socket, its mark and its input.\<close>

definition kept :: "nat \<Rightarrow> aclient option list \<Rightarrow> aclient option list \<Rightarrow> bool" where
  "kept j v v' \<longleftrightarrow> (\<forall>a. v ! j = Some a \<longrightarrow>
     (\<exists>a'. v' ! j = Some a' \<and> a_socket a' = a_socket a \<and> a_pub a' = a_pub a \<and> a_in a' = a_in a))"

lemma kept_refl [simp]: "kept j v v"
  by (simp add: kept_def)

lemma kept_trans: "kept j v1 v2 \<Longrightarrow> kept j v2 v3 \<Longrightarrow> kept j v1 v3"
  unfolding kept_def by metis

lemma kept_other [simp]: "i \<noteq> j \<Longrightarrow> kept j v (v[i := x])"
  by (simp add: kept_def)

lemma kept_set_in: "i \<noteq> j \<Longrightarrow> kept j v (set_in i x v)"
  by (simp add: set_in_def a_update_def)

lemma kept_append: "j < length v \<Longrightarrow> kept j v (v @ ws)"
  by (simp add: kept_def nth_append)

lemma kept_send: "\<exists>a'. a_send tgt ex line (Some a) = Some a' \<and> a_socket a' = a_socket a \<and> a_pub a' = a_pub a \<and> a_in a' = a_in a"
  by (simp add: a_send_def)

lemma kept_deliver:
  assumes "distinct ids" and "\<forall>i \<in> set ids. i < length v"
  shows "kept j v (a_deliver ids tgt ex line v)"
  unfolding kept_def using a_deliver_nth[OF assms] kept_send by metis

lemma kept_handle:
  assumes d: "distinct ids" and l: "\<forall>i \<in> set ids. i < length v"
  shows "kept j v (snd (a_handle ids i line v)) \<and> length (snd (a_handle ids i line v)) = length v"
proof -
  have r: "kept j v (a_update i (\<lambda>a. a\<lparr>a_name := n\<rparr>) v)" for n
    by (cases "i < length v \<and> i = j") (auto simp: kept_def a_update_def nth_list_update list_update_beyond not_less)
  have l': "\<forall>k \<in> set ids. k < length (a_update i f v)" for f using l by (simp add: a_update_def)
  show ?thesis
    using kept_deliver[OF d l] kept_trans[OF r kept_deliver[OF d l']] a_deliver_nth[OF d l] a_deliver_nth[OF d l']
    by (auto simp: a_handle_def a_say_def Let_def a_update_def split: if_splits)
qed

lemma kept_handle_all:
  assumes "distinct ids" and "\<forall>i \<in> set ids. i < length v"
  shows "kept j v (snd (a_handle_all ids i ls v)) \<and> length (snd (a_handle_all ids i ls v)) = length v"
  using assms(2)
proof (induction ls arbitrary: v)
  case (Cons l ls)
  obtain n v1 where h: "a_handle ids i l v = (n, v1)" by (cases "a_handle ids i l v")
  then have 1: "kept j v v1" "length v1 = length v" using kept_handle[OF assms(1) Cons.prems, of j i l] by simp_all
  have "\<forall>i \<in> set ids. i < length v1" using 1(2) Cons.prems by simp
  from Cons.IH[OF this] show ?case using 1 h kept_trans by (auto split: prod.splits)
qed simp

section \<open>The snapshot\<close>

definition entry_ok :: "pollfd \<Rightarrow> server \<Rightarrow> bool" where
  "entry_ok p s \<longleftrightarrow> fd p \<noteq> - 1 \<longrightarrow> info_ptr p \<in> set (clients s)
     \<and> (\<exists>a. abs_srv s ! info_ptr p = Some a \<and> a_socket a = fd p \<and> a_pub a = 0)"

lemma entry_kept:
  assumes "entry_ok p s" and "kept (info_ptr p) (abs_srv s) (abs_srv s')"
    and "info_ptr p \<in> set (clients s) \<Longrightarrow> fd p \<noteq> - 1 \<Longrightarrow> info_ptr p \<in> set (clients s')"
  shows "entry_ok p s'"
  using assms unfolding entry_ok_def kept_def by metis

lemma entry_fresh:
  assumes ok: "server_ok held s" and p: "entry_ok p s" "fd p \<noteq> - 1"
  shows "fresh_entry p s" and "\<exists>a. abs_srv s ! info_ptr p = Some a"
proof -
  obtain a where a: "info_ptr p \<in> set (clients s)" "abs_srv s ! info_ptr p = Some a" "a_socket a = fd p"
    using p by (auto simp: entry_ok_def)
  have i: "info_ptr p < length (infos s)" using ok a(1) by (simp add: server_ok_def online_ok_def)
  obtain c where "infos s ! info_ptr p = Some c" "a = abs_client (mem s) c" using client_at[OF i a(2)] by blast
  then show "fresh_entry p s" using i a(3) p(2) by (simp add: fresh_entry_def abs_client_def)
  show "\<exists>a. abs_srv s ! info_ptr p = Some a" using a(2) by blast
qed

definition poll_entry :: "server \<Rightarrow> nat \<Rightarrow> pollfd" where
  "poll_entry s i = (let c = the (infos s ! i) in \<lparr>fd = (if 0 = pub c then socket_id c else - 1), info_ptr = i\<rparr>)"

lemma polling_list_run:
  "\<forall>i \<in> set xs. i < length (infos s) \<and> infos s ! i \<noteq> None \<Longrightarrow> polling_list xs s = Inr (map (poll_entry s) xs)"
  by (induction xs) (auto simp: deref_def poll_entry_def)

lemma get_polling_ok:
  assumes ok: "server_ok held s"
  shows "\<exists>s'. get_polling_and_client_list s = Inr (Some (map (poll_entry s) (clients s)), s') \<and> server_ok held s'
    \<and> same_online s s' \<and> infos s' = infos s \<and> abs_srv s' = abs_srv s"
proof -
  have io: "infos_ok (mem s) held (infos s)" and on: "online_ok s" using ok by (simp_all add: server_ok_def)
  have "plenty (mem s)" using io by (simp add: infos_ok_def)
  then obtain ms where m: "malloc (mem s) = (True, (mem s)\<lparr>mallocs := ms\<rparr>)" "set ms \<subseteq> set (mallocs (mem s))"
    using malloc_sub by blast
  let ?s = "s\<lparr>mem := (mem s)\<lparr>mallocs := ms\<rparr>\<rparr>"
  note io' = infos_mallocs[OF io m(2)]
  have "polling_list (clients s) (s\<lparr>server_lock := True\<rparr>) = Inr (map (poll_entry s) (clients s))"
    using on polling_list_run[of "clients s" "s\<lparr>server_lock := True\<rparr>"] by (simp add: online_ok_def poll_entry_def)
  moreover have "mutex_unlock (s\<lparr>server_lock := True, mem := (mem s)\<lparr>mallocs := ms\<rparr>\<rparr>) = ?s"
    using on by (cases s) (simp add: mutex_unlock_def online_ok_def)
  moreover have "None \<notin> set (map Some (clients s))" by auto
  ultimately have "get_polling_and_client_list s = Inr (Some (map (poll_entry s) (clients s)), ?s)"
    using on m(1) by (auto simp: get_polling_and_client_list_def mutex_lock_def online_ok_def fill_array_def)
  moreover have "server_ok held ?s" using on io'(1) by (simp add: server_ok_def online_ok_def)
  moreover have "abs_srv ?s = abs_srv s" using io'(2) by simp
  ultimately show ?thesis by (auto simp: same_online_def)
qed

lemma poll_entry_ok:
  assumes ok: "server_ok held s" and i: "i \<in> set (clients s)"
  shows "entry_ok (poll_entry s i) s" and "info_ptr (poll_entry s i) = i"
proof -
  obtain c where "i < length (infos s)" "infos s ! i = Some c" using ok i by (auto simp: server_ok_def online_ok_def)
  then show "entry_ok (poll_entry s i) s" using i by (auto simp: entry_ok_def poll_entry_def abs_client_def Let_def)
qed (simp add: poll_entry_def Let_def)

section \<open>The answers of poll\<close>

definition tame_event :: "event \<Rightarrow> aclient \<Rightarrow> bool" where
  "tame_event e a \<longleftrightarrow> odd (revents e) \<longrightarrow> byte_available e = Some 0 \<or>
     (\<exists>d. byte_available e = Some (int (length d)) \<and> incoming e = [Read_data d] \<and> d \<noteq> []
        \<and> length (concat (a_in a) @ d) < int_max \<and> (\<forall>l \<in> set (full_lines (concat (a_in a) @ d)). good_line l))"

definition same_rest :: "server \<Rightarrow> server \<Rightarrow> bool" where
  "same_rest s s' \<longleftrightarrow> clients s' = clients s \<and> server_info s' = server_info s \<and> outs s' = outs s
     \<and> closed s' = closed s \<and> length (infos s') = length (infos s)"

lemma same_rest_refl [simp]: "same_rest s s"
  and same_rest_trans: "same_rest s1 s2 \<Longrightarrow> same_rest s2 s3 \<Longrightarrow> same_rest s1 s3"
  and same_rest_online: "same_online s s' \<Longrightarrow> same_rest s s'"
  and same_rest_sign: "same_online (s\<lparr>sign_to_flush_msg := x\<rparr>) s' \<Longrightarrow> same_rest s s'"
  by (simp_all add: same_rest_def same_online_def)

lemma event_ok:
  assumes ok: "server_ok held s" and p: "entry_ok p s"
    and e: "\<And>a. fd p \<noteq> - 1 \<Longrightarrow> abs_srv s ! info_ptr p = Some a \<Longrightarrow> tame_event e a"
  shows "\<exists>s'. handle_event p e s = Inr s' \<and> server_ok held s' \<and> same_rest s s'
    \<and> (\<forall>j. j \<noteq> info_ptr p \<longrightarrow> kept j (abs_srv s) (abs_srv s'))"
proof (cases "fd p = - 1")
  case True
  then show ?thesis using ok by (simp add: handle_event_def)
next
  case False
  let ?i = "info_ptr p"
  obtain a where a: "abs_srv s ! ?i = Some a" and fr: "fresh_entry p s" using entry_fresh[OF ok p False] by blast
  have te: "tame_event e a" by (rule e[OF False a])
  have on: "distinct (clients s)" "\<forall>j \<in> set (clients s). j < length (infos s)"
    using ok by (auto simp: server_ok_def online_ok_def)
  show ?thesis
  proof (cases "revents e = 0")
    case True
    then have "handle_event p e s = Inr s" using fr False by (auto simp: handle_event_def fresh_entry_def deref_def)
    then show ?thesis using ok by simp
  next
    case nz: False
    show ?thesis
    proof (cases "odd (revents e) \<and> byte_available e \<noteq> Some 0")
      case False
      then obtain s' where "handle_event p e s = Inr s'" "server_ok held s'" "same_online s s'"
        "abs_srv s' = (abs_srv s)[?i := Some (a\<lparr>a_pub := FAIL\<rparr>)]"
        using event_hangup[OF ok fr a nz] event_closed[OF ok fr a] by blast
      then show ?thesis using same_rest_online by fastforce
    next
      case True
      then obtain d where d: "byte_available e = Some (int (length d))" "incoming e = [Read_data d]" "d \<noteq> []"
        "length (concat (a_in a) @ d) < int_max" "\<forall>l \<in> set (full_lines (concat (a_in a) @ d)). good_line l"
        using te by (auto simp: tame_event_def)
      obtain s' chs n v where s': "handle_event p e s = Inr s'" "server_ok held s'"
        "a_handle_all (clients s) ?i (fst (drain_lines chs)) (abs_srv s) = (n, v)"
        "abs_srv s' = set_in ?i (snd (drain_lines chs)) v"
        "same_online (s\<lparr>sign_to_flush_msg := sign_to_flush_msg s + (if n = 0 then 0 else 1)\<rparr>) s'"
        using event_data[OF ok fr a on(2) _ d] True by blast
      have "\<forall>i \<in> set (clients s). i < length (abs_srv s)" using on(2) by simp
      then have "kept j (abs_srv s) v" for j using kept_handle_all[OF on(1), of "abs_srv s"] s'(3) by (metis snd_conv)
      then have "kept j (abs_srv s) (abs_srv s')" if "j \<noteq> ?i" for j
        using kept_trans[OF _ kept_set_in] that s'(4) by metis
      then show ?thesis using s'(1,2,5) same_rest_sign by blast
    qed
  qed
qed

section \<open>A round of the writing thread leaves unmarked clients alone\<close>

lemma flush_kept:
  "kept j (fst vo) (fst (fold a_flush ids vo)) \<and> length (fst (fold a_flush ids vo)) = length (fst vo)"
proof (induction ids arbitrary: vo)
  case (Cons i ids)
  have "kept j (fst vo) (fst (a_flush i vo)) \<and> length (fst (a_flush i vo)) = length (fst vo)"
    by (cases "i < length (fst vo) \<and> i = j")
      (auto simp: a_flush_def kept_def nth_list_update list_update_beyond not_less split: option.splits)
  then show ?case using Cons.IH[of "a_flush i vo"] kept_trans by auto
qed simp

lemma logout_kept:
  assumes "distinct cs" and "\<forall>i \<in> set cs. i < length v" and "v ! j = Some a" and "a_pub a \<noteq> FAIL \<or> j \<notin> set ids"
    and "fold a_logout ids (cs, v) = (cs', v')"
  shows "kept j v v' \<and> (j \<in> set cs \<longrightarrow> j \<in> set cs')"
  using assms
proof (induction ids arbitrary: cs v a)
  case (Cons i ids)
  show ?case
  proof (cases "\<exists>b. v ! i = Some b \<and> a_pub b = FAIL")
    case False
    then have "a_logout i (cs, v) = (cs, v)" by (auto simp: a_logout_def split: option.splits)
    then show ?thesis using Cons.IH[OF Cons.prems(1-3)] Cons.prems(4,5) by simp
  next
    case True
    then obtain b where b: "v ! i = Some b" "a_pub b = FAIL" by blast
    then have ij: "i \<noteq> j" using Cons.prems(3,4) by auto
    let ?cs = "remove1 i cs"
    let ?w = "a_deliver ?cs CMD_TO_ALL (a_name b) (sys_text (a_name b @ '' '' @ MSG_LOGOUT_SUFFIX)) v"
    have st: "a_logout i (cs, v) = (?cs, ?w[i := None])" using b by (simp add: a_logout_def)
    have d: "distinct ?cs" "\<forall>i \<in> set ?cs. i < length v" using Cons.prems(1,2) notin_set_remove1 by auto
    have k: "kept j v (?w[i := None])" using kept_trans[OF kept_deliver[OF d] kept_other[OF ij]] .
    then obtain c where c: "?w[i := None] ! j = Some c" "a_pub c = a_pub a" using Cons.prems(3) unfolding kept_def by metis
    have m: "a_pub c \<noteq> FAIL \<or> j \<notin> set ids" using c(2) Cons.prems(4) by auto
    have l: "\<forall>k \<in> set ?cs. k < length (?w[i := None])" using d(2) a_deliver_nth[OF d] by simp
    from Cons.IH[OF d(1) l c(1) m] Cons.prems(5) st ij k show ?thesis using kept_trans in_set_remove1 by auto
  qed
qed simp

section \<open>The invariant of the system\<close>

definition snapshot_ok :: "pollfd list \<Rightarrow> server \<Rightarrow> bool" where
  "snapshot_ok ps s \<longleftrightarrow> distinct (map info_ptr ps) \<and> (\<forall>p \<in> set ps. entry_ok p s)"

definition reader_ok :: "reader \<Rightarrow> server \<Rightarrow> bool" where
  "reader_ok r s = (case r of
       Between \<Rightarrow> True
     | Listed data \<Rightarrow> snapshot_ok data s \<and> (\<forall>p \<in> set data. info_ptr p \<in> set (clients s))
     | Polling data \<Rightarrow> snapshot_ok data s
     | Handling pes \<Rightarrow> snapshot_ok (map fst pes) s
     | Reader_ended \<Rightarrow> False)"

definition taken_ok :: "nat option list \<Rightarrow> server \<Rightarrow> bool" where
  "taken_ok xs s \<longleftrightarrow> (\<exists>ids. xs = map Some ids \<and> distinct ids \<and> set ids \<subseteq> set (clients s))"

definition writer_ok :: "writer \<Rightarrow> server \<Rightarrow> bool" where
  "writer_ok w s = (case w of
       Resting \<Rightarrow> True
     | Flushing xs ys \<Rightarrow> taken_ok xs s \<and> taken_ok ys s
     | Logging_out xs \<Rightarrow> taken_ok xs s
     | Writer_ended \<Rightarrow> False)"

definition sys_ok :: "nat list \<Rightarrow> system \<Rightarrow> bool" where
  "sys_ok held y \<longleftrightarrow> server_ok held (srv y) \<and> reader_ok (reader y) (srv y) \<and> writer_ok (writer y) (srv y)"

text \<open>
  What is asked of the environment: a new socket is not one in use, clients send well-formed
  lines and sockets take what is written to them; and of the schedule: the writing thread does not
  log out a client while a snapshot with that client waits to be logged.
\<close>

definition allowed :: "action \<Rightarrow> system \<Rightarrow> bool" where
  "allowed act y = (case act of
       Accept peer spins sock \<Rightarrow> spins = (0, 0) \<and> (0 \<le> sock \<longrightarrow> sock \<notin> set (sockets (infos (srv y)) (clients (srv y))))
     | Handle \<Rightarrow> (case reader y of
           Handling ((p, e) # pes) \<Rightarrow> \<forall>a. abs_srv (srv y) ! info_ptr p = Some a \<longrightarrow> tame_event e a
         | _ \<Rightarrow> True)
     | Flush \<Rightarrow> healthy (srv y)
     | Log_out \<Rightarrow> (case reader y of
           Listed data \<Rightarrow> \<forall>p \<in> set data. \<forall>a. abs_srv (srv y) ! info_ptr p = Some a \<longrightarrow> a_pub a \<noteq> FAIL
         | _ \<Rightarrow> True)
     | _ \<Rightarrow> True)"

lemma online_nth: "server_ok held s \<Longrightarrow> i \<in> set (clients s) \<Longrightarrow> i < length (infos s) \<and> (\<exists>a. abs_srv s ! i = Some a)"
  by (auto simp: server_ok_def online_ok_def)

text \<open>Every client that is not marked stays as it is.\<close>

definition spares :: "server \<Rightarrow> server \<Rightarrow> bool" where
  "spares s s' \<longleftrightarrow> (\<forall>j a. j \<in> set (clients s) \<longrightarrow> abs_srv s ! j = Some a \<longrightarrow> a_pub a \<noteq> FAIL
     \<longrightarrow> kept j (abs_srv s) (abs_srv s') \<and> j \<in> set (clients s'))"

lemma entry_spared: "entry_ok p s \<Longrightarrow> spares s s' \<Longrightarrow> entry_ok p s'"
  unfolding entry_ok_def spares_def kept_def by fastforce

lemma snapshot_spared: "snapshot_ok ps s \<Longrightarrow> spares s s' \<Longrightarrow> snapshot_ok ps s'"
  using entry_spared by (auto simp: snapshot_ok_def)

lemma reader_spared:
  assumes "reader_ok r s" and "spares s s'"
    and "\<And>data p. r = Listed data \<Longrightarrow> p \<in> set data \<Longrightarrow> info_ptr p \<in> set (clients s')"
  shows "reader_ok r s'"
  using assms snapshot_spared[OF _ assms(2)] by (auto simp: reader_ok_def split: reader.splits)

lemma taken_mono: "taken_ok xs s \<Longrightarrow> set (clients s) \<subseteq> set (clients s') \<Longrightarrow> taken_ok xs s'"
  unfolding taken_ok_def by blast

lemma writer_mono: "writer_ok w s \<Longrightarrow> set (clients s) \<subseteq> set (clients s') \<Longrightarrow> writer_ok w s'"
  using taken_mono by (auto simp: writer_ok_def split: writer.splits)

lemma spares_same: "abs_srv s' = abs_srv s \<Longrightarrow> clients s' = clients s \<Longrightarrow> spares s s'"
  by (simp add: spares_def)

lemma accept_ok:
  assumes ok: "server_ok held s" and sock: "0 \<le> sock \<longrightarrow> sock \<notin> set (sockets (infos s) (clients s))"
  shows "\<exists>s'. handle_listen_round inet_ntop peer (0, 0) sock s = Inr s' \<and> server_ok held s'
    \<and> set (clients s) \<subseteq> set (clients s') \<and> spares s s'"
proof (cases "0 \<le> sock")
  case True
  then obtain s' where "handle_listen_round inet_ntop peer (0, 0) sock s = Inr s'" "server_ok held s'"
    "clients s' = clients s @ [length (infos s)]"
    "abs_srv s' = abs_srv s @ [Some \<lparr>a_socket = sock, a_name = UNKNOWN_CLIENT, a_pub = 0, a_in = [], a_out = []\<rparr>]"
    using handle_listen_round_ok[OF ok True] sock by blast
  moreover have "j < length (abs_srv s)" if "j \<in> set (clients s)" for j using online_nth[OF ok that] by simp
  ultimately show ?thesis using kept_append by (auto simp: spares_def)
next
  case False
  then have "handle_listen_round inet_ntop peer (0, 0) sock s = Inr s"
    using ok by (auto simp: handle_listen_round_def deref_def server_ok_def online_ok_def)
  then show ?thesis using ok spares_same[of s s] by auto
qed

lemma debug_block_ok:
  "\<forall>p \<in> set data. info_ptr p < length (infos s) \<and> infos s ! info_ptr p \<noteq> None \<Longrightarrow> debug_block data s = Inr ()"
  by (induction data) (auto simp: deref_def)

section \<open>Safety\<close>

text \<open>Every allowed transition comes back, and to a good state.\<close>

lemma sys_okD:
  assumes "sys_ok held y"
  shows "server_ok held (srv y)" "reader_ok (reader y) (srv y)" "writer_ok (writer y) (srv y)"
  using assms by (simp_all add: sys_ok_def)

lemma accept_step:
  assumes y: "sys_ok held y" and act: "allowed (Accept peer spins sock) y"
  shows "\<exists>s'. handle_listen_round ntop peer spins sock (srv y) = Inr s' \<and> sys_ok held (y\<lparr>srv := s'\<rparr>)"
proof -
  note ok = sys_okD[OF y]
  obtain s' where s': "handle_listen_round ntop peer (0, 0) sock (srv y) = Inr s'" "server_ok held s'"
    "set (clients (srv y)) \<subseteq> set (clients s')" "spares (srv y) s'"
    using accept_ok[OF ok(1), of sock ntop peer] act by (auto simp: allowed_def)
  have "reader_ok (reader y) s'"
    by (rule reader_spared[OF ok(2) s'(4)]) (use ok(2) s'(3) in \<open>auto simp: reader_ok_def\<close>)
  then show ?thesis using s' writer_mono[OF ok(3) s'(3)] act by (auto simp: allowed_def sys_ok_def)
qed

lemma list_step:
  assumes y: "sys_ok held y"
  shows "\<exists>data s'. get_polling_and_client_list (srv y) = Inr (Some data, s') \<and> map info_ptr data = clients (srv y)
    \<and> same_online (srv y) s' \<and> abs_srv s' = abs_srv (srv y) \<and> sys_ok held (y\<lparr>srv := s', reader := Listed data\<rparr>)"
proof -
  note ok = sys_okD[OF y]
  let ?d = "map (poll_entry (srv y)) (clients (srv y))"
  obtain s' where s': "get_polling_and_client_list (srv y) = Inr (Some ?d, s')" "server_ok held s'"
    "same_online (srv y) s'" "abs_srv s' = abs_srv (srv y)"
    using get_polling_ok[OF ok(1)] by blast
  have ptr: "map info_ptr ?d = clients (srv y)" using poll_entry_ok(2)[OF ok(1)] by (simp add: comp_def cong: map_cong)
  have cl: "clients s' = clients (srv y)" using s'(3) by (simp add: same_online_def)
  have "\<forall>p \<in> set ?d. entry_ok p s' \<and> info_ptr p \<in> set (clients s')"
    using poll_entry_ok[OF ok(1)] cl s'(4) by (auto simp: entry_ok_def)
  moreover have "distinct (map info_ptr ?d)" unfolding ptr using ok(1) by (simp add: server_ok_def online_ok_def)
  ultimately have "reader_ok (Listed ?d) s'" by (simp add: reader_ok_def snapshot_ok_def)
  moreover have "writer_ok (writer y) s'" using writer_mono[OF ok(3)] cl by simp
  ultimately have "sys_ok held (y\<lparr>srv := s', reader := Listed ?d\<rparr>)" using s'(2) by (simp add: sys_ok_def)
  then show ?thesis using s'(1,3,4) ptr by blast
qed

lemma log_step:
  assumes y: "sys_ok held y" and r: "reader y = Listed data"
  shows "debug_block data (srv y) = Inr () \<and> sys_ok held (y\<lparr>reader := Polling data\<rparr>)"
proof -
  note ok = sys_okD[OF y]
  have "\<forall>p \<in> set data. info_ptr p \<in> set (clients (srv y))" using ok(2) r by (simp add: reader_ok_def)
  then have "debug_block data (srv y) = Inr ()"
    using debug_block_ok[of data "srv y"] ok(1) by (simp add: server_ok_def online_ok_def)
  then show ?thesis using ok r by (simp add: sys_ok_def reader_ok_def)
qed

lemma poll_step:
  assumes y: "sys_ok held y" and r: "reader y = Polling data" "length events = length data"
  shows "sys_ok held (y\<lparr>reader := (if - 1 = ret \<or> 0 = ret then Between else Handling (zip data events))\<rparr>)"
  using sys_okD[OF y] r by (auto simp: sys_ok_def reader_ok_def)

lemma handle_step:
  assumes y: "sys_ok held y" and r: "reader y = Handling ((p, e) # pes)" and act: "allowed Handle y"
  shows "\<exists>s'. handle_event p e (srv y) = Inr s' \<and> clients s' = clients (srv y) \<and> sys_ok held (y\<lparr>srv := s', reader := Handling pes\<rparr>)"
proof -
  note ok = sys_okD[OF y]
  have ps: "entry_ok p (srv y)" "snapshot_ok (map fst pes) (srv y)" "info_ptr p \<notin> info_ptr ` set (map fst pes)"
    using ok(2) r by (auto simp: reader_ok_def snapshot_ok_def)
  have "tame_event e a" if "abs_srv (srv y) ! info_ptr p = Some a" for a using act r that by (simp add: allowed_def)
  then obtain s' where s': "handle_event p e (srv y) = Inr s'" "server_ok held s'" "same_rest (srv y) s'"
    "\<forall>j. j \<noteq> info_ptr p \<longrightarrow> kept j (abs_srv (srv y)) (abs_srv s')"
    using event_ok[OF ok(1) ps(1)] by blast
  have cl: "clients s' = clients (srv y)" using s'(3) by (simp add: same_rest_def)
  have "entry_ok q s'" if "q \<in> set (map fst pes)" for q
  proof (rule entry_kept)
    show "entry_ok q (srv y)" using ps(2) that by (auto simp: snapshot_ok_def)
    show "kept (info_ptr q) (abs_srv (srv y)) (abs_srv s')" using s'(4) ps(3) that by (metis image_eqI)
  qed (simp add: cl)
  then have "reader_ok (Handling pes) s'" using ps(2) by (simp add: reader_ok_def snapshot_ok_def)
  then show ?thesis using s'(1,2) writer_mono[OF ok(3)] cl by (simp add: sys_ok_def)
qed

lemma take_step:
  assumes y: "sys_ok held y"
  shows "\<exists>xs s'. get_client_list (srv y) = Inr (Some xs, int (length xs), s') \<and> xs = map Some (clients (srv y))
    \<and> same_online (srv y) s' \<and> abs_srv s' = abs_srv (srv y) \<and> sys_ok held (y\<lparr>srv := s', writer := Flushing xs xs\<rparr>)"
proof -
  note ok = sys_okD[OF y]
  let ?xs = "map Some (clients (srv y))"
  obtain s' where s': "get_client_list (srv y) = Inr (Some ?xs, int (length (clients (srv y))), s')" "server_ok held s'"
    "same_online (srv y) s'" "abs_srv s' = abs_srv (srv y)" using get_client_list_ok[OF ok(1)] by blast
  have cl: "clients s' = clients (srv y)" using s'(3) by (simp add: same_online_def)
  have "reader_ok (reader y) s'"
    by (rule reader_spared[OF ok(2) spares_same[OF s'(4) cl]]) (use ok(2) cl in \<open>auto simp: reader_ok_def\<close>)
  moreover have "taken_ok ?xs s'" using ok(1) cl by (auto simp: taken_ok_def server_ok_def online_ok_def)
  ultimately have "sys_ok held (y\<lparr>srv := s', writer := Flushing ?xs ?xs\<rparr>)" using s'(2) by (simp add: sys_ok_def writer_ok_def)
  then show ?thesis using s' by auto
qed

lemma flush_step:
  assumes y: "sys_ok held y" and w: "writer y = Flushing xs (x # ys)" and act: "healthy (srv y)"
  shows "\<exists>s'. flush_clients [x] (srv y) = Inr s' \<and> clients s' = clients (srv y) \<and> sys_ok held (y\<lparr>srv := s', writer := Flushing xs ys\<rparr>)"
proof -
  note ok = sys_okD[OF y]
  have tk: "taken_ok xs (srv y)" "taken_ok (x # ys) (srv y)" using ok(3) w by (simp_all add: writer_ok_def)
  then obtain i js where i: "x = Some i" "ys = map Some js" "distinct (i # js)" "set (i # js) \<subseteq> set (clients (srv y))"
    by (auto simp: taken_ok_def Cons_eq_map_conv)
  have il: "\<forall>k \<in> set [i]. k < length (infos (srv y)) \<and> infos (srv y) ! k \<noteq> None"
    using ok(1) i(4) by (auto simp: server_ok_def online_ok_def)
  obtain s' where s': "flush_clients (map Some [i]) (srv y) = Inr s'" "server_ok held s'" "same_list (srv y) s'"
    "(abs_srv s', sent_by s') = fold a_flush [i] (abs_srv (srv y), sent_by (srv y))"
    using flush_clients_ok[OF ok(1) act il] by blast
  have cl: "clients s' = clients (srv y)" using s'(3) by (simp add: same_list_def)
  have "abs_srv s' = fst (fold a_flush [i] (abs_srv (srv y), sent_by (srv y)))" using s'(4) by (metis fst_conv)
  then have sp: "spares (srv y) s'"
    using flush_kept[of _ "(abs_srv (srv y), sent_by (srv y))" "[i]"] cl by (simp add: spares_def)
  have "reader_ok (reader y) s'"
    by (rule reader_spared[OF ok(2) sp]) (use ok(2) cl in \<open>auto simp: reader_ok_def\<close>)
  moreover have "taken_ok xs s'" using taken_mono[OF tk(1)] cl by simp
  moreover have "taken_ok ys s'" using i cl by (auto simp: taken_ok_def)
  ultimately show ?thesis using s'(1,2) i(1) cl by (simp add: sys_ok_def writer_ok_def)
qed

lemma logout_step:
  assumes y: "sys_ok held y" and w: "writer y = Logging_out (x # xs)" and act: "allowed Log_out y"
  shows "\<exists>s'. logout_clients [x] (srv y) = Inr s' \<and> length (clients s') \<le> length (clients (srv y))
    \<and> sys_ok held (y\<lparr>srv := s', writer := Logging_out xs\<rparr>)"
proof -
  note ok = sys_okD[OF y]
  let ?s = "srv y"
  obtain i js where i: "x = Some i" "xs = map Some js" "distinct (i # js)" "set (i # js) \<subseteq> set (clients ?s)"
    using ok(3) w by (auto simp: writer_ok_def taken_ok_def Cons_eq_map_conv)
  have il: "distinct [i]" "set [i] \<subseteq> set (clients ?s)" using i by simp_all
  obtain s' where s': "logout_clients (map Some [i]) ?s = Inr s'" "server_ok held s'"
    "(clients s', abs_srv s') = fold a_logout [i] (clients ?s, abs_srv ?s)"
    using logout_clients_ok[OF ok(1) il] by blast
  have on: "distinct (clients ?s)" "\<forall>j \<in> set (clients ?s). j < length (abs_srv ?s)"
    using ok(1) by (auto simp: server_ok_def online_ok_def)
  note k = logout_kept[OF on _ _ s'(3)[symmetric]]
  have sp: "spares ?s s'" unfolding spares_def using k by blast
  have "info_ptr p \<in> set (clients s')" if d: "reader y = Listed data" "p \<in> set data" for data p
  proof -
    have c: "info_ptr p \<in> set (clients ?s)" using ok(2) d by (simp add: reader_ok_def)
    obtain a where a: "abs_srv ?s ! info_ptr p = Some a" using online_nth[OF ok(1) c] by blast
    then have "a_pub a \<noteq> FAIL" using act d by (simp add: allowed_def)
    then show ?thesis using k[OF a disjI1] c by blast
  qed
  then have "reader_ok (reader y) s'" using reader_spared[OF ok(2) sp] by blast
  moreover have "j \<in> set (clients s')" if j: "j \<in> set js" for j
  proof -
    have c: "j \<in> set (clients ?s)" "j \<notin> set [i]" using i(3,4) j by auto
    obtain a where "abs_srv ?s ! j = Some a" using online_nth[OF ok(1) c(1)] by blast
    then show ?thesis using k[OF _ disjI2[OF c(2)]] c(1) by blast
  qed
  then have "taken_ok xs s'" using i(2,3) by (auto simp: taken_ok_def)
  moreover have "clients s' = clients ?s \<or> clients s' = remove1 i (clients ?s)"
    using s'(3) by (auto simp: a_logout_def split: option.splits if_splits)
  then have "length (clients s') \<le> length (clients ?s)" by (auto simp: length_remove1)
  ultimately show ?thesis using s'(1,2) i(1) by (simp add: sys_ok_def writer_ok_def)
qed

lemma wait_step:
  assumes y: "sys_ok held y"
  shows "wait_for_messages raised (srv y) = Inr (srv y) \<and> sys_ok held (y\<lparr>writer := Resting\<rparr>)"
  using sys_okD[OF y] wait_for_messages_ok by (simp add: sys_ok_def writer_ok_def)

lemma allowed_no_crash:
  assumes y: "sys_ok held y" and act: "allowed act y"
  shows "\<not> crash ntop act y e"
proof (cases act)
  case (Accept peer spins sock)
  then show ?thesis using accept_step[OF y, of peer spins sock ntop] act by (auto simp: crash_simps)
next
  case List_clients
  then show ?thesis using list_step[OF y] by (auto simp: crash_simps)
next
  case Log_list
  then show ?thesis using log_step[OF y] by (auto simp: crash_simps)
next
  case Handle
  then show ?thesis using handle_step[OF y] act by (fastforce simp: crash_simps)
next
  case Take_clients
  then show ?thesis using take_step[OF y] by (auto simp: crash_simps)
next
  case Flush
  then show ?thesis using flush_step[OF y] act by (fastforce simp: crash_simps allowed_def)
next
  case Log_out
  then show ?thesis using logout_step[OF y] act by (fastforce simp: crash_simps)
next
  case (Wait raised)
  then show ?thesis using wait_step[OF y] by (auto simp: crash_simps)
qed (simp add: crash_simps)

lemma allowed_step:
  assumes st: "step ntop act y y'" and y: "sys_ok held y" and act: "allowed act y"
  shows "sys_ok held y'"
  using st
proof (cases rule: step.cases)
  case (accept peer spins sock s)
  then show ?thesis using accept_step[OF y, of peer spins sock ntop] act by auto
next
  case (listed data s)
  then show ?thesis using list_step[OF y] by auto
next
  case (no_list s)
  then show ?thesis using list_step[OF y] by auto
next
  case (logged data)
  then show ?thesis using log_step[OF y] by auto
next
  case (polled data events ret)
  show ?thesis unfolding polled(2) by (rule poll_step[OF y polled(3,4)])
next
  case (handled p e pes s)
  then show ?thesis using handle_step[OF y] act by fastforce
next
  case all_handled
  then show ?thesis using sys_okD[OF y] by (simp add: sys_ok_def reader_ok_def)
next
  case (taken arr sz s xs)
  then show ?thesis using take_step[OF y] by auto
next
  case (not_taken sz s)
  then show ?thesis using take_step[OF y] by auto
next
  case (flushed xs x ys s)
  then show ?thesis using flush_step[OF y] act by (fastforce simp: allowed_def)
next
  case (all_flushed xs)
  then show ?thesis using sys_okD[OF y] by (simp add: sys_ok_def writer_ok_def)
next
  case (logged_out x xs s)
  then show ?thesis using logout_step[OF y] act by fastforce
next
  case (waited raised s)
  then show ?thesis using wait_step[OF y, of raised] sys_okD[OF y] by (simp add: sys_ok_def writer_ok_def)
qed

section \<open>Rounds as runs\<close>

text \<open>
  What a computation that is not interrupted comes to: a run of transitions of one thread that
  ends in its result, or in a transition with its fault.
\<close>

definition comes_to :: "(nat \<Rightarrow> string \<Rightarrow> nat \<Rightarrow> string option) \<Rightarrow> (action \<Rightarrow> bool) \<Rightarrow> system \<Rightarrow> system res \<Rightarrow> bool" where
  "comes_to ntop mine y r \<longleftrightarrow> (\<exists>acts y'. (\<forall>act \<in> set acts. mine act) \<and> run ntop acts y y'
     \<and> (case r of Inr z \<Rightarrow> y' = z | Inl e \<Rightarrow> \<exists>act. mine act \<and> crash ntop act y' e))"

lemma comes_done: "comes_to ntop mine y (Inr y)"
  unfolding comes_to_def by (intro exI[of _ "[]"] exI[of _ y]) (simp add: run_done)

lemma comes_crash: "mine act \<Longrightarrow> crash ntop act y e \<Longrightarrow> comes_to ntop mine y (Inl e)"
  unfolding comes_to_def by (intro exI[of _ "[]"] exI[of _ y]) (auto simp: run_done)

lemma comes_step:
  assumes "step ntop act y y1" and "mine act" and "comes_to ntop mine y1 r"
  shows "comes_to ntop mine y r"
proof -
  obtain acts y' where a: "\<forall>act \<in> set acts. mine act" "run ntop acts y1 y'"
    "case r of Inr z \<Rightarrow> y' = z | Inl e \<Rightarrow> \<exists>act. mine act \<and> crash ntop act y' e"
    using assms(3) unfolding comes_to_def by blast
  show ?thesis unfolding comes_to_def
    by (rule exI[of _ "act # acts"], rule exI[of _ y']) (use a assms(2) run_step[OF assms(1)] in simp)
qed

text \<open>The calls of one loop pass each are the loop.\<close>

lemma flush_clients_Cons: "flush_clients (x # xs) s = bindr (flush_clients [x] s) (flush_clients xs)"
  by (cases "slot x"; cases "deref (projr (slot x)) s") (auto simp: bindr_def split: sum.splits)

lemma logout_clients_Cons: "logout_clients (x # xs) s = bindr (logout_clients [x] s) (logout_clients xs)"
  by (cases "slot x"; cases "deref (projr (slot x)) s") (auto simp: bindr_def split: sum.splits)

lemma handles_come:
  "reader y = Handling pes
    \<Longrightarrow> comes_to ntop reading_action y (bindr (handle_events pes (srv y)) (\<lambda>s. Inr (y\<lparr>srv := s, reader := Between\<rparr>)))"
proof (induction pes arbitrary: y)
  case Nil
  then show ?case using comes_step[OF all_handled[OF Nil] _ comes_done] by simp
next
  case (Cons pe pes)
  obtain p e where pe: "pe = (p, e)" by (cases pe)
  note r = Cons.prems[unfolded pe]
  show ?case
  proof (cases "handle_event p e (srv y)")
    case (Inl f)
    then have "crash ntop Handle y f" using r by (simp add: crash_simps)
    then show ?thesis using Inl pe comes_crash[of reading_action Handle] by simp
  next
    case (Inr s)
    let ?y = "y\<lparr>srv := s, reader := Handling pes\<rparr>"
    have "comes_to ntop reading_action ?y (bindr (handle_events pes s) (\<lambda>s. Inr (y\<lparr>srv := s, reader := Between\<rparr>)))"
      using Cons.IH[of ?y] by simp
    from comes_step[OF handled[OF r Inr] _ this] show ?thesis using Inr pe by simp
  qed
qed

lemma poll_round_comes:
  assumes "reader y = Polling data" and "length events = length data"
  shows "comes_to ntop reading_action y (bindr (poll_round data ret events (srv y)) (\<lambda>s. Inr (y\<lparr>srv := s, reader := Between\<rparr>)))"
proof (rule comes_step[OF polled[OF assms, of ntop ret]])
  show "comes_to ntop reading_action (y\<lparr>reader := (if - 1 = ret \<or> 0 = ret then Between else Handling (zip data events))\<rparr>)
    (bindr (poll_round data ret events (srv y)) (\<lambda>s. Inr (y\<lparr>srv := s, reader := Between\<rparr>)))"
    using comes_done handles_come[of "y\<lparr>reader := Handling (zip data events)\<rparr>"] by (auto simp: poll_round_def)
qed simp

lemma flushes_come:
  assumes "writer y = Flushing xs ys"
    and "\<And>s. flush_clients ys (srv y) = Inr s \<Longrightarrow> comes_to ntop writing_action (y\<lparr>srv := s, writer := Logging_out xs\<rparr>) (f s)"
  shows "comes_to ntop writing_action y (bindr (flush_clients ys (srv y)) f)"
  using assms
proof (induction ys arbitrary: y)
  case Nil
  then show ?case using comes_step[OF all_flushed[OF Nil(1)]] by simp
next
  case (Cons x ys)
  show ?case
  proof (cases "flush_clients [x] (srv y)")
    case (Inl e)
    then have "crash ntop Flush y e" using Cons.prems(1) by (simp add: crash_simps)
    then show ?thesis using Inl comes_crash[of writing_action Flush] by (simp add: flush_clients_Cons[of x ys] del: flush_clients.simps(2))
  next
    case (Inr s)
    let ?y = "y\<lparr>srv := s, writer := Flushing xs ys\<rparr>"
    have "comes_to ntop writing_action ?y (bindr (flush_clients ys s) f)"
      using Cons.IH[of ?y] Cons.prems(2) Inr by (simp add: flush_clients_Cons[of x ys] del: flush_clients.simps(2))
    from comes_step[OF flushed[OF Cons.prems(1) Inr] _ this] show ?thesis
      using Inr by (simp add: flush_clients_Cons[of x ys] del: flush_clients.simps(2))
  qed
qed

lemma logouts_come:
  assumes "writer y = Logging_out xs"
    and "\<And>s. logout_clients xs (srv y) = Inr s \<Longrightarrow> comes_to ntop writing_action (y\<lparr>srv := s, writer := Logging_out []\<rparr>) (f s)"
  shows "comes_to ntop writing_action y (bindr (logout_clients xs (srv y)) f)"
  using assms
proof (induction xs arbitrary: y)
  case Nil
  then show ?case by (cases y) simp
next
  case (Cons x xs)
  show ?case
  proof (cases "logout_clients [x] (srv y)")
    case (Inl e)
    then have "crash ntop Log_out y e" using Cons.prems(1) by (simp add: crash_simps)
    then show ?thesis using Inl comes_crash[of writing_action Log_out] by (simp add: logout_clients_Cons[of x xs] del: logout_clients.simps(2))
  next
    case (Inr s)
    let ?y = "y\<lparr>srv := s, writer := Logging_out xs\<rparr>"
    have "comes_to ntop writing_action ?y (bindr (logout_clients xs s) f)"
      using Cons.IH[of ?y] Cons.prems(2) Inr by (simp add: logout_clients_Cons[of x xs] del: logout_clients.simps(2))
    from comes_step[OF logged_out[OF Cons.prems(1) Inr] _ this] show ?thesis
      using Inr by (simp add: logout_clients_Cons[of x xs] del: logout_clients.simps(2))
  qed
qed

lemma write_round_comes:
  assumes w: "writer y = Resting"
  shows "comes_to ntop writing_action y (bindr (write_sockets_round raised (srv y))
    (\<lambda>(going, s). Inr (y\<lparr>srv := s, writer := (if going = None then Writer_ended else Resting)\<rparr>)))"
proof (cases "get_client_list (srv y)")
  case (Inl e)
  then have "crash ntop Take_clients y e" using w by (simp add: crash_simps)
  then show ?thesis using Inl comes_crash[of writing_action Take_clients] by (simp add: write_sockets_round_def)
next
  case (Inr r)
  obtain arr sz s1 where r: "r = (arr, sz, s1)" by (cases r)
  show ?thesis
  proof (cases arr)
    case None
    then show ?thesis using Inr r comes_step[OF not_taken[OF w] _ comes_done] by (simp add: write_sockets_round_def)
  next
    case (Some a)
    let ?xs = "take (nat sz) a"
    let ?f = "\<lambda>s3. bindr (wait_for_messages raised s3) (\<lambda>s4. Inr (y\<lparr>srv := s4, writer := Resting\<rparr>))"
    have w3: "comes_to ntop writing_action z (bindr (wait_for_messages raised (srv z)) (\<lambda>s4. Inr (z\<lparr>srv := s4, writer := Resting\<rparr>)))"
      if "writer z = Logging_out []" for z
    proof (cases "wait_for_messages raised (srv z)")
      case (Inl e)
      then show ?thesis using that comes_crash[of writing_action "Wait raised"] by (simp add: crash_simps)
    next
      case (Inr s)
      then show ?thesis using comes_step[OF waited[OF that Inr] _ comes_done] by simp
    qed
    have w2: "comes_to ntop writing_action z (bindr (logout_clients ?xs (srv z)) (\<lambda>s. bindr (wait_for_messages raised s)
        (\<lambda>s4. Inr (z\<lparr>srv := s4, writer := Resting\<rparr>))))" if "writer z = Logging_out ?xs" for z
      by (rule logouts_come[OF that]) (use w3[of "z\<lparr>srv := s, writer := Logging_out []\<rparr>" for s] in simp)
    have "comes_to ntop writing_action (y\<lparr>srv := s1, writer := Flushing ?xs ?xs\<rparr>)
        (bindr (flush_clients ?xs s1) (\<lambda>s2. bindr (logout_clients ?xs s2) ?f))"
      using flushes_come[of "y\<lparr>srv := s1, writer := Flushing ?xs ?xs\<rparr>" ?xs ?xs ntop
          "\<lambda>s2. bindr (logout_clients ?xs s2) ?f"] w2[of "y\<lparr>srv := s, writer := Logging_out ?xs\<rparr>" for s] by simp
    from comes_step[OF taken[OF w _ refl] _ this] show ?thesis
      using Inr r Some by (simp add: write_sockets_round_def bindr_assoc)
  qed
qed

section \<open>Reachable states\<close>

abbreviation reach :: "(nat \<Rightarrow> string \<Rightarrow> nat \<Rightarrow> string option) \<Rightarrow> system \<Rightarrow> nat \<Rightarrow> system \<Rightarrow> bool" where
  "reach ntop \<equiv> runs (step ntop) allowed"

interpretation sv: safe_system "step ntop" allowed "sys_ok held" "crash ntop" for ntop held
  by unfold_locales (auto intro: allowed_step dest: allowed_no_crash)

definition start :: "server \<Rightarrow> system" where
  "start s = \<lparr>srv = s, reader = Between, writer = Resting\<rparr>"

lemma init_server_info_ok:
  assumes "held_ok m held" and "plenty m" and "NUL \<in> set (slack m)"
  shows "\<exists>s m'. init_server_info ntop (0, 0) 0 0 sock socks m = Inr (Some s, m') \<and> server_ok held s
    \<and> clients s = [] \<and> outs s = socks \<and> closed s = [] \<and> is_running s = 1
    \<and> abs_srv s = [Some \<lparr>a_socket = sock, a_name = ''IMServer'', a_pub = 0, a_in = [], a_out = []\<rparr>]"
proof -
  have nm: "c_str (''IMServer'' @ [NUL]) = Inr ''IMServer''" "length ''IMServer'' < 30" "LF \<notin> set ''IMServer''" by simp_all
  obtain c ms where c: "new_client_info ntop Peer_error (0, 0) sock (Some (''IMServer'' @ [NUL])) C_TYPE_S m
      = Inr (Some c, m\<lparr>mallocs := ms\<rparr>)" "set ms \<subseteq> set (mallocs m)" "socket_id c = sock" "name c = ''IMServer''"
    "pub c = 0" "client_ok c" "reading_buffer c = []" "writing_buffer c = []"
    using new_client_info_ok[OF assms(2) nm] by metis
  have "plenty (m\<lparr>mallocs := ms\<rparr>)" using assms(2) c(2) by (auto simp: plenty_def)
  then obtain ms' where m: "malloc (m\<lparr>mallocs := ms\<rparr>) = (True, m\<lparr>mallocs := ms'\<rparr>)" "set ms' \<subseteq> set ms"
    using malloc_sub by (metis sys.select_convs(1) sys.surjective sys.update_convs(1))
  let ?m = "m\<lparr>mallocs := ms'\<rparr>"
  let ?s = "\<lparr>mem = ?m, infos = [Some c], clients = [], client_count = 0, server_lock = False,
    is_running = 1, server_info = 0, sign_to_flush_msg = 0, outs = socks, closed = []\<rparr>"
  have "init_server_info ntop (0, 0) 0 0 sock socks m = Inr (Some ?s, ?m)"
    using c(1) m(1) by (simp add: init_server_info_def)
  moreover have "plenty ?m" using assms(2) c(2) m(2) by (auto simp: plenty_def)
  then have "infos_ok ?m held [Some c]"
    using assms(1,3) c(6-8) by (auto simp: infos_ok_def buffers_ok_def nodes_ok_def held_mallocs blocks_def live_def)
  then have "server_ok held ?s" by (simp add: server_ok_def online_ok_def sockets_def)
  moreover have "abs_srv ?s = [Some \<lparr>a_socket = sock, a_name = ''IMServer'', a_pub = 0, a_in = [], a_out = []\<rparr>]"
    using c by (simp add: abs_client_def chunks_def)
  ultimately show ?thesis by (intro exI[of _ ?s] exI[of _ ?m]) simp
qed

end
