(* ===== verification/Threads.thy ===== *)
theory Threads
  imports Steps
begin

text \<open>
  The life of the threads: \<^verbatim>\<open>handle_listen\<close> starts the reading and the writing thread when the
  first client is there, and joins them when one of them cannot be started, which is the only way
  the server stops; the handle of a thread that could not be started may be one to be joined all the
  same. The working threads are those of theory \<open>Steps\<close>, with the test of
  \<^verbatim>\<open>is_running\<close> at the end of their loops.
\<close>

section \<open>Nothing but the listening thread changes is_running\<close>

named_theorems running

lemma mutex_lock_running [running]: "mutex_lock s = Inr s' \<Longrightarrow> is_running s' = is_running s"
  by (auto simp: mutex_lock_def split: if_splits)

lemma mutex_unlock_running [simp]: "is_running (mutex_unlock s) = is_running s"
  by (simp add: mutex_unlock_def)

lemma with_client_running [running]: "with_client i f s = Inr (r, s') \<Longrightarrow> is_running s' = is_running s"
  by (auto simp: with_client_def put_client_def bindr_Inr_iff)

lemma get_client_list_running [running]: "get_client_list s = Inr (a, n, s') \<Longrightarrow> is_running s' = is_running s"
  by (cases "malloc (mem s)", cases "fst (malloc (mem s))")
    (auto simp: get_client_list_def bindr_Inr_iff mutex_lock_def mutex_unlock_def split: if_splits)

lemma deliver_loop_running [running]:
  "deliver_loop msg to_all xs n s = Inr (r, s') \<Longrightarrow> is_running s' = is_running s"
proof (induction msg to_all xs n s rule: deliver_loop.induct)
  case (2 msg to_all x xs n s)
  then show ?case by (auto simp: bindr_Inr_iff dest!: with_client_running split: if_splits)
qed simp

lemma deliver_running [running]: "deliver_msg_to_all_clients s msg = Inr (r, s') \<Longrightarrow> is_running s' = is_running s"
  by (auto simp: deliver_msg_to_all_clients_def bindr_Inr_iff dest!: deliver_loop_running get_client_list_running)

lemma notice_running:
  assumes "notice who suffix k none s = Inr (r, s')" and "\<And>m s r s'. k m s = Inr (r, s') \<Longrightarrow> is_running s' = is_running s"
  shows "is_running s' = is_running s"
  using assms(1) by (auto simp: notice_def bindr_Inr_iff Let_def dest!: assms(2) split: option.splits)

lemma redirect_p2p_running [running]: "redirect_p2p i t msg off s = Inr (r, s') \<Longrightarrow> is_running s' = is_running s"
  by (auto simp: redirect_p2p_def bindr_Inr_iff split: if_splits)

lemma redirect_to_c_running [running]: "redirect_to_c i msg s = Inr (r, s') \<Longrightarrow> is_running s' = is_running s"
  by (auto simp: redirect_to_c_def bindr_Inr_iff Let_def dest!: redirect_p2p_running split: option.splits)

lemma user_login_running [running]: "user_login i msg s = Inr (r, s') \<Longrightarrow> is_running s' = is_running s"
  by (auto simp: user_login_def bindr_Inr_iff dest!: with_client_running notice_running)

lemma redirect_running [running]: "redirect i msg s = Inr (r, s') \<Longrightarrow> is_running s' = is_running s"
  by (auto simp: redirect_def bindr_Inr_iff Let_def dest: running split: if_splits)

lemma handle_msg_running [running]: "handle_msg i msg s = Inr (r, s') \<Longrightarrow> is_running s' = is_running s"
  by (auto simp: handle_msg_def bindr_Inr_iff dest!: running split: option.splits)

lemma fetch_msg_running [running]: "fetch_msg i s = Inr (r, s') \<Longrightarrow> is_running s' = is_running s"
  by (simp add: fetch_msg_def with_client_running)

lemma bindr_InrE: "bindr m f = Inr y \<Longrightarrow> (\<And>x. m = Inr x \<Longrightarrow> f x = Inr y \<Longrightarrow> P) \<Longrightarrow> P"
  by (auto simp: bindr_Inr_iff)

lemma raise_running:
  "bindr (mutex_lock s) (\<lambda>s1. Inr (mutex_unlock (s1\<lparr>sign_to_flush_msg := f s1\<rparr>))) = Inr s'
    \<Longrightarrow> is_running s' = is_running s"
  by (auto elim!: bindr_InrE dest: mutex_lock_running)

lemma handle_loop_running:
  "handle_loop i n fetched s = Some (Inr (r, s')) \<Longrightarrow> is_running s' = is_running s"
proof -
  have "\<forall>r s'. y = Inr (r, s') \<longrightarrow> is_running s' = is_running s" if "handle_loop i n fetched s = Some y" for y
  proof (rule handle_loop.raw_induct[where P = "\<lambda>i n f s y. \<forall>r s'. y = Inr (r, s') \<longrightarrow> is_running s' = is_running s", OF _ that])
    fix loop i n fetched s y
    assume 1: "\<And>i n f s y. loop i n f s = Some y \<Longrightarrow> \<forall>r s'. y = Inr (r, s') \<longrightarrow> is_running s' = is_running s"
      "(if \<not> fst fetched > 0 then Some (Inr (n, s)) else case snd fetched of None \<Rightarrow> Some (Inl Null_deref)
        | Some msg \<Rightarrow> (case handle_msg i msg s of Inl e \<Rightarrow> Some (Inl e)
            | Inr (k, s1) \<Rightarrow> (case fetch_msg i s1 of Inl e \<Rightarrow> Some (Inl e) | Inr (f, s2) \<Rightarrow> loop i (n + k) f s2))) = Some y"
    show "\<forall>r s'. y = Inr (r, s') \<longrightarrow> is_running s' = is_running s"
    proof (cases "fst fetched > 0")
      case True
      then obtain msg where msg: "y = Inl Null_deref \<or> snd fetched = Some msg" using 1(2) by (auto split: option.splits)
      show ?thesis
      proof (cases "y = Inl Null_deref")
        case False
        then have f: "snd fetched = Some msg" using msg by simp
        show ?thesis
        proof (cases "\<exists>k s1 f s2. handle_msg i msg s = Inr (k, s1) \<and> fetch_msg i s1 = Inr (f, s2)")
          case True
          then obtain k s1 f s2 where m: "handle_msg i msg s = Inr (k, s1)" "fetch_msg i s1 = Inr (f, s2)" by blast
          then have "loop i (n + k) f s2 = Some y" using 1(2) \<open>fst fetched > 0\<close> f by simp
          from 1(1)[OF this] show ?thesis using handle_msg_running[OF m(1)] fetch_msg_running[OF m(2)] by simp
        next
          case False
          then show ?thesis using 1(2) \<open>fst fetched > 0\<close> f by (cases y) (auto split: sum.splits prod.splits)
        qed
      qed simp
    qed (use 1(2) in auto)
  qed
  then show "handle_loop i n fetched s = Some (Inr (r, s')) \<Longrightarrow> is_running s' = is_running s" by blast
qed

lemma returned_running: "returned (handle_loop i n fetched s) = Inr (r, s') \<Longrightarrow> is_running s' = is_running s"
  by (auto simp: returned_def dest: handle_loop_running split: option.splits)

lemma try_to_handle_msg_running [running]: "try_to_handle_msg i s = Inr s' \<Longrightarrow> is_running s' = is_running s"
  unfolding try_to_handle_msg_def
  by (auto elim!: bindr_InrE dest!: returned_running fetch_msg_running mutex_lock_running split: if_splits)

lemma handle_event_running [running]: "handle_event p e s = Inr s' \<Longrightarrow> is_running s' = is_running s"
  by (auto simp: handle_event_def bindr_Inr_iff Let_def dest!: running split: if_splits)

lemma handle_events_running [running]: "handle_events pes s = Inr s' \<Longrightarrow> is_running s' = is_running s"
  by (induction pes s rule: handle_events.induct) (auto simp: bindr_Inr_iff dest: handle_event_running)

lemma poll_round_running [running]: "poll_round data ret events s = Inr s' \<Longrightarrow> is_running s' = is_running s"
  by (auto simp: poll_round_def dest: running split: if_splits)

lemma get_polling_running [running]: "get_polling_and_client_list s = Inr (data, s') \<Longrightarrow> is_running s' = is_running s"
  by (cases "malloc (mem s)", cases "fst (malloc (mem s))")
    (auto simp: get_polling_and_client_list_def bindr_Inr_iff mutex_lock_def split: if_splits)

lemma flush_clients_running [running]: "flush_clients xs s = Inr s' \<Longrightarrow> is_running s' = is_running s"
proof (induction xs arbitrary: s)
  case (Cons x xs)
  then show ?case by (fastforce simp: bindr_Inr_iff put_client_def split: if_splits)
qed simp

lemma user_logout_running [running]: "user_logout i s = Inr s' \<Longrightarrow> is_running s' = is_running s"
proof -
  have k: "(case m of None \<Rightarrow> Inr (0, s) | Some m \<Rightarrow> deliver_msg_to_all_clients s m) = Inr (r, s')
    \<Longrightarrow> is_running s' = is_running s" for m s r s'
    by (auto split: option.splits dest: deliver_running)
  assume "user_logout i s = Inr s'"
  then show ?thesis unfolding user_logout_def Let_def
    by (auto elim!: bindr_InrE dest!: mutex_lock_running notice_running[OF _ k] split: if_splits)
qed

lemma logout_clients_running [running]: "logout_clients xs s = Inr s' \<Longrightarrow> is_running s' = is_running s"
  by (induction xs s rule: logout_clients.induct) (auto simp: bindr_Inr_iff dest!: user_logout_running split: if_splits)

lemma wait_running [running]: "wait_for_messages raised s = Inr s' \<Longrightarrow> is_running s' = is_running s"
  by (auto simp: wait_for_messages_def bindr_Inr_iff dest!: mutex_lock_running split: if_splits)

lemma write_sockets_round_running [running]:
  "write_sockets_round raised s = Inr (ended, s') \<Longrightarrow> is_running s' = is_running s"
  by (auto simp: write_sockets_round_def bindr_Inr_iff dest!: running split: option.splits)

lemma handle_listen_round_running [running]:
  "handle_listen_round ntop peer spins sock s = Inr s' \<Longrightarrow> is_running s' = is_running s"
  by (auto simp: handle_listen_round_def bindr_Inr_iff split: if_splits option.splits)
    (case_tac "malloc b", case_tac "fst (malloc b)", auto simp: bindr_Inr_iff dest!: mutex_lock_running)

lemma step_running: "step ntop act y y' \<Longrightarrow> is_running (srv y') = is_running (srv y)"
  by (induction rule: step.induct) (auto dest: running simp del: flush_clients.simps logout_clients.simps)

section \<open>The life cycle\<close>

text \<open>
  \<open>Not_created\<close> is the handle \<^verbatim>\<open>-1\<close>, \<open>No_thread\<close> any other handle that no thread has. The
  listening thread is in its loop, comes to or waits in one of its two calls of \<^verbatim>\<open>pthread_join\<close>,
  or has returned.
\<close>

datatype thread = Not_created | No_thread | Running | Ended
datatype listener = Accepting | Join_reading | Join_writing | Listener_ended

record program =
  core :: system
  listening :: listener
  reading :: thread
  writing :: thread

text \<open>The end of the loop of \<^verbatim>\<open>handle_listen\<close>: \<^verbatim>\<open>is_running\<close> is cleared.\<close>

definition leave_loop :: "program \<Rightarrow> program" where
  "leave_loop p = p\<lparr>listening := Join_reading, core := (core p)\<lparr>srv := (srv (core p))\<lparr>is_running := 0\<rparr>\<rparr>\<rparr>"

text \<open>
  The outcome of a call of \<^verbatim>\<open>pthread_create\<close>: the number it returns, and whether the handle
  is overwritten where the call fails, which its documentation leaves open (``the contents of
  \<^verbatim>\<open>*thread\<close> are undefined'').
\<close>

record creation =
  errcode :: int
  overwritten :: bool

definition handle_after :: "creation \<Rightarrow> thread" where
  "handle_after c = (if errcode c = 0 then Running else if overwritten c then No_thread else Not_created)"

definition create_threads :: "creation \<Rightarrow> creation \<Rightarrow> program \<Rightarrow> program" where
  "create_threads for_reading for_writing p =
     (if reading p \<noteq> Not_created then p
      else let p1 = p\<lparr>reading := handle_after for_reading\<rparr>
           in if 0 \<noteq> errcode for_reading then leave_loop p1
              else let p2 = p1\<lparr>writing := handle_after for_writing\<rparr>
                   in if 0 \<noteq> errcode for_writing then leave_loop p2 else p2)"

text \<open>
  A pass through the loop of \<^verbatim>\<open>handle_listen\<close>: only one that has added a client, with none of the
  \<^verbatim>\<open>continue\<close>s taken, comes to the creation of the threads.
\<close>

definition after_accept :: "creation \<Rightarrow> creation \<Rightarrow> system \<Rightarrow> program \<Rightarrow> program" where
  "after_accept for_reading for_writing y p =
     (if client_count (srv y) = client_count (srv (core p)) then p\<lparr>core := y\<rparr>
      else create_threads for_reading for_writing (p\<lparr>core := y\<rparr>))"

text \<open>The tests at the end of the loops of the working threads.\<close>

definition after_reading :: "system \<Rightarrow> thread" where
  "after_reading y = (case reader y of
     Reader_ended \<Rightarrow> Ended
   | Between \<Rightarrow> if is_running (srv y) = 0 then Ended else Running
   | _ \<Rightarrow> Running)"

definition after_writing :: "system \<Rightarrow> thread" where
  "after_writing y = (case writer y of
     Writer_ended \<Rightarrow> Ended
   | Resting \<Rightarrow> if is_running (srv y) = 0 then Ended else Running
   | _ \<Rightarrow> Running)"

datatype move =
  Listen peer "int \<times> int" int creation creation
| Leave
| Join
| Read action
| Write_out action

inductive alive :: "(nat \<Rightarrow> string \<Rightarrow> nat \<Rightarrow> string option) \<Rightarrow> move \<Rightarrow> program \<Rightarrow> program \<Rightarrow> bool"
  for inet_ntop where
  listen: "listening p = Accepting \<Longrightarrow> is_running (srv (core p)) \<noteq> 0
    \<Longrightarrow> step inet_ntop (Accept peer spins sock) (core p) y
    \<Longrightarrow> alive inet_ntop (Listen peer spins sock for_reading for_writing) p (after_accept for_reading for_writing y p)"
| leave: "listening p = Accepting \<Longrightarrow> is_running (srv (core p)) = 0 \<Longrightarrow> alive inet_ntop Leave p (leave_loop p)"
| join_reading: "listening p = Join_reading \<Longrightarrow> reading p = Not_created \<or> reading p = Ended
    \<Longrightarrow> alive inet_ntop Join p (p\<lparr>listening := Join_writing\<rparr>)"
| join_writing: "listening p = Join_writing \<Longrightarrow> writing p = Not_created \<or> writing p = Ended
    \<Longrightarrow> alive inet_ntop Join p (p\<lparr>listening := Listener_ended\<rparr>)"
| reads: "reading p = Running \<Longrightarrow> reading_action act \<Longrightarrow> step inet_ntop act (core p) y
    \<Longrightarrow> alive inet_ntop (Read act) p (p\<lparr>core := y, reading := after_reading y\<rparr>)"
| writes: "writing p = Running \<Longrightarrow> writing_action act \<Longrightarrow> step inet_ntop act (core p) y
    \<Longrightarrow> alive inet_ntop (Write_out act) p (p\<lparr>core := y, writing := after_writing y\<rparr>)"

text \<open>
  A join of a handle that no thread has: undefined behaviour, so there is no move of the listening
  thread out of such a state.
\<close>

definition joins_nothing :: "program \<Rightarrow> bool" where
  "joins_nothing p \<longleftrightarrow> (case listening p of
     Join_reading \<Rightarrow> reading p = No_thread | Join_writing \<Rightarrow> writing p = No_thread | _ \<Rightarrow> False)"

section \<open>Runs\<close>

text \<open>A run of a number of moves in an environment as theory \<open>Steps\<close> asks for it.\<close>

definition allowed_move :: "move \<Rightarrow> program \<Rightarrow> bool" where
  "allowed_move mv p = (case mv of
       Listen peer spins sock for_reading for_writing \<Rightarrow> allowed (Accept peer spins sock) (core p)
     | Leave \<Rightarrow> True
     | Join \<Rightarrow> True
     | Read act \<Rightarrow> allowed act (core p)
     | Write_out act \<Rightarrow> allowed act (core p))"

abbreviation serves :: "(nat \<Rightarrow> string \<Rightarrow> nat \<Rightarrow> string option) \<Rightarrow> program \<Rightarrow> nat \<Rightarrow> program \<Rightarrow> bool" where
  "serves ntop \<equiv> runs (alive ntop) allowed_move"

section \<open>The invariant\<close>

definition launch :: "server \<Rightarrow> program" where
  "launch s = \<lparr>core = start s, listening = Accepting, reading = Not_created, writing = Not_created\<rparr>"

definition prog_ok :: "nat list \<Rightarrow> program \<Rightarrow> bool" where
  "prog_ok held p \<longleftrightarrow> sys_ok held (core p) \<and> (reading p \<noteq> Running \<longrightarrow> reader (core p) = Between)
     \<and> (writing p \<noteq> Running \<longrightarrow> writer (core p) = Resting)
     \<and> (case listening p of
          Accepting \<Rightarrow> is_running (srv (core p)) \<noteq> 0 \<and> (reading p = Running \<and> writing p = Running
            \<or> reading p = Not_created \<and> writing p = Not_created \<and> clients (srv (core p)) = [])
        | Join_reading \<Rightarrow> is_running (srv (core p)) = 0
        | Join_writing \<Rightarrow> is_running (srv (core p)) = 0 \<and> reading p \<in> {Not_created, Ended}
        | Listener_ended \<Rightarrow> is_running (srv (core p)) = 0 \<and> reading p \<in> {Not_created, Ended} \<and> writing p \<in> {Not_created, Ended})"

lemma server_ok_stop [simp]: "server_ok held (s\<lparr>is_running := n\<rparr>) = server_ok held s"
  by (simp add: server_ok_def online_ok_def)

lemma sys_ok_stop [simp]: "sys_ok held (y\<lparr>srv := (srv y)\<lparr>is_running := n\<rparr>\<rparr>) = sys_ok held y"
  by (simp add: sys_ok_def reader_ok_def snapshot_ok_def writer_ok_def taken_ok_def entry_ok_def split: reader.split writer.split)

lemma launch_ok: "server_ok held s \<Longrightarrow> is_running s \<noteq> 0 \<Longrightarrow> clients s = [] \<Longrightarrow> prog_ok held (launch s)"
  by (simp add: prog_ok_def launch_def start_def sys_ok_def reader_ok_def writer_ok_def)

lemma accept_none:
  "handle_listen_round ntop peer spins sock s = Inr s' \<Longrightarrow> client_count s' = client_count s \<Longrightarrow> clients s' = clients s"
  by (auto simp: handle_listen_round_def bindr_Inr_iff split: if_splits option.splits)
    (case_tac "malloc b", case_tac "fst (malloc b)",
      auto simp: bindr_Inr_iff mutex_lock_def mutex_unlock_def split: if_splits)

lemma listen_ok:
  assumes p: "prog_ok held p" "listening p = Accepting" and st: "step ntop (Accept peer spins sock) (core p) y"
    and act: "allowed (Accept peer spins sock) (core p)"
  shows "prog_ok held (after_accept for_reading for_writing y p)"
proof -
  have ok: "sys_ok held y" using allowed_step[OF st _ act] p(1) by (simp add: prog_ok_def)
  obtain s where s: "handle_listen_round ntop peer spins sock (srv (core p)) = Inr s" "y = (core p)\<lparr>srv := s\<rparr>"
    using st by (auto elim: step_acceptE)
  have r: "is_running (srv y) \<noteq> 0" "reader y = reader (core p)" "writer y = writer (core p)"
    using p s step_running[OF st] by (simp_all add: prog_ok_def)
  have "sys_ok held ((core p)\<lparr>srv := s\<lparr>is_running := 0\<rparr>\<rparr>)"
    using ok sys_ok_stop[where held = held and y = y and n = 0] unfolding s(2) by simp
  then show ?thesis
    using p ok r accept_none[OF s(1)] s(2)
    by (auto simp: prog_ok_def after_accept_def create_threads_def handle_after_def leave_loop_def Let_def)
qed

text \<open>A thread leaves the other one where it is.\<close>

lemma step_reading: "step ntop act y y' \<Longrightarrow> reading_action act \<Longrightarrow> writer y' = writer y"
  and step_writing: "step ntop act y y' \<Longrightarrow> writing_action act \<Longrightarrow> reader y' = reader y"
  by (induction rule: step.induct) simp_all

lemma reads_ok:
  assumes p: "prog_ok held p" "reading p = Running" and st: "step ntop act (core p) y" "reading_action act"
    and act: "allowed act (core p)"
  shows "prog_ok held (p\<lparr>core := y, reading := after_reading y\<rparr>)"
proof -
  have ok: "sys_ok held y" using allowed_step[OF st(1) _ act] p(1) by (simp add: prog_ok_def)
  moreover have "after_reading y \<noteq> Running \<longrightarrow> reader y = Between \<and> is_running (srv y) = 0"
    using ok by (auto simp: sys_ok_def reader_ok_def after_reading_def split: reader.splits)
  ultimately show ?thesis
    using p step_running[OF st(1)] step_reading[OF st] by (cases "listening p") (auto simp: prog_ok_def)
qed

lemma writes_ok:
  assumes p: "prog_ok held p" "writing p = Running" and st: "step ntop act (core p) y" "writing_action act"
    and act: "allowed act (core p)"
  shows "prog_ok held (p\<lparr>core := y, writing := after_writing y\<rparr>)"
proof -
  have ok: "sys_ok held y" using allowed_step[OF st(1) _ act] p(1) by (simp add: prog_ok_def)
  moreover have "after_writing y \<noteq> Running \<longrightarrow> writer y = Resting \<and> is_running (srv y) = 0"
    using ok by (auto simp: sys_ok_def writer_ok_def after_writing_def split: writer.splits)
  ultimately show ?thesis
    using p step_running[OF st(1)] step_writing[OF st] by (cases "listening p") (auto simp: prog_ok_def)
qed

lemma alive_ok:
  assumes "alive ntop mv p p'" and "prog_ok held p" and "allowed_move mv p"
  shows "prog_ok held p'"
  using assms
proof (cases rule: alive.cases)
  case (listen peer spins sock y r w)
  then show ?thesis using listen_ok assms(2,3) by (simp add: allowed_move_def)
next
  case (reads act y)
  then show ?thesis using reads_ok assms(2,3) by (simp add: allowed_move_def)
next
  case (writes act y)
  then show ?thesis using writes_ok assms(2,3) by (simp add: allowed_move_def)
qed (auto simp: prog_ok_def leave_loop_def)

section \<open>Stopping\<close>

text \<open>
  An upper bound of the moves left once \<^verbatim>\<open>is_running\<close> is 0: each working thread finishes the
  round it is in, or the one it is about to begin.
\<close>

definition reads_left :: "system \<Rightarrow> nat" where
  "reads_left y = (case reader y of
     Between \<Rightarrow> length (clients (srv y)) + 4
   | Listed data \<Rightarrow> length data + 3
   | Polling data \<Rightarrow> length data + 2
   | Handling pes \<Rightarrow> length pes + 1
   | Reader_ended \<Rightarrow> 0)"

definition writes_left :: "system \<Rightarrow> nat" where
  "writes_left y = (case writer y of
     Resting \<Rightarrow> 2 * length (clients (srv y)) + 3
   | Flushing xs ys \<Rightarrow> length ys + length xs + 2
   | Logging_out xs \<Rightarrow> length xs + 1
   | Writer_ended \<Rightarrow> 0)"

definition moves_left :: "program \<Rightarrow> nat" where
  "moves_left p =
     (case listening p of Accepting \<Rightarrow> 3 | Join_reading \<Rightarrow> 2 | Join_writing \<Rightarrow> 1 | Listener_ended \<Rightarrow> 0)
     + (if reading p = Running then reads_left (core p) else 0)
     + (if writing p = Running then writes_left (core p) else 0)"

lemma read_decreases:
  assumes y: "sys_ok held y" and st: "step ntop act y y'" and act: "reading_action act" "allowed act y"
  shows "length (clients (srv y')) \<le> length (clients (srv y))
    \<and> (if reader y' = Between then 0 < reads_left y else reads_left y' < reads_left y)"
  using st
proof (cases rule: step.cases)
  case (listed data s)
  then have "map info_ptr data = clients (srv y)" and cl: "clients s = clients (srv y)"
    using list_step[OF y] by (auto simp: same_online_def)
  then have "length data = length (clients (srv y))" by (metis length_map)
  then show ?thesis using listed cl by (simp add: reads_left_def)
next
  case (handled p e pes s)
  then have "clients s = clients (srv y)" using handle_step[OF y handled(3)] act(2) by auto
  then show ?thesis using handled by (simp add: reads_left_def)
qed (use act(1) list_step[OF y] in \<open>auto simp: reads_left_def\<close>)

lemma write_decreases:
  assumes y: "sys_ok held y" and st: "step ntop act y y'" and act: "writing_action act" "allowed act y"
  shows "length (clients (srv y')) \<le> length (clients (srv y))
    \<and> (if writer y' = Resting then 0 < writes_left y else writes_left y' < writes_left y)"
  using st
proof (cases rule: step.cases)
  case (taken arr sz s xs)
  then have "length xs = length (clients (srv y))" "clients s = clients (srv y)"
    using take_step[OF y] by (auto simp: same_online_def)
  then show ?thesis using taken by (simp add: writes_left_def)
next
  case (flushed xs x ys s)
  then have "clients s = clients (srv y)" using flush_step[OF y flushed(3)] act(2) by (auto simp: allowed_def)
  then show ?thesis using flushed by (simp add: writes_left_def)
next
  case (logged_out x xs s)
  then have "length (clients s) \<le> length (clients (srv y))" using logout_step[OF y logged_out(3)] act(2) by auto
  then show ?thesis using logged_out by (simp add: writes_left_def)
next
  case (waited raised s)
  then show ?thesis using wait_step[OF y, of raised] by (simp add: writes_left_def)
qed (use act(1) take_step[OF y] in \<open>auto simp: writes_left_def\<close>)

lemma reads_left_mono: "reader y' = reader y \<Longrightarrow> length (clients (srv y')) \<le> length (clients (srv y)) \<Longrightarrow> reads_left y' \<le> reads_left y"
  and writes_left_mono: "writer y' = writer y \<Longrightarrow> length (clients (srv y')) \<le> length (clients (srv y)) \<Longrightarrow> writes_left y' \<le> writes_left y"
  by (simp_all add: reads_left_def writes_left_def split: reader.split writer.split)

lemma stopping_move:
  assumes mv: "alive ntop mv p p'" "allowed_move mv p" and p: "prog_ok held p" and st: "is_running (srv (core p)) = 0"
  shows "is_running (srv (core p')) = 0 \<and> moves_left p' < moves_left p"
  using mv(1)
proof (cases rule: alive.cases)
  case (reads act y)
  have ok: "sys_ok held (core p)" using p by (simp add: prog_ok_def)
  have al: "allowed act (core p)" using mv(2) reads(1) by (simp add: allowed_move_def)
  have r: "is_running (srv y) = 0" using step_running[OF reads(5)] st by simp
  note d = read_decreases[OF ok reads(5,4) al] and w = step_reading[OF reads(5,4)]
  have "writes_left y \<le> writes_left (core p)" using writes_left_mono[OF w] d by simp
  moreover have "(if after_reading y = Running then reads_left y else 0) < reads_left (core p)"
    using d r by (auto simp: after_reading_def split: reader.splits)
  ultimately show ?thesis using reads(1-3) r by (cases "after_reading y = Running"; cases "writing p = Running") (simp_all add: moves_left_def)
next
  case (writes act y)
  have ok: "sys_ok held (core p)" using p by (simp add: prog_ok_def)
  have al: "allowed act (core p)" using mv(2) writes(1) by (simp add: allowed_move_def)
  have r: "is_running (srv y) = 0" using step_running[OF writes(5)] st by simp
  note d = write_decreases[OF ok writes(5,4) al] and w = step_writing[OF writes(5,4)]
  have "reads_left y \<le> reads_left (core p)" using reads_left_mono[OF w] d by simp
  moreover have "(if after_writing y = Running then writes_left y else 0) < writes_left (core p)"
    using d r by (auto simp: after_writing_def split: writer.splits)
  ultimately show ?thesis using writes(1-3) r by (cases "after_writing y = Running"; cases "reading p = Running") (simp_all add: moves_left_def)
next
  case leave
  then show ?thesis using p by (simp add: prog_ok_def)
qed (use st p in \<open>simp_all add: moves_left_def prog_ok_def\<close>)

interpretation pg: stopping_system "alive ntop" allowed_move "prog_ok held" "\<lambda>p. is_running (srv (core p)) = 0" moves_left
  for ntop held
  by unfold_locales (auto dest: stopping_move intro: alive_ok)

section \<open>The end\<close>

text \<open>After the join \<^verbatim>\<open>main\<close> releases the server.\<close>

lemma release_server_ok:
  assumes "server_ok held s"
  shows "\<exists>m'. release_server_info s = Inr m'"
proof -
  obtain c where c: "infos s ! server_info s = Some c" "server_info s < length (infos s)"
    using assms by (auto simp: server_ok_def online_ok_def)
  obtain m' where "release_client_info (Some c) (mem s) = Inr (0, m')"
    using infos_release[OF server_infos[OF assms] c(2,1)] by blast
  then show ?thesis using c by (simp add: release_server_info_def deref_def)
qed

definition finished :: "program \<Rightarrow> bool" where
  "finished p \<longleftrightarrow> listening p = Listener_ended"

text \<open>Wherever a working thread is, it can go on.\<close>

lemma reader_moves:
  assumes y: "sys_ok held y" and env: "allowed Handle y"
  shows "\<exists>act y'. step ntop act y y' \<and> reading_action act \<and> allowed act y"
proof (cases "reader y")
  case Between
  then obtain y' where "step ntop List_clients y y'" using list_step[OF y] listed by blast
  then show ?thesis by (intro exI[of _ List_clients]) (auto simp: allowed_def)
next
  case (Listed data)
  then have "step ntop Log_list y (y\<lparr>reader := Polling data\<rparr>)" using log_step[OF y Listed] logged by simp
  then show ?thesis by (intro exI[of _ Log_list]) (auto simp: allowed_def)
next
  case (Polling data)
  let ?quiet = "replicate (length data) \<lparr>revents = 0, byte_available = None, incoming = []\<rparr>"
  have "step ntop (Poll 0 ?quiet) y (y\<lparr>reader := Between\<rparr>)" using polled[OF Polling, of ?quiet ntop 0] by simp
  then show ?thesis by (intro exI[of _ "Poll 0 ?quiet"]) (auto simp: allowed_def)
next
  case (Handling pes)
  show ?thesis
  proof (cases pes)
    case Nil
    then have "step ntop Handle y (y\<lparr>reader := Between\<rparr>)" using all_handled Handling by simp
    then show ?thesis using env by (intro exI[of _ Handle]) auto
  next
    case (Cons pe ps)
    obtain p e where pe: "pe = (p, e)" by (cases pe)
    have r: "reader y = Handling ((p, e) # ps)" using Handling Cons pe by simp
    from handle_step[OF y r env] handled[OF r] env show ?thesis by (intro exI[of _ Handle]) auto
  qed
qed (use sys_okD(2)[OF y] in \<open>simp add: reader_ok_def\<close>)

lemma writer_moves:
  assumes y: "sys_ok held y" and env: "healthy (srv y)" and r: "reader y = Between"
  shows "\<exists>act y'. step ntop act y y' \<and> writing_action act \<and> allowed act y"
proof -
  have al: "allowed Take_clients y" "allowed Flush y" "allowed Log_out y" "allowed (Wait 0) y"
    using env r by (simp_all add: allowed_def)
  show ?thesis
  proof (cases "writer y")
    case Resting
    then obtain y' where "step ntop Take_clients y y'" using take_step[OF y] taken[OF Resting _ refl] by blast
    then show ?thesis using al by (intro exI[of _ Take_clients]) auto
  next
    case (Flushing xs ys)
    have "\<exists>y'. step ntop Flush y y'"
    proof (cases ys)
      case (Cons x zs)
      then show ?thesis using Flushing flush_step[OF y _ env] flushed by metis
    qed (use Flushing all_flushed in blast)
    then show ?thesis using al by (intro exI[of _ Flush]) auto
  next
    case (Logging_out xs)
    show ?thesis
    proof (cases xs)
      case Nil
      then have "\<exists>y'. step ntop (Wait 0) y y'" using Logging_out wait_step[OF y] waited by blast
      then show ?thesis using al by (intro exI[of _ "Wait 0"]) auto
    next
      case (Cons x zs)
      then have "\<exists>y'. step ntop Log_out y y'" using Logging_out logout_step[OF y _ al(3)] logged_out by metis
      then show ?thesis using al by (intro exI[of _ Log_out]) auto
    qed
  qed (use sys_okD(3)[OF y] in \<open>simp add: writer_ok_def\<close>)
qed

text \<open>Nothing blocks: as long as the server has not stopped some thread can move.\<close>

lemma stopping_progress:
  assumes p: "prog_ok held p" and st: "is_running (srv (core p)) = 0" and nf: "\<not> finished p" "\<not> joins_nothing p"
    and env: "healthy (srv (core p))" "allowed Handle (core p)"
  shows "\<exists>mv p'. allowed_move mv p \<and> alive ntop mv p p'"
proof -
  have y: "sys_ok held (core p)" using p by (simp add: prog_ok_def)
  have rd: "\<exists>mv p'. allowed_move mv p \<and> alive ntop mv p p'"
    if "step ntop act (core p) y'" "reading_action act" "allowed act (core p)" "reading p = Running" for act y'
    using reads[OF that(4,2,1)] that(3) by (intro exI[of _ "Read act"]) (auto simp: allowed_move_def)
  have wr: "\<exists>mv p'. allowed_move mv p \<and> alive ntop mv p p'"
    if "step ntop act (core p) y'" "writing_action act" "allowed act (core p)" "writing p = Running" for act y'
    using writes[OF that(4,2,1)] that(3) by (intro exI[of _ "Write_out act"]) (auto simp: allowed_move_def)
  consider (reader) "reading p = Running" | (writer) "reading p \<noteq> Running" "writing p = Running"
    | (join) "reading p \<noteq> Running" "writing p \<noteq> Running" by blast
  then show ?thesis
  proof cases
    case reader
    obtain act y' where "step ntop act (core p) y'" "reading_action act" "allowed act (core p)"
      using reader_moves[OF y env(2)] by blast
    then show ?thesis using rd reader by blast
  next
    case writer
    then have "reader (core p) = Between" using p by (simp add: prog_ok_def)
    then obtain act y' where "step ntop act (core p) y'" "writing_action act" "allowed act (core p)"
      using writer_moves[OF y env(1)] by blast
    then show ?thesis using wr writer(2) by blast
  next
    case join
    show ?thesis
    proof (cases "listening p")
      case Accepting
      then show ?thesis using leave[OF Accepting st] by (intro exI[of _ Leave]) (auto simp: allowed_move_def)
    next
      case Join_reading
      then have "reading p = Not_created \<or> reading p = Ended" using nf(2) join(1) by (cases "reading p") (simp_all add: joins_nothing_def)
      then show ?thesis using join_reading[OF Join_reading] by (intro exI[of _ Join]) (auto simp: allowed_move_def)
    next
      case Join_writing
      then have "writing p = Not_created \<or> writing p = Ended" using nf(2) join(2) by (cases "writing p") (simp_all add: joins_nothing_def)
      then show ?thesis using join_writing[OF Join_writing] by (intro exI[of _ Join]) (auto simp: allowed_move_def)
    qed (use nf in \<open>simp add: finished_def\<close>)
  qed
qed

text \<open>
  A call of \<^verbatim>\<open>pthread_create\<close> that has failed and overwritten its handle: the listening thread
  has left its loop and has still to join that handle, and stays in such a state.
\<close>

definition doomed :: "program \<Rightarrow> bool" where
  "doomed p \<longleftrightarrow> (case listening p of
     Join_reading \<Rightarrow> reading p = No_thread \<or> writing p = No_thread
   | Join_writing \<Rightarrow> writing p = No_thread
   | _ \<Rightarrow> False)"

lemma doomed_stays: "alive ntop mv p p' \<Longrightarrow> doomed p \<Longrightarrow> doomed p'"
  by (induction rule: alive.induct) (auto simp: doomed_def split: listener.splits)

interpretation dm: guarded_system "alive ntop" allowed_move doomed for ntop
  by unfold_locales (rule doomed_stays)

lemma failed_create_dooms:
  assumes "reading p = Not_created" and "client_count (srv y) \<noteq> client_count (srv (core p))"
    and "errcode for_reading \<noteq> 0 \<and> overwritten for_reading
      \<or> errcode for_reading = 0 \<and> errcode for_writing \<noteq> 0 \<and> overwritten for_writing"
  shows "doomed (after_accept for_reading for_writing y p)" "is_running (srv (core (after_accept for_reading for_writing y p))) = 0"
  using assms by (auto simp: doomed_def after_accept_def create_threads_def handle_after_def leave_loop_def Let_def)

end
