(* ===== verification/Delivery.thy ===== *)
theory Delivery
  imports Steps
begin

text \<open>
  From the socket of the sender to the sockets of the receivers: one line that arrives at an
  idle client, handled by the reading thread, and the next round of the writing thread.
\<close>

section \<open>One line\<close>

lemma drain_one: "line_text l \<Longrightarrow> drain_lines [l @ [LF]] = ([l], [])"
proof -
  assume l: "line_text l"
  then have tw: "takeWhile (\<lambda>c. c \<noteq> LF) (l @ [LF]) = l" "takeWhile (\<lambda>c. c \<noteq> NUL) (l @ [LF]) = l @ [LF]"
    by (auto simp: line_text_def takeWhile_append)
  have "drain_lines [] = ([], [])" by (subst drain_lines.simps) (simp add: first_size_def)
  then show ?thesis by (subst drain_lines.simps) (simp add: first_size_def first_line_def line_size_def tw cut_chunks_def)
qed

lemma full_lines_one: "LF \<notin> set l \<Longrightarrow> full_lines (l @ [LF]) = [l]"
  using full_lines_split[of l "[]"] by simp

lemma idle_line_ok:
  assumes ok: "server_ok held s" and p: "fresh_entry p s" and a: "abs_srv s ! info_ptr p = Some a" "a_in a = []"
    and l: "good_line l" "length l < 512"
    and ev: "odd (revents ev)" "byte_available ev = Some (int (Suc (length l)))" "incoming ev = [Read_data (l @ [LF])]"
  shows "\<exists>s'. handle_event p ev s = Inr s' \<and> server_ok held s' \<and> same_rest s s'
    \<and> abs_srv s' = set_in (info_ptr p) [] (snd (a_handle (clients s) (info_ptr p) l (abs_srv s)))"
proof -
  have lt: "line_text l" using l(1) by (simp add: good_line_def)
  have on: "\<forall>j \<in> set (clients s). j < length (infos s)" using ok by (simp add: server_ok_def online_ok_def)
  have ev2: "byte_available ev = Some (int (length (l @ [LF])))" using ev(2) by simp
  have len: "length (concat (a_in a) @ l @ [LF]) < int_max" using a(2) l(2) by (simp add: int_max_def)
  have good: "\<forall>l \<in> set (full_lines (concat (a_in a) @ l @ [LF])). good_line l"
    using full_lines_one[of l] lt l(1) a(2) by (simp add: line_text_def)
  obtain s' chs n v where s': "handle_event p ev s = Inr s'" "server_ok held s'"
    "a_in a = [] \<longrightarrow> length (l @ [LF]) \<le> 512 \<longrightarrow> chs = [l @ [LF]]"
    "a_handle_all (clients s) (info_ptr p) (fst (drain_lines chs)) (abs_srv s) = (n, v)"
    "abs_srv s' = set_in (info_ptr p) (snd (drain_lines chs)) v"
    "same_online (s\<lparr>sign_to_flush_msg := sign_to_flush_msg s + (if n = 0 then 0 else 1)\<rparr>) s'"
    using event_data[OF ok p a(1) on ev(1) ev2 ev(3) _ len good] by blast
  have "chs = [l @ [LF]]" using s'(3) a(2) l(2) by simp
  then have d: "drain_lines chs = ([l], [])" using drain_one[OF lt] by simp
  have "v = snd (a_handle (clients s) (info_ptr p) l (abs_srv s))" using s'(4) d by (auto split: prod.splits)
  then show ?thesis using s'(1,2,5,6) d same_rest_sign by auto
qed

section \<open>What a round of the writing thread sends\<close>

definition socket_at :: "aclient option list \<Rightarrow> nat \<Rightarrow> int" where
  "socket_at v i = a_socket (the (v ! i))"

lemma sockets_abs: "\<forall>i \<in> set ids. i < length cs \<and> cs ! i \<noteq> None \<Longrightarrow> sockets cs ids = map (socket_at (abs_infos m cs)) ids"
  by (auto simp: sockets_def socket_at_def abs_client_def)

lemma a_flush_at: "v ! i = Some a \<Longrightarrow> a_flush i (v, sn) = (if a_pub a = FAIL then (v, sn)
    else (v[i := Some (a\<lparr>a_out := []\<rparr>)], sn(a_socket a := sn (a_socket a) @ a_out a)))"
  by (simp add: a_flush_def)

lemma flush_other:
  "\<forall>i \<in> set ids. i < length v \<and> v ! i \<noteq> None \<Longrightarrow> f \<notin> set (map (socket_at v) ids)
    \<Longrightarrow> snd (fold a_flush ids (v, sn)) f = sn f"
proof (induction ids arbitrary: v sn)
  case (Cons i ids)
  obtain a where a: "v ! i = Some a" "i < length v" using Cons.prems(1) by auto
  let ?v = "v[i := Some (a\<lparr>a_out := []\<rparr>)]"
  have so: "socket_at ?v k = socket_at v k" for k
    using a by (cases "k = i") (simp_all add: socket_at_def)
  have "\<forall>k \<in> set ids. k < length ?v \<and> ?v ! k \<noteq> None" using Cons.prems(1) by (simp add: nth_list_update)
  then have "snd (fold a_flush ids (?v, sn')) f = sn' f" for sn' using Cons.IH[of ?v] Cons.prems(2) so by simp
  moreover have "f \<noteq> a_socket a" using Cons.prems(2) a(1) by (simp add: socket_at_def)
  moreover have "snd (fold a_flush ids (v, sn)) f = sn f" using Cons.IH[of v] Cons.prems by simp
  ultimately show ?case using a_flush_at[OF a(1)] by simp
qed simp

lemma flush_sends:
  "\<forall>i \<in> set ids. i < length v \<and> v ! i \<noteq> None \<Longrightarrow> distinct (map (socket_at v) ids) \<Longrightarrow> j \<in> set ids
    \<Longrightarrow> v ! j = Some a \<Longrightarrow> a_pub a \<noteq> FAIL \<Longrightarrow> snd (fold a_flush ids (v, sn)) (a_socket a) = sn (a_socket a) @ a_out a"
proof (induction ids arbitrary: v sn)
  case (Cons i ids)
  obtain b where b: "v ! i = Some b" "i < length v" using Cons.prems(1) by auto
  let ?v = "v[i := Some (b\<lparr>a_out := []\<rparr>)]"
  have so: "socket_at ?v k = socket_at v k" for k using b by (cases "k = i") (simp_all add: socket_at_def)
  have in_v: "\<forall>k \<in> set ids. k < length ?v \<and> ?v ! k \<noteq> None" using Cons.prems(1) by (simp add: nth_list_update)
  show ?case
  proof (cases "i = j")
    case True
    then have ab: "b = a" using b(1) Cons.prems(4) by simp
    have "a_socket a \<notin> set (map (socket_at ?v) ids)"
      using Cons.prems(2) b(1) ab so by (simp add: socket_at_def[of v i])
    then show ?thesis using flush_other[OF in_v] ab a_flush_at[OF b(1)] Cons.prems(5) by simp
  next
    case False
    have ji: "j \<in> set ids" and dd: "distinct (map (socket_at v) ids)" using Cons.prems(2,3) False by simp_all
    have ne: "a_socket a \<noteq> a_socket b" using Cons.prems(2,4) b(1) ji by (force simp: socket_at_def)
    have "distinct (map (socket_at ?v) ids)" using dd so by (simp cong: map_cong)
    moreover have "?v ! j = Some a" using False Cons.prems(4) by simp
    ultimately have "snd (fold a_flush ids (?v, sn')) (a_socket a) = sn' (a_socket a) @ a_out a" for sn'
      using Cons.IH[OF in_v _ ji] Cons.prems(5) by blast
    moreover have "snd (fold a_flush ids (v, sn)) (a_socket a) = sn (a_socket a) @ a_out a"
      using Cons.IH[OF _ dd ji Cons.prems(4,5)] Cons.prems(1) by simp
    ultimately show ?thesis using a_flush_at[OF b(1)] ne by simp
  qed
qed simp

lemma write_sends:
  assumes ok: "server_ok held s" and h: "healthy s" 
  shows "\<exists>s'. write_sockets_round raised s = Inr (Some s', s') \<and> server_ok held s'
    \<and> (\<forall>j \<in> set (clients s). \<forall>b. abs_srv s ! j = Some b \<longrightarrow> a_pub b \<noteq> FAIL
        \<longrightarrow> sent_by s' (a_socket b) = sent_by s (a_socket b) @ a_out b)"
proof -
  obtain v sn where f: "fold a_flush (clients s) (abs_srv s, sent_by s) = (v, sn)"
    by (cases "fold a_flush (clients s) (abs_srv s, sent_by s)")
  obtain s' where s': "write_sockets_round raised s = Inr (Some s', s')" "server_ok held s'" "sent_by s' = sn"
    using write_sockets_round_ok[OF ok h, of raised] f by auto
  have on: "\<forall>i \<in> set (clients s). i < length (infos s) \<and> infos s ! i \<noteq> None" "distinct (sockets (infos s) (clients s))"
    using ok by (auto simp: server_ok_def online_ok_def)
  have av: "\<forall>i \<in> set (clients s). i < length (abs_srv s) \<and> abs_srv s ! i \<noteq> None" using on(1) by auto
  have "distinct (map (socket_at (abs_srv s)) (clients s))" using on sockets_abs by metis
  from flush_sends[OF av this, of _ _ "sent_by s"] f s' show ?thesis by auto
qed

section \<open>From socket to socket\<close>

text \<open>A healthy server with room for one more message in every writing buffer.\<close>

definition calm :: "server \<Rightarrow> bool" where
  "calm s \<longleftrightarrow> (\<forall>f. no_write_fail (outs s f)) \<and> (\<forall>a. Some a \<in> set (abs_srv s) \<longrightarrow> length (a_out a) < 2 ^ 63)"

lemma send_out: "a_send tgt ex line (Some a) = Some (a\<lparr>a_out := a_out a @ (if receives tgt ex a then line else [])\<rparr>)"
  by (simp add: a_send_def)

text \<open>The message one line stands for: to whom, except whom, and its text; and who the sender is then.\<close>

definition line_msg :: "string \<Rightarrow> string \<Rightarrow> (string \<times> string \<times> string) option" where
  "line_msg me l =
     (if starts CMD_LOGIN l then (let who = take 29 (drop 7 l) in Some (CMD_TO_ALL, who, sys_text (who @ '' '' @ MSG_LOGIN_SUFFIX)))
      else if starts CMD_TO_ALL l then Some (CMD_TO_ALL, me, p2p_text me (drop 8 l))
      else if starts CMD_TO_C l then Some (to_c_target l, me, p2p_text me (drop (length (to_c_target l) + 7) l))
      else None)"

lemma handle_at:
  assumes d: "distinct ids" and l: "\<forall>k \<in> set ids. k < length v" and i: "v ! i = Some a"
    and j: "j \<in> set ids" "j \<noteq> i" "v ! j = Some b"
  shows "snd (a_handle ids i l v) ! j = Some (b\<lparr>a_out := a_out b @
    (case line_msg (a_name a) l of None \<Rightarrow> [] | Some (tgt, ex, t) \<Rightarrow> if receives tgt ex b then t else [])\<rparr>)"
proof -
  have l': "\<forall>k \<in> set ids. k < length (a_update i f v)" for f using l by (simp add: a_update_def)
  have j': "a_update i f v ! j = Some b" for f using j by (simp add: a_update_def)
  show ?thesis
    using a_deliver_nth[OF d l] a_deliver_nth[OF d l'] j j' i
    by (simp add: a_handle_def a_say_def Let_def line_msg_def send_out)
qed

lemma line_msg_length:
  assumes "good_line l" and "length me < 30" and "line_msg me l = Some (tgt, ex, t)"
  shows "length t < 1024"
  using assms by (auto simp: line_msg_def good_line_def sys_text_def p2p_text_def MSG_LOGIN_SUFFIX_def Let_def split: if_splits)

lemma out_deliver:
  assumes "distinct ids" and "\<forall>k \<in> set ids. k < length v" and "a_deliver ids tgt ex t v ! k = Some x"
  shows "\<exists>b. v ! k = Some b \<and> length (a_out x) \<le> length (a_out b) + length t"
  using a_deliver_nth[OF assms(1,2), of tgt ex t] assms(3) by (auto simp: a_send_def split: if_splits)

lemma out_handle:
  assumes d: "distinct ids" and l: "\<forall>k \<in> set ids. k < length v" and i: "v ! i = Some a"
    and g: "good_line l" "length (a_name a) < 30" and x: "snd (a_handle ids i l v) ! k = Some x"
  shows "\<exists>b. v ! k = Some b \<and> length (a_out x) \<le> length (a_out b) + 1024"
proof (cases "line_msg (a_name a) l")
  case None
  then have "snd (a_handle ids i l v) = v" by (auto simp: line_msg_def a_handle_def Let_def split: if_splits)
  then show ?thesis using x by simp
next
  case (Some m)
  then obtain tgt ex t where m: "line_msg (a_name a) l = Some (tgt, ex, t)" by (cases m) auto
  have t: "length t < 1024" by (rule line_msg_length[OF g m])
  have "\<exists>f. snd (a_handle ids i l v) = a_deliver ids tgt ex t (a_update i (\<lambda>a. a\<lparr>a_name := f a\<rparr>) v)"
  proof (cases "starts CMD_LOGIN l")
    case True
    then show ?thesis using m by (intro exI[of _ "\<lambda>_. take 29 (drop 7 l)"]) (auto simp: line_msg_def a_handle_def a_say_def Let_def)
  next
    case False
    have "a_update i (\<lambda>a. a\<lparr>a_name := a_name a\<rparr>) v = v" by (simp add: a_update_def option.map_ident list_update_id)
    then show ?thesis using m False i
      by (intro exI[of _ a_name]) (auto simp: line_msg_def a_handle_def a_say_def Let_def split: if_splits)
  qed
  then obtain f where f: "snd (a_handle ids i l v) = a_deliver ids tgt ex t (a_update i (\<lambda>a. a\<lparr>a_name := f a\<rparr>) v)" by blast
  have l': "\<forall>k \<in> set ids. k < length (a_update i (\<lambda>a. a\<lparr>a_name := f a\<rparr>) v)" using l by (simp add: a_update_def)
  obtain c where c: "a_update i (\<lambda>a. a\<lparr>a_name := f a\<rparr>) v ! k = Some c" "length (a_out x) \<le> length (a_out c) + length t"
    using out_deliver[OF d l' x[unfolded f]] by blast
  have "\<exists>b. v ! k = Some b \<and> a_out c = a_out b"
    using c(1) by (cases "i < length v \<and> i = k") (auto simp: a_update_def nth_list_update list_update_beyond not_less)
  then show ?thesis using c(2) t by fastforce
qed

text \<open>
  A line from client \<open>i\<close>, whole and on an idle connection: handling it and one round of the
  writing thread put on the socket of every other client what was waiting for it there, and the
  message when it is one of the receivers.
\<close>

lemma line_arrives:
  assumes ok: "server_ok held s" and calm: "calm s" and p: "fresh_entry p s" "info_ptr p \<in> set (clients s)"
    and a: "abs_srv s ! info_ptr p = Some a" "a_in a = []" and l: "good_line l" "length l < 512"
    and ev: "odd (revents ev)" "byte_available ev = Some (int (Suc (length l)))" "incoming ev = [Read_data (l @ [LF])]"
  shows "\<exists>s1 s2. handle_event p ev s = Inr s1 \<and> write_sockets_round raised s1 = Inr (Some s2, s2) \<and> server_ok held s2
    \<and> (\<forall>j \<in> set (clients s). \<forall>b. j \<noteq> info_ptr p \<longrightarrow> abs_srv s ! j = Some b \<longrightarrow> a_pub b \<noteq> FAIL \<longrightarrow>
        sent_by s2 (a_socket b) = sent_by s (a_socket b) @ a_out b @
          (case line_msg (a_name a) l of None \<Rightarrow> [] | Some (tgt, ex, t) \<Rightarrow> if receives tgt ex b then t else []))"
proof -
  let ?i = "info_ptr p" and ?w = "snd (a_handle (clients s) (info_ptr p) l (abs_srv s))"
  obtain s1 where s1: "handle_event p ev s = Inr s1" "server_ok held s1" "same_rest s s1" "abs_srv s1 = set_in ?i [] ?w"
    using idle_line_ok[OF ok p(1) a l ev] by blast
  have on: "distinct (clients s)" "\<forall>k \<in> set (clients s). k < length (abs_srv s)"
    using ok by (auto simp: server_ok_def online_ok_def)
  obtain c where "infos s ! ?i = Some c" "a = abs_client (mem s) c" "?i < length (infos s)"
    using client_at[OF _ a(1)] on(2) p(2) by auto
  then have nm: "length (a_name a) < 30"
    using ok unfolding server_ok_def infos_ok_def client_ok_def name_text_def CLIENT_NAME_MAXIMUM_SIZE_def abs_client_def
    by (metis aclient.select_convs(2) nth_mem)
  have hl: "length ?w = length (abs_srv s)" using kept_handle[OF on] by blast
  have "healthy s1"
    unfolding healthy_def
  proof (intro conjI allI impI)
    fix f show "no_write_fail (outs s1 f)" using s1(3) calm by (simp add: same_rest_def calm_def)
  next
    fix x assume "Some x \<in> set (abs_srv s1)"
    then obtain k where k: "k < length (abs_srv s)" "abs_srv s1 ! k = Some x"
      by (metis hl in_set_conv_nth s1(4) set_in_length)
    have "?w ! k = Some x \<or> (\<exists>y. ?w ! k = Some y \<and> a_out x = a_out y)"
      using k hl s1(4) by (cases "?i < length ?w \<and> ?i = k") (auto simp: set_in_def a_update_def nth_list_update list_update_beyond not_less)
    then obtain y where y: "?w ! k = Some y" "a_out x = a_out y" by auto
    obtain b where "abs_srv s ! k = Some b" "length (a_out y) \<le> length (a_out b) + 1024"
      using out_handle[OF on a(1) l(1) nm y(1)] by blast
    moreover from this have "length (a_out b) < 2 ^ 63" using calm k(1) by (metis calm_def nth_mem)
    ultimately show "length (a_out x) < 2 ^ 64" using y(2) by simp
  qed
  then obtain s2 where s2: "write_sockets_round raised s1 = Inr (Some s2, s2)" "server_ok held s2"
    "\<forall>j \<in> set (clients s1). \<forall>b. abs_srv s1 ! j = Some b \<longrightarrow> a_pub b \<noteq> FAIL
      \<longrightarrow> sent_by s2 (a_socket b) = sent_by s1 (a_socket b) @ a_out b"
    using write_sends[OF s1(2), of raised] by blast
  have same: "clients s1 = clients s" "sent_by s1 = sent_by s" using s1(3) by (simp_all add: same_rest_def sent_by_def)
  have "sent_by s2 (a_socket b) = sent_by s (a_socket b) @ a_out b @
      (case line_msg (a_name a) l of None \<Rightarrow> [] | Some (tgt, ex, t) \<Rightarrow> if receives tgt ex b then t else [])"
    if j: "j \<in> set (clients s)" "j \<noteq> ?i" "abs_srv s ! j = Some b" "a_pub b \<noteq> FAIL" for j b
  proof -
    have "?i < length ?w" using on(2) p(2) hl by simp
    then have "abs_srv s1 ! j = ?w ! j" unfolding s1(4) using set_in_nth j(2) by simp
    also note handle_at[OF on a(1) j(1-3)]
    finally have "abs_srv s1 ! j = Some (b\<lparr>a_out := a_out b @
      (case line_msg (a_name a) l of None \<Rightarrow> [] | Some (tgt, ex, t) \<Rightarrow> if receives tgt ex b then t else [])\<rparr>)" .
    from s2(3)[unfolded same, rule_format, OF j(1) this] j(4) show ?thesis by simp
  qed
  then show ?thesis using s1(1) s2(1,2) by blast
qed

end
