(* ===== verification/Client.thy ===== *)
theory Client
  imports Delivery
begin

text \<open>
  \<^verbatim>\<open>IMClient.c\<close>: what the client sends when it has connected (its name), how it frames a
  line typed by the user, and its loop over \<^verbatim>\<open>poll\<close>. The outcome of every \<^verbatim>\<open>poll\<close> and of
  every \<^verbatim>\<open>read\<close> is an argument; the socket and the standard output are \<open>out_socket\<close>s.
  The prompts, which \<^verbatim>\<open>printf\<close> buffers on its own, are left out of the output.
\<close>

section \<open>Registration\<close>

text \<open>
  \<open>gap\<close> is the number of bytes behind the block of \<^verbatim>\<open>name_line\<close> that the allocator left
  unused, \<open>has_line\<close> the outcome of its \<^verbatim>\<open>malloc\<close>. The result: whether all of the line
  could be sent; the program ends if not.
\<close>

definition login_cmd_size :: "string \<Rightarrow> size_t" where
  "login_cmd_size nm = add_size (add_size (length nm) (length CMD_LOGIN)) 1"

definition login :: "bool \<Rightarrow> nat \<Rightarrow> string \<Rightarrow> out_socket \<Rightarrow> (bool \<times> out_socket) res" where
  "login has_line gap argv3 sock =
     bindr (c_str argv3) (\<lambda>nm.
       let sz = login_cmd_size nm; text = CMD_LOGIN @ nm @ [LF]
       in if \<not> has_line then Inr (False, sock)
       else bindr (c_sprintf (replicate (sz + gap) NUL) text) (\<lambda>name_line.
         case sys_write (take sz name_line) sock of (send_size, sock1) \<Rightarrow> Inr (send_size = int sz, sock1)))"

section \<open>A line from the standard input\<close>

abbreviation CLIENT_CACHE_SIZE :: nat where
  "CLIENT_CACHE_SIZE \<equiv> 1024"

text \<open>The bytes to write to the socket; \<open>behind\<close> is the memory behind the block of \<^verbatim>\<open>buff\<close>.\<close>

definition frame_input :: "string \<Rightarrow> read_result list \<Rightarrow> string res" where
  "frame_input behind inp =
     (let cmd_len = length CMD_TO_ALL;
          room = CLIENT_CACHE_SIZE - cmd_len - 1
      in case sys_read room inp of (read_size, d, _) \<Rightarrow>
        let start = d @ replicate (room - length d) NUL
        in bindr (c_strstr (start @ behind) (MSG_PREFIX_INDICATOR @ '' '')) (\<lambda>indicator_pos.
           bindr (c_strstr (start @ behind) CMD_TO_C) (\<lambda>to_c_pos.
             if to_c_pos = Some 0
               \<and> (case indicator_pos of None \<Rightarrow> False | Some k \<Rightarrow> k < length CMD_TO_C + CLIENT_NAME_MAXIMUM_SIZE)
             then Inr (take (nat read_size) start)
             else Inr (take (nat (read_size + int cmd_len + 1)) (CMD_TO_ALL @ '' '' @ start)))))"

section \<open>The loop\<close>

record im_client =
  is_online :: bool
  to_server :: out_socket
  to_stdout :: out_socket

definition handle_stdin :: "string \<Rightarrow> read_result list \<Rightarrow> im_client \<Rightarrow> im_client res" where
  "handle_stdin behind inp c =
     bindr (frame_input behind inp) (\<lambda>d. case sys_write d (to_server c) of (write_size, sock) \<Rightarrow>
       Inr (c\<lparr>to_server := sock, is_online := (if - 1 = write_size then False else is_online c)\<rparr>))"

text \<open>\<open>True\<close>: the loop over the two descriptors is left.\<close>

definition handle_socket :: "read_result list \<Rightarrow> im_client \<Rightarrow> bool \<times> im_client" where
  "handle_socket inp c =
     (case sys_read CLIENT_CACHE_SIZE inp of (read_size, d, _) \<Rightarrow>
        if - 1 = read_size then (False, c)
        else if 0 = read_size then (True, c\<lparr>is_online := False\<rparr>)
        else (False, c\<lparr>to_stdout := snd (sys_write d (to_stdout c))\<rparr>))"

record client_pollfd =
  pfd :: int
  prevents :: nat
  pdata :: "read_result list"

definition handle_pollfd :: "string \<Rightarrow> int \<Rightarrow> client_pollfd \<Rightarrow> im_client \<Rightarrow> (bool \<times> im_client) res" where
  "handle_pollfd behind s_socket p c =
     (if 0 = pfd p \<and> odd (prevents p) then bindr (handle_stdin behind (pdata p) c) (\<lambda>c'. Inr (False, c'))
      else if s_socket = pfd p \<and> odd (prevents p) then Inr (handle_socket (pdata p) c)
      else if s_socket = pfd p \<and> prevents p \<noteq> 0 then Inr (True, c\<lparr>is_online := False\<rparr>)
      else Inr (False, c))"

fun handle_pollfds :: "string \<Rightarrow> int \<Rightarrow> client_pollfd list \<Rightarrow> im_client \<Rightarrow> im_client res" where
  "handle_pollfds behind s_socket [] c = Inr c"
| "handle_pollfds behind s_socket (p # ps) c =
     bindr (handle_pollfd behind s_socket p c) (\<lambda>(left, c').
       if left then Inr c' else handle_pollfds behind s_socket ps c')"

text \<open>One element of the list per call of \<^verbatim>\<open>poll\<close> that returned, with what it returned.\<close>

fun client_loop :: "string \<Rightarrow> int \<Rightarrow> (int \<times> client_pollfd list) list \<Rightarrow> im_client \<Rightarrow> im_client res" where
  "client_loop behind s_socket [] c = Inr c"
| "client_loop behind s_socket ((ret, ps) # polls) c =
     (if \<not> is_online c then Inr c
      else if - 1 = ret then Inr c
      else bindr (handle_pollfds behind s_socket ps c) (client_loop behind s_socket polls))"

section \<open>The login line does not fit its block\<close>

lemma login_size: "length nm < 2 ^ 63 \<Longrightarrow> login_cmd_size nm = length (CMD_LOGIN @ nm @ [LF])"
  by (simp add: login_cmd_size_def add_size_small wire)

lemma login_overflows:
  "NUL \<notin> set nm \<Longrightarrow> length nm < 2 ^ 63 \<Longrightarrow> login True 0 (nm @ [NUL]) sock = Inl Out_of_bounds"
  by (simp add: login_def c_str_append Let_def login_size c_sprintf_def del: append.simps)

lemma login_sends:
  assumes "NUL \<notin> set nm" and "length nm < 2 ^ 63" and "0 < gap" and "outcomes sock = []"
  shows "login True gap (nm @ [NUL]) sock = Inr (True, sock\<lparr>sent := sent sock @ CMD_LOGIN @ nm @ [LF]\<rparr>)"
proof -
  let ?t = "CMD_LOGIN @ nm @ [LF]"
  have "c_sprintf (replicate (length ?t + gap) NUL) ?t = Inr (splice_at 0 (?t @ [NUL]) (replicate (length ?t + gap) NUL))"
    using assms(3) by (simp add: c_sprintf_def)
  then obtain b where "c_sprintf (replicate (length ?t + gap) NUL) ?t = Inr (?t @ b)"
    by (simp add: splice_at_def)
  then show ?thesis
    using assms(1,4) by (simp add: login_def c_str_append Let_def login_size[OF assms(2)])
qed

section \<open>Framing\<close>

lemma c_strstr_indicator:
  "CHR '':'' \<notin> set p \<Longrightarrow> NUL \<notin> set p \<Longrightarrow> c_strstr (p @ CHR '':'' # CHR '' '' # t) '': '' = Inr (Some (length p))"
  by (induction p) auto

lemma frame_cases:
  assumes d: "length d \<le> 1016" "d \<noteq> []" and nul: "NUL \<in> set (replicate (1016 - length d) NUL @ behind)"
  obtains ind where "c_strstr (d @ replicate (1016 - length d) NUL @ behind) '': '' = Inr ind"
    "frame_input behind [Read_data d] =
      (if starts CMD_TO_C (d @ replicate (1016 - length d) NUL @ behind) \<and> (\<exists>k < 35. ind = Some k) then Inr d
       else Inr (''TO-ALL: '' @ d))"
proof -
  let ?p = "d @ replicate (1016 - length d) NUL @ behind"
  have p: "NUL \<in> set ?p" using nul by simp
  obtain ind where ind: "c_strstr ?p '': '' = Inr ind" using c_strstr_NUL[OF p, of "'': ''"] by auto
  obtain r where r: "c_strstr ?p CMD_TO_C = Inr r" "r = Some 0 \<longleftrightarrow> starts CMD_TO_C ?p"
    using c_strstr_NUL[OF p, of CMD_TO_C] by (auto simp: wire starts_def)
  have "length ?p \<noteq> 0" using d(2) by simp
  have a: "take (nat (int (length d) + 8)) (''TO-ALL: '' @ d @ replicate (1016 - length d) NUL) = ''TO-ALL: '' @ d"
  proof -
    have "nat (int (length d) + 8) = length (''TO-ALL: '' @ d)" by simp
    moreover have "take (length x) (x @ y) = x" for x y :: string by simp
    from this[of "''TO-ALL: '' @ d"] have "take (length (''TO-ALL: '' @ d)) (''TO-ALL: '' @ d @ replicate (1016 - length d) NUL) = ''TO-ALL: '' @ d"
      unfolding append_assoc .
    ultimately show ?thesis by (simp only:)
  qed
  have "frame_input behind [Read_data d] = (if r = Some 0 \<and> (\<exists>k < 35. ind = Some k) then Inr d else Inr (''TO-ALL: '' @ d))"
    using d(1) ind r(1) a
    by (auto simp: frame_input_def Let_def wire
        CLIENT_NAME_MAXIMUM_SIZE_def add.commute split: option.splits)
  then show ?thesis using that[OF ind] r(2) by simp
qed

text \<open>A typed line without a recipient goes to everybody, one with a recipient is sent as it is.\<close>

lemma starts_append: "length cmd \<le> length l \<Longrightarrow> starts cmd (l @ t) \<longleftrightarrow> starts cmd l"
  by (simp add: starts_def)

lemma starts_line: "LF \<notin> set cmd \<Longrightarrow> starts cmd (l @ LF # t) \<longleftrightarrow> starts cmd l"
proof -
  assume a: "LF \<notin> set cmd"
  show ?thesis
  proof (cases "length cmd \<le> length l")
    case False
    then have "LF \<in> set (take (length cmd) (l @ LF # t))" by (simp add: take_Cons' )
    moreover have "length (take (length cmd) l) < length cmd" using False by simp
    ultimately show ?thesis using a unfolding starts_def by (metis nless_le)
  qed (rule starts_append)
qed

lemma frame_broadcast:
  assumes "line_text l" and "length l < 1015" and "\<not> starts CMD_TO_C l"
  shows "frame_input behind [Read_data (l @ [LF])] = Inr (''TO-ALL: '' @ l @ [LF])"
proof -
  have "length (l @ [LF]) \<le> 1016" "l @ [LF] \<noteq> []" "NUL \<in> set (replicate (1016 - length (l @ [LF])) NUL @ behind)"
    using assms(2) by auto
  then show ?thesis
  proof (rule frame_cases)
    fix ind assume f: "frame_input behind [Read_data (l @ [LF])] =
      (if starts CMD_TO_C ((l @ [LF]) @ replicate (1016 - length (l @ [LF])) NUL @ behind) \<and> (\<exists>k < 35. ind = Some k)
       then Inr (l @ [LF]) else Inr (''TO-ALL: '' @ l @ [LF]))"
    show ?thesis using f assms(3) starts_line[of CMD_TO_C l] by (simp add: wire)
  qed
qed

lemma frame_private:
  assumes l: "l = CMD_TO_C @ tgt @ '': '' @ body" and "line_text l" and "length l < 1015" and "CHR '':'' \<notin> set tgt"
  shows "frame_input behind [Read_data (l @ [LF])]
    = Inr ((if length tgt < CLIENT_NAME_MAXIMUM_SIZE then [] else ''TO-ALL: '') @ l @ [LF])"
proof -
  have "length (l @ [LF]) \<le> 1016" "l @ [LF] \<noteq> []" "NUL \<in> set (replicate (1016 - length (l @ [LF])) NUL @ behind)"
    using assms(3) by auto
  then show ?thesis
  proof (rule frame_cases)
    fix ind assume i: "c_strstr ((l @ [LF]) @ replicate (1016 - length (l @ [LF])) NUL @ behind) '': '' = Inr ind"
      and f: "frame_input behind [Read_data (l @ [LF])] =
      (if starts CMD_TO_C ((l @ [LF]) @ replicate (1016 - length (l @ [LF])) NUL @ behind) \<and> (\<exists>k < 35. ind = Some k)
       then Inr (l @ [LF]) else Inr (''TO-ALL: '' @ l @ [LF]))"
    have "CHR '':'' \<notin> set (CMD_TO_C @ tgt)" "NUL \<notin> set (CMD_TO_C @ tgt)"
      using assms(2,4) by (auto simp: l line_text_def wire)
    from c_strstr_indicator[OF this] have "ind = Some (length (CMD_TO_C @ tgt))" using i by (simp add: l)
    moreover have "starts CMD_TO_C (l @ t)" for t by (simp add: l starts_def)
    ultimately show ?thesis using f by (simp add: wire CLIENT_NAME_MAXIMUM_SIZE_def)
  qed
qed

section \<open>What the server makes of it\<close>

lemma server_reads_broadcast:
  "line_msg me (''TO-ALL: '' @ l) = Some (CMD_TO_ALL, me, p2p_text me l)"
  by (simp add: line_msg_def starts_def wire)

lemma drop_append_length: "drop (length x) (x @ y) = y"
  by simp

lemma server_reads_private:
  assumes "CHR '':'' \<notin> set tgt"
  shows "line_msg me (CMD_TO_C @ tgt @ '': '' @ body) = Some (tgt, me, p2p_text me body)"
proof -
  have "takeWhile (\<lambda>c. c \<noteq> CHR '':'') (tgt @ '': '' @ body) = tgt" using assms by (auto simp: takeWhile_append)
  then have t: "to_c_target (CMD_TO_C @ tgt @ '': '' @ body) = tgt" by (simp add: to_c_target_def wire)
  have len: "length (CMD_TO_C @ tgt @ '': '') = length tgt + 7" by (simp add: wire)
  have "drop (length tgt + 7) ((CMD_TO_C @ tgt @ '': '') @ body) = body"
    unfolding len[symmetric] by (rule drop_append_length)
  then have "drop (length tgt + 7) (CMD_TO_C @ tgt @ '': '' @ body) = body" by (simp only: append_assoc)
  moreover have "\<not> starts CMD_LOGIN (CMD_TO_C @ x)" "\<not> starts CMD_TO_ALL (CMD_TO_C @ x)" "starts CMD_TO_C (CMD_TO_C @ x)" for x
    by (simp_all add: starts_def wire)
  ultimately show ?thesis using t by (simp only: line_msg_def if_True if_False)
qed

lemma server_reads_login:
  "line_msg me (CMD_LOGIN @ nm) = Some (CMD_TO_ALL, take 29 nm, sys_text (take 29 nm @ '' '' @ MSG_LOGIN_SUFFIX))"
  by (simp add: line_msg_def starts_def wire Let_def)

section \<open>The loop\<close>

lemma frame_no_data:
  shows "frame_input behind [] = Inr ''TO-ALL: ''" "frame_input behind [Read_fail] = Inr ''TO-ALL:''"
  by (simp_all add: frame_input_def Let_def wire numeral_eq_Suc)

text \<open>
  At the end of the standard input \<^verbatim>\<open>poll\<close> keeps reporting it readable, and every round
  sends one more empty message, with no end of line, to the server.
\<close>

definition stdin_eof :: "int \<Rightarrow> client_pollfd list" where
  "stdin_eof s_socket = [\<lparr>pfd = 0, prevents = 1, pdata = []\<rparr>, \<lparr>pfd = s_socket, prevents = 0, pdata = []\<rparr>]"

lemma eof_round:
  assumes "s_socket \<noteq> 0" and "is_online c" and "outcomes (to_server c) = []"
  shows "handle_pollfds behind s_socket (stdin_eof s_socket) c
    = Inr (c\<lparr>to_server := (to_server c)\<lparr>sent := sent (to_server c) @ ''TO-ALL: ''\<rparr>\<rparr>)"
  using assms frame_no_data(1)[of behind]
  by (cases c) (simp add: stdin_eof_def handle_pollfd_def handle_stdin_def)

lemma eof_floods:
  assumes "s_socket \<noteq> 0" and "is_online c" and "outcomes (to_server c) = []"
  shows "client_loop behind s_socket (replicate n (1, stdin_eof s_socket)) c
    = Inr (c\<lparr>to_server := (to_server c)\<lparr>sent := sent (to_server c) @ concat (replicate n ''TO-ALL: '')\<rparr>\<rparr>)"
  using assms(2,3)
proof (induction n arbitrary: c)
  case (Suc n)
  then show ?case using eof_round[OF assms(1), of c behind] by simp
qed simp

text \<open>The loop ends for good when the server closes the connection.\<close>

lemma offline_stays: "\<not> is_online c \<Longrightarrow> client_loop behind s_socket polls c = Inr c"
  by (cases polls) auto

lemma server_down:
  assumes "s_socket \<noteq> 0" and "is_online c"
  shows "client_loop behind s_socket ((1, [\<lparr>pfd = 0, prevents = 0, pdata = d0\<rparr>,
      \<lparr>pfd = s_socket, prevents = 1, pdata = []\<rparr>]) # polls) c = Inr (c\<lparr>is_online := False\<rparr>)"
  using assms by (simp add: handle_pollfd_def handle_socket_def offline_stays)

text \<open>Whatever the server sends goes to the standard output, unchanged.\<close>

lemma server_text_shown:
  assumes "d \<noteq> []" and "length d \<le> 1024" and "outcomes (to_stdout c) = []"
  shows "handle_socket [Read_data d] c
    = (False, c\<lparr>to_stdout := (to_stdout c)\<lparr>sent := sent (to_stdout c) @ d\<rparr>\<rparr>)"
  using assms by (simp add: handle_socket_def)

end
