(* ===== verification/Mains.thy ===== *)
theory Mains
  imports Threads Client
begin

text \<open>
  The two \<^verbatim>\<open>main\<close> functions up to the point where the program works: the server to the start
  of its listening thread, the client to its poll loop. The outcomes of \<^verbatim>\<open>socket\<close>, \<^verbatim>\<open>bind\<close>,
  \<^verbatim>\<open>listen\<close>, \<^verbatim>\<open>connect\<close> and \<^verbatim>\<open>pthread_create\<close> are arguments; \<^verbatim>\<open>argv\<close> is a list of texts.
\<close>

section \<open>The server\<close>

text \<open>
  \<open>Exited\<close> carries the exit status; \<open>Serving\<close> the address the socket is bound to and the
  program at the start of its listening thread. When that thread cannot be created the server is
  released and \<^verbatim>\<open>main\<close> returns 0.
\<close>

datatype server_start = Exited int | Serving sockaddr program

record server_outcomes =
  socket_ret :: int
  bind_ret :: int
  listen_ret :: int
  garbage :: int
  mutex_ret :: int
  cond_ret :: int
  spin_rets :: "int \<times> int"
  create_ret :: int

text \<open>What \<^verbatim>\<open>main\<close> does when the listening thread has been joined, or was not created.\<close>

definition server_end :: "server \<Rightarrow> pool res" where
  "server_end s = bindr (release_server_info s) (\<lambda>m. Inr (release_cache_module m))"

definition server_setup ::
  "(nat \<Rightarrow> string \<Rightarrow> nat \<Rightarrow> string option) \<Rightarrow> (nat \<Rightarrow> string \<Rightarrow> string option) \<Rightarrow> string list
    \<Rightarrow> server_outcomes \<Rightarrow> (int \<Rightarrow> out_socket) \<Rightarrow> pool \<Rightarrow> server_start res" where
  "server_setup inet_ntop inet_pton argv os socks m =
     (if length argv < 3 then Inr (Exited 1)
      else bindr (get_addr_info_from_ip_and_port inet_pton (argv ! 1) (argv ! 2) m) (\<lambda>((ret, addr), m1).
        if ret \<noteq> 0 then Inr (Exited (- 1))
        else case addr of None \<Rightarrow> Inl Uninitialised
        | Some (server_addr, ip_size) \<Rightarrow>
            if socket_ret os < 0 then Inr (Exited 1)
            else if bind_ret os < 0 then Inr (Exited 1)
            else if listen_ret os < 0 then Inr (Exited 1)
            else
              let (init, m2) = initialise_cache_module (garbage os) m1
              in if init \<noteq> 0 then Inr (Exited 1)
              else bindr (init_server_info inet_ntop (spin_rets os) (mutex_ret os) (cond_ret os) (socket_ret os) socks m2)
                (\<lambda>(server, m3). case server of
                   None \<Rightarrow> Inr (Exited 1)
                 | Some s \<Rightarrow>
                     if create_ret os \<noteq> 0 then bindr (server_end s) (\<lambda>_. Inr (Exited 0))
                     else Inr (Serving server_addr (launch s)))))"

text \<open>
  With a port, an address and a system that cooperates \<^verbatim>\<open>main\<close> comes to the start of the
  listening thread exactly when the value that \<^verbatim>\<open>initialise_cache_module\<close> does not return
  happens to be 0.
\<close>

definition all_succeed :: "server_outcomes \<Rightarrow> bool" where
  "all_succeed os \<longleftrightarrow> 0 \<le> socket_ret os \<and> 0 \<le> bind_ret os \<and> 0 \<le> listen_ret os \<and> mutex_ret os = 0
     \<and> cond_ret os = 0 \<and> spin_rets os = (0, 0) \<and> create_ret os = 0"

lemma server_setup_ok:
  assumes n: "0 < n" "n < 2 ^ 31" and ip: "ip = ANY_HOST \<or> inet_pton AF_INET ip \<noteq> None"
    and os: "all_succeed os" and m: "held_ok m held" "plenty m" "NUL \<in> set (slack m)"
  shows "\<exists>a s. server_setup ntop inet_pton [prog, ip, decimal n] os socks m
      = Inr (if garbage os = 0 then Serving \<lparr>sa_family = AF_INET, sin_port = n mod 65536, sin_addr = a\<rparr> (launch s) else Exited 1)
    \<and> prog_ok held (launch s) \<and> outs s = socks"
proof -
  obtain a ms where g: "get_addr_info_from_ip_and_port inet_pton ip (decimal n) m
      = Inr ((0, Some (\<lparr>sa_family = AF_INET, sin_port = n mod 65536, sin_addr = a\<rparr>, 16)), m\<lparr>mallocs := ms\<rparr>)" "\<forall>b \<in> set ms. b"
    using get_addr_info_port[where inet_pton = inet_pton and n = n and ip = ip and s = m] n ip m(2) by blast
  let ?m = "m\<lparr>mallocs := ms, spin_lock := False\<rparr>"
  have "m\<lparr>mallocs := ms, spin_lock := False\<rparr> = m\<lparr>mallocs := ms\<rparr>" using m(1) by (cases m) (simp add: held_ok_def pool_ok_def)
  then have h: "held_ok ?m held" "plenty ?m" "NUL \<in> set (slack ?m)" using m g(2) by (simp_all add: held_mallocs plenty_def)
  obtain s m' where s: "init_server_info ntop (0, 0) 0 0 (socket_ret os) socks ?m = Inr (Some s, m')" "server_ok held s"
    "clients s = []" "outs s = socks" "is_running s = 1"
    using init_server_info_ok[OF h] by blast
  have "prog_ok held (launch s)" using launch_ok[OF s(2)] s(3,5) by simp
  then show ?thesis
    using os g(1) s(1,4)
    by (intro exI[of _ a] exI[of _ s]) (simp add: server_setup_def all_succeed_def initialise_cache_module_def)
qed

section \<open>The client\<close>

text \<open>
  \<open>Online\<close> carries the address of the server and what the socket has been sent. \<open>has_fds\<close>
  and \<open>has_buff\<close> are the outcomes of the two calls of \<^verbatim>\<open>malloc\<close> after the registration.
\<close>

datatype client_start = Client_exited int | Online sockaddr out_socket

record client_outcomes =
  csocket_ret :: int
  connect_ret :: int
  has_line :: bool
  has_fds :: bool
  has_buff :: bool

definition client_setup ::
  "(nat \<Rightarrow> string \<Rightarrow> string option) \<Rightarrow> string list \<Rightarrow> nat \<Rightarrow> client_outcomes \<Rightarrow> out_socket \<Rightarrow> 'a sys_scheme
    \<Rightarrow> client_start res" where
  "client_setup inet_pton argv gap os sock s =
     (if length argv < 4 then Inr (Client_exited 1)
      else bindr (get_addr_info_from_ip_and_port inet_pton (argv ! 1) (argv ! 2) s) (\<lambda>((ret, addr), _).
        if ret \<noteq> 0 then Inr (Client_exited (- 1))
        else case addr of None \<Rightarrow> Inl Uninitialised
        | Some (server_addr, ip_size) \<Rightarrow>
            if csocket_ret os < 0 then Inr (Client_exited 1)
            else if connect_ret os < 0 then Inr (Client_exited 0)
            else bindr (login (has_line os) gap (argv ! 3 @ [NUL]) sock) (\<lambda>(sent_all, sock1).
              if \<not> sent_all then Inr (Client_exited 0)
              else if \<not> has_fds os then Inr (Client_exited 0)
              else if \<not> has_buff os then Inr (Client_exited 0)
              else Inr (Online server_addr sock1))))"

lemma client_setup_ok:
  assumes n: "0 < n" "n < 2 ^ 31" and ip: "ip = ANY_HOST \<or> inet_pton AF_INET ip \<noteq> None" and s: "plenty s"
    and os: "0 \<le> csocket_ret os" "0 \<le> connect_ret os" "has_line os" "has_fds os" "has_buff os"
    and nm: "NUL \<notin> set nm" "length nm < 2 ^ 63" and sock: "outcomes sock = []" and gap: "0 < gap"
  shows "\<exists>a. client_setup inet_pton [prog, ip, decimal n, nm] gap os sock s
    = Inr (Online \<lparr>sa_family = AF_INET, sin_port = n mod 65536, sin_addr = a\<rparr> (sock\<lparr>sent := sent sock @ (CMD_LOGIN @ nm) @ [LF]\<rparr>))"
proof -
  obtain a s' where "get_addr_info_from_ip_and_port inet_pton ip (decimal n) s
      = Inr ((0, Some (\<lparr>sa_family = AF_INET, sin_port = n mod 65536, sin_addr = a\<rparr>, 16)), s')"
    using get_addr_info_port[where inet_pton = inet_pton and n = n and ip = ip and s = s] n ip s by blast
  then show ?thesis using login_sends[OF nm gap sock] os by (intro exI[of _ a]) (simp add: client_setup_def)
qed

end
