(* ===== verification/Races.thy ===== *)
theory Races
  imports Steps
begin

text \<open>
  Two schedules in which the writing thread frees the record of a client that the reading thread
  still has in a copy of the list: one that \<open>allowed\<close> leaves out, and one inside the handling of
  an event, which is a single transition of \<open>step\<close>.
\<close>

section \<open>The race of logging and logout\<close>

lemma logout_none: "v ! i = None \<Longrightarrow> i \<notin> set cs \<Longrightarrow> distinct cs \<Longrightarrow> \<forall>k \<in> set cs. k < length v
    \<Longrightarrow> fold a_logout ids (cs, v) = (cs', v') \<Longrightarrow> v' ! i = None \<and> i \<notin> set cs'"
proof (induction ids arbitrary: cs v)
  case (Cons k ids)
  show ?case
  proof (cases "\<exists>b. v ! k = Some b \<and> a_pub b = FAIL")
    case False
    then have "a_logout k (cs, v) = (cs, v)" by (auto simp: a_logout_def split: option.splits)
    then show ?thesis using Cons by simp
  next
    case True
    then obtain b where b: "v ! k = Some b" "a_pub b = FAIL" by blast
    let ?cs = "remove1 k cs"
    let ?w = "a_deliver ?cs CMD_TO_ALL (a_name b) (sys_text (a_name b @ '' '' @ MSG_LOGOUT_SUFFIX)) v"
    have st: "a_logout k (cs, v) = (?cs, ?w[k := None])" using b by (simp add: a_logout_def)
    have d: "distinct ?cs" "\<forall>i \<in> set ?cs. i < length v" "i \<notin> set ?cs"
      using Cons.prems(2-4) notin_set_remove1 by auto
    note w = a_deliver_nth[OF d(1,2), of CMD_TO_ALL "a_name b" "sys_text (a_name b @ '' '' @ MSG_LOGOUT_SUFFIX)"]
    have "?w[k := None] ! i = None" using w Cons.prems(1) d(3) b(1) by (cases "k = i") auto
    moreover have "\<forall>j \<in> set ?cs. j < length (?w[k := None])" using d(2) w by simp
    ultimately show ?thesis using Cons.IH[OF _ d(3,1)] Cons.prems(5) st by simp
  qed
qed simp

lemma logout_gone:
  assumes "distinct cs" and "\<forall>k \<in> set cs. k < length v" and "i < length v" and "v ! i = Some a" and "a_pub a = FAIL"
    and "i \<in> set ids" and "fold a_logout ids (cs, v) = (cs', v')"
  shows "v' ! i = None \<and> i \<notin> set cs'"
proof -
  obtain xs ys where ids: "ids = xs @ i # ys" "i \<notin> set xs" using split_list_first[OF assms(6)] by blast
  obtain cs1 v1 where 1: "fold a_logout xs (cs, v) = (cs1, v1)" by (cases "fold a_logout xs (cs, v)")
  note k = logout_kept[OF assms(1,2,4) disjI2[OF ids(2)] 1]
  have inv: "distinct cs1 \<and> (\<forall>k \<in> set cs1. k < length v1) \<and> length v1 = length v"
    using assms(1,2) 1
  proof (induction xs arbitrary: cs v)
    case (Cons x xs)
    have d: "distinct (remove1 x cs)" "\<forall>k \<in> set (remove1 x cs). k < length v"
      using Cons.prems(1,2) notin_set_remove1 by auto
    obtain c v2 where 2: "a_logout x (cs, v) = (c, v2)" by (cases "a_logout x (cs, v)")
    then have "distinct c \<and> (\<forall>k \<in> set c. k < length v2) \<and> length v2 = length v"
      using Cons.prems(1,2) d a_deliver_nth[OF d] by (auto simp: a_logout_def split: option.splits if_splits)
    then show ?case using Cons.IH[of c v2] Cons.prems(3) 2 by auto
  qed simp
  obtain b where b: "v1 ! i = Some b" "a_pub b = FAIL" using k assms(4,5) unfolding kept_def by metis
  let ?cs = "remove1 i cs1"
  let ?w = "a_deliver ?cs CMD_TO_ALL (a_name b) (sys_text (a_name b @ '' '' @ MSG_LOGOUT_SUFFIX)) v1"
  have st: "a_logout i (cs1, v1) = (?cs, ?w[i := None])" using b by (simp add: a_logout_def)
  have d: "distinct ?cs" "\<forall>k \<in> set ?cs. k < length v1" "i \<notin> set ?cs" using inv notin_set_remove1 by auto
  have "?w[i := None] ! i = None" and "\<forall>j \<in> set ?cs. j < length (?w[i := None])"
    using d(2) a_deliver_nth[OF d(1,2)] inv assms(3) by simp_all
  then show ?thesis using logout_none[OF _ d(3,1)] assms(7) ids(1) 1 st by simp
qed

lemma write_logs_out:
  assumes ok: "server_ok held s" and h: "healthy s" and i: "i \<in> set (clients s)" "abs_srv s ! i = Some a" "a_pub a = FAIL"
  shows "\<exists>s'. write_sockets_round raised s = Inr (Some s', s') \<and> server_ok held s'
    \<and> length (infos s') = length (infos s) \<and> abs_srv s' ! i = None \<and> i \<notin> set (clients s')"
proof -
  obtain v sn where f: "fold a_flush (clients s) (abs_srv s, sent_by s) = (v, sn)"
    by (cases "fold a_flush (clients s) (abs_srv s, sent_by s)")
  have fk: "kept i (abs_srv s) v" "length v = length (abs_srv s)"
    using flush_kept[of i "(abs_srv s, sent_by s)" "clients s"] f by simp_all
  obtain b where b: "v ! i = Some b" "a_pub b = FAIL" using fk(1) i(2,3) unfolding kept_def by metis
  obtain s' where s': "write_sockets_round raised s = Inr (Some s', s')" "server_ok held s'" "length (infos s') = length (infos s)"
    "(clients s', abs_srv s') = fold a_logout (clients s) (clients s, v)"
    using write_sockets_round_ok[OF ok h, of raised] f by auto
  have on: "distinct (clients s)" "\<forall>i \<in> set (clients s). i < length v"
    using ok fk(2) by (auto simp: server_ok_def online_ok_def)
  have "i < length v" using on(2) i(1) by blast
  from logout_gone[OF on this b i(1) s'(4)[symmetric]] s' show ?thesis by blast
qed

lemma debug_block_freed:
  "\<forall>p \<in> set data. info_ptr p < length (infos s) \<Longrightarrow> \<exists>p \<in> set data. infos s ! info_ptr p = None
    \<Longrightarrow> debug_block data s = Inl Use_after_free"
proof (induction data)
  case (Cons p data)
  then show ?case by (cases "infos s ! info_ptr p") (auto simp: deref_def)
qed simp

lemma freed_is_logged:
  assumes y: "sys_ok held y" and r: "reader y = Between" "writer y = Resting" and h: "healthy (srv y)"
    and i: "i \<in> set (clients (srv y))" "abs_srv (srv y) ! i = Some a" "a_pub a = FAIL"
  shows "\<exists>y1 acts y2. step ntop List_clients y y1 \<and> run ntop acts y1 y2 \<and> (\<forall>act \<in> set acts. writing_action act)
    \<and> crash ntop Log_list y2 Use_after_free"
proof -
  obtain data s1 where l: "get_polling_and_client_list (srv y) = Inr (Some data, s1)" "map info_ptr data = clients (srv y)"
    "same_online (srv y) s1" "abs_srv s1 = abs_srv (srv y)" "sys_ok held (y\<lparr>srv := s1, reader := Listed data\<rparr>)"
    using list_step[OF y] by blast
  let ?y1 = "y\<lparr>srv := s1, reader := Listed data\<rparr>"
  have s1: "server_ok held s1" "clients s1 = clients (srv y)"
    using l(3,5) by (simp_all add: sys_ok_def same_online_def)
  have h1: "healthy s1" using h l(3,4) by (simp add: healthy_def same_online_def)
  have i1: "i \<in> set (clients s1)" "abs_srv s1 ! i = Some a" by (simp_all only: s1(2) i l(4))
  obtain s2 where s2: "write_sockets_round 0 s1 = Inr (Some s2, s2)" "length (infos s2) = length (infos s1)"
    "abs_srv s2 ! i = None" using write_logs_out[OF s1(1) h1 i1 i(3)] by blast
  let ?y2 = "?y1\<lparr>srv := s2, writer := Resting\<rparr>"
  have d: "info_ptr ` set data = set (clients s1)" using l(2) s1(2) by (metis set_map)
  have b: "\<forall>j \<in> set (clients s1). j < length (infos s2)" using s1(1) s2(2) by (simp add: server_ok_def online_ok_def)
  have "infos s2 ! i = None" using s2(3) b i1(1) by simp
  moreover obtain p where "p \<in> set data" "info_ptr p = i" using d i1(1) by (metis imageE)
  ultimately have "\<exists>p \<in> set data. infos s2 ! info_ptr p = None" by metis
  moreover have "\<forall>p \<in> set data. info_ptr p < length (infos s2)" using b unfolding d[symmetric] by simp
  ultimately have "debug_block data s2 = Inl Use_after_free" by (intro debug_block_freed)
  then have "crash ntop Log_list ?y2 Use_after_free" by (simp add: crash_simps)
  moreover have "step ntop List_clients y ?y1" by (rule listed[OF r(1) l(1)])
  moreover have "comes_to ntop writing_action ?y1 (Inr ?y2)"
    using write_round_comes[of ?y1 ntop 0] r(2) s2(1) by simp
  ultimately show ?thesis unfolding comes_to_def sum.case by metis
qed

section \<open>The race of delivery and logout\<close>

lemma deliver_loop_append:
  "deliver_loop msg to_all (xs @ ys) n s = bindr (deliver_loop msg to_all xs n s) (\<lambda>(n1, s1). deliver_loop msg to_all ys n1 s1)"
proof (induction xs arbitrary: n s)
  case (Cons x xs)
  then show ?case by (auto simp: bindr_def split: sum.splits)
qed simp

text \<open>
  \<^verbatim>\<open>deliver_msg_to_all_clients\<close> holds the lock only while it copies the list. A client that the
  writing thread logs out before the loop over the copy has come to it is read after it was freed.
\<close>

lemma freed_is_delivered_to:
  assumes ok: "server_ok held s" and i: "i \<in> set (clients s)" "abs_srv s ! i = Some a"
    and m: "target msg = Some tgt" "exclude msg = Some ex"
      "0 < msg_size msg" "msg_size msg \<le> length (content msg)" "msg_size msg < int_max"
  shows "\<exists>arr sz s1 s2. get_client_list s = Inr (Some arr, sz, s1) \<and> user_logout i s1 = Inr s2 \<and> server_ok held s2
    \<and> deliver_loop msg (tgt = CMD_TO_ALL) (take (nat sz) arr) 0 s2 = Inl Use_after_free"
proof -
  obtain s1 where s1: "get_client_list s = Inr (Some (map Some (clients s)), int (length (clients s)), s1)"
    "server_ok held s1" "same_online s s1" "abs_srv s1 = abs_srv s" using get_client_list_ok[OF ok] by blast
  have cl: "clients s1 = clients s" and i1: "i \<in> set (clients s1)" "abs_srv s1 ! i = Some a"
    using s1(3,4) i by (simp_all add: same_online_def)
  obtain s2 where s2: "user_logout i s1 = Inr s2" "server_ok held s2" "clients s2 = remove1 i (clients s)"
    "length (infos s2) = length (infos s1)" "\<exists>v. abs_srv s2 = v[i := None]"
    using user_logout_ok[OF s1(2) i1] cl by (metis (no_types, lifting))
  obtain as bs where ab: "clients s = as @ i # bs" "i \<notin> set as" using split_list_first[OF i(1)] by blast
  have d: "distinct (clients s)" using ok by (simp add: server_ok_def online_ok_def)
  have on2: "set as \<subseteq> set (clients s2)" using s2(3) ab by (simp add: remove1_append)
  have as: "\<forall>k \<in> set as. k < length (infos s2) \<and> infos s2 ! k \<noteq> None" "distinct as"
    using s2(2) on2 d ab(1) by (auto simp: server_ok_def online_ok_def)
  obtain s3 where s3: "deliver_loop msg (tgt = CMD_TO_ALL) (map Some as) 0 s2 = Inr (int (a_count as tgt ex (abs_srv s2)), s3)"
    "same_online s2 s3" "abs_srv s3 = a_deliver as tgt ex (take (msg_size msg) (content msg)) (abs_srv s2)"
    using deliver_loop_ok[OF s2(2) as m, of 0] by auto
  have il: "i < length (infos s2)" using s1(2) i1(1) s2(4) by (simp add: server_ok_def online_ok_def)
  then have il3: "i < length (infos s3)" using s3(2) by (simp add: same_online_def)
  have "abs_srv s2 ! i = None" using s2(5) il by (metis length_list_update nth_list_update_eq abs_infos_simps(4))
  then have "abs_srv s3 ! i = None" using a_deliver_nth[OF as(2)] as(1) ab(2) s3(3) il by simp
  then have "deref i s3 = Inl Use_after_free" using il3 by (simp add: deref_def)
  then have "deliver_loop msg (tgt = CMD_TO_ALL) (map Some (clients s)) 0 s2 = Inl Use_after_free"
    using s3(1) by (simp add: ab(1) deliver_loop_append slot_def)
  then show ?thesis using s1(1) s2(1,2) by (intro exI[of _ "map Some (clients s)"] exI conjI) auto
qed

end
