(* ===== verification/Chat.thy ===== *)
theory Chat
  imports Client
begin

text \<open>
  The program as its users see it: what one of them types appears on the screens of those it is
  meant for. The client that sends, the server and the clients that receive are composed by what
  goes over the sockets.
\<close>

section \<open>What can be typed\<close>

text \<open>A line for everybody, or one for a client with a name that fits.\<close>

definition typed_for :: "string \<Rightarrow> string \<Rightarrow> string \<Rightarrow> bool" where
  "typed_for l tgt body \<longleftrightarrow> line_text l \<and> length l < 500
     \<and> (tgt = CMD_TO_ALL \<and> body = l \<and> \<not> starts CMD_TO_C l
        \<or> l = CMD_TO_C @ tgt @ '': '' @ body \<and> CHR '':'' \<notin> set tgt \<and> length tgt < 30)"

lemma good_broadcast: "line_text l \<Longrightarrow> length l < 504 \<Longrightarrow> good_line (''TO-ALL: '' @ l)"
  by (simp add: good_line_def line_text_def starts_def wire)

lemma good_private:
  assumes "l = CMD_TO_C @ tgt @ '': '' @ body" and "line_text l" and "length l < 512" and "CHR '':'' \<notin> set tgt" and "length tgt < 30"
  shows "good_line l"
proof -
  have "takeWhile (\<lambda>c. c \<noteq> CHR '':'') (tgt @ '': '' @ body) = tgt" using assms(4) by (auto simp: takeWhile_append)
  then have "to_c_target l = tgt" using assms(1) by (simp add: to_c_target_def wire)
  moreover have "\<not> starts CMD_TO_ALL l" using assms(1) by (simp add: starts_def wire)
  ultimately show ?thesis using assms by (simp add: good_line_def wire)
qed

lemma typed_frame:
  assumes "typed_for l tgt body"
  obtains cmd where "frame_input behind [Read_data (l @ [LF])] = Inr (cmd @ [LF])" "good_line cmd" "length cmd < 512"
    "line_msg me cmd = Some (tgt, me, p2p_text me body)" "length body < 500"
proof (cases "tgt = CMD_TO_ALL \<and> body = l \<and> \<not> starts CMD_TO_C l")
  case True
  have l: "line_text l" "length l < 500" using assms by (simp_all add: typed_for_def)
  show ?thesis
    by (rule that[of "''TO-ALL: '' @ l"])
      (use frame_broadcast[of l behind] good_broadcast server_reads_broadcast l True in simp_all)
next
  case False
  then have l: "l = CMD_TO_C @ tgt @ '': '' @ body" "line_text l" "length l < 500" "CHR '':'' \<notin> set tgt" "length tgt < 30"
    using assms by (auto simp: typed_for_def)
  have "length l < 1015" using l(3) by simp
  from frame_private[OF l(1,2) this l(4), of behind] have "frame_input behind [Read_data (l @ [LF])] = Inr (l @ [LF])"
    using l(5) by (simp add: CLIENT_NAME_MAXIMUM_SIZE_def)
  moreover have "line_msg me l = Some (tgt, me, p2p_text me body)" unfolding l(1) by (rule server_reads_private[OF l(4)])
  moreover have "length body < 500" using l(1,3) by simp
  ultimately show ?thesis using that[of l] good_private[OF l(1,2) _ l(4,5)] l(3) by simp
qed

section \<open>From the keyboard to the screens\<close>

lemma online_name:
  assumes ok: "server_ok held s" and i: "i \<in> set (clients s)" "abs_srv s ! i = Some a"
  shows "length (a_name a) < 30"
proof -
  have "i < length (infos s)" using ok i(1) by (simp add: server_ok_def online_ok_def)
  then obtain c where "infos s ! i = Some c" "a = abs_client (mem s) c" "i < length (infos s)" using client_at i(2) by blast
  then show ?thesis
    using ok unfolding server_ok_def infos_ok_def client_ok_def name_text_def CLIENT_NAME_MAXIMUM_SIZE_def abs_client_def
    by (metis aclient.select_convs(2) nth_mem)
qed

text \<open>
  User \<open>me\<close> types the line; \<open>data\<close> is what that client's socket carries to the server. \<open>shown\<close>
  is what the server sends to client \<open>j\<close>, which has nothing else to receive.
\<close>

lemma typed_text_arrives:
  assumes typed: "typed_for l tgt body" and me: "outcomes (to_server me) = []"
    and ok: "server_ok held s" and calm: "calm s" and p: "fresh_entry p s" "info_ptr p \<in> set (clients s)"
    and a: "abs_srv s ! info_ptr p = Some a" "a_in a = []"
    and j: "j \<in> set (clients s)" "j \<noteq> info_ptr p" "abs_srv s ! j = Some b" "a_out b = []" "receives tgt (a_name a) b"
    and you: "outcomes (to_stdout you) = []"
  shows "\<exists>data s1 s2 shown.
      handle_stdin behind [Read_data (l @ [LF])] me = Inr (me\<lparr>to_server := (to_server me)\<lparr>sent := sent (to_server me) @ data\<rparr>\<rparr>)
    \<and> handle_event p \<lparr>revents = 1, byte_available = Some (int (length data)), incoming = [Read_data data]\<rparr> s = Inr s1
    \<and> write_sockets_round raised s1 = Inr (Some s2, s2) \<and> server_ok held s2
    \<and> sent_by s2 (a_socket b) = sent_by s (a_socket b) @ shown
    \<and> handle_socket [Read_data shown] you
        = (False, you\<lparr>to_stdout := (to_stdout you)\<lparr>sent := sent (to_stdout you) @ p2p_text (a_name a) body\<rparr>\<rparr>)"
proof -
  obtain cmd where cmd: "frame_input behind [Read_data (l @ [LF])] = Inr (cmd @ [LF])" "good_line cmd" "length cmd < 512"
    "line_msg (a_name a) cmd = Some (tgt, a_name a, p2p_text (a_name a) body)" "length body < 500"
    by (rule typed_frame[OF typed])
  let ?d = "cmd @ [LF]" and ?t = "p2p_text (a_name a) body"
  let ?ev = "\<lparr>revents = 1, byte_available = Some (int (length ?d)), incoming = [Read_data ?d]\<rparr>"
  have "handle_stdin behind [Read_data (l @ [LF])] me
      = Inr (me\<lparr>to_server := (to_server me)\<lparr>sent := sent (to_server me) @ ?d\<rparr>\<rparr>)"
    using cmd(1) me by (cases me) (simp add: handle_stdin_def)
  moreover have ev: "odd (revents ?ev)" "byte_available ?ev = Some (int (Suc (length cmd)))" "incoming ?ev = [Read_data ?d]"
    by simp_all
  obtain s1 s2 where s: "handle_event p ?ev s = Inr s1" "write_sockets_round raised s1 = Inr (Some s2, s2)" "server_ok held s2"
    "\<forall>j \<in> set (clients s). \<forall>b. j \<noteq> info_ptr p \<longrightarrow> abs_srv s ! j = Some b \<longrightarrow> a_pub b \<noteq> FAIL \<longrightarrow>
        sent_by s2 (a_socket b) = sent_by s (a_socket b) @ a_out b @
          (case line_msg (a_name a) cmd of None \<Rightarrow> [] | Some (tgt, ex, t) \<Rightarrow> if receives tgt ex b then t else [])"
    using line_arrives[OF ok calm p a cmd(2,3) ev, of raised] by (elim exE conjE) (rule that)
  have "a_pub b \<noteq> FAIL" using j(5) by (simp add: receives_def)
  from s(4)[rule_format, OF j(1-3) this] have "sent_by s2 (a_socket b) = sent_by s (a_socket b) @ ?t" using cmd(4) j(4,5) by simp
  moreover have "?t \<noteq> []" "length ?t \<le> 1024" using online_name[OF ok p(2) a(1)] cmd(5) by (simp_all add: p2p_text_def)
  from server_text_shown[OF this you]
  have "handle_socket [Read_data ?t] you = (False, you\<lparr>to_stdout := (to_stdout you)\<lparr>sent := sent (to_stdout you) @ ?t\<rparr>\<rparr>)" .
  ultimately show ?thesis using s(1-3) by (intro exI[of _ ?d] exI[of _ s1] exI[of _ s2] exI[of _ ?t]) simp
qed

section \<open>What the server makes of a frame\<close>

lemma idle_same:
  assumes "distinct ids" and "\<forall>k \<in> set ids. k < length v" and "v ! i = Some a" "a_in a = []" and "i < length v"
  shows "set_in i [] (a_deliver ids tgt ex t v) = a_deliver ids tgt ex t v"
  using a_deliver_in[OF assms(1,2,5), of tgt ex t "[]"] set_in_same[OF assms(3,4)] by simp

lemma handle_said:
  assumes "line_msg (a_name a) l = Some (tgt, a_name a, t)" and "\<not> starts CMD_LOGIN l" and "v ! i = Some a"
  shows "snd (a_handle ids i l v) = a_deliver ids tgt (a_name a) t v"
  using assms by (auto simp: line_msg_def a_handle_def a_say_def Let_def split: if_splits)

text \<open>A frame of at most 512 bytes that arrives at a client with nothing to be read.\<close>

lemma frame_handled:
  assumes ok: "server_ok held s" and p: "fresh_entry p s" and a: "abs_srv s ! info_ptr p = Some a" "a_in a = []"
    and l: "good_line l" "length l < 512"
  obtains s1 where "handle_event p (arrival (l @ [LF])) s = Inr s1" "server_ok held s1"
    "abs_srv s1 = set_in (info_ptr p) [] (snd (a_handle (clients s) (info_ptr p) l (abs_srv s)))"
  using idle_line_ok[OF ok p a l, of "arrival (l @ [LF])"] by (auto simp: arrival_def)

lemma said_handled:
  assumes ok: "server_ok held s" and p: "fresh_entry p s" and a: "abs_srv s ! info_ptr p = Some a" "a_in a = []"
    and l: "good_line l" "length l < 512" and m: "line_msg (a_name a) l = Some (tgt, a_name a, t)" "\<not> starts CMD_LOGIN l"
  shows "\<exists>s1. handle_event p (arrival (l @ [LF])) s = Inr s1 \<and> server_ok held s1
    \<and> abs_srv s1 = a_deliver (clients s) tgt (a_name a) t (abs_srv s)"
proof -
  have on: "distinct (clients s)" "\<forall>k \<in> set (clients s). k < length (abs_srv s)"
    using ok by (auto simp: server_ok_def online_ok_def)
  have "info_ptr p < length (abs_srv s)" using p by (auto simp: fresh_entry_def)
  note same = idle_same[OF on a this]
  obtain s1 where "handle_event p (arrival (l @ [LF])) s = Inr s1" "server_ok held s1"
    "abs_srv s1 = set_in (info_ptr p) [] (snd (a_handle (clients s) (info_ptr p) l (abs_srv s)))"
    by (rule frame_handled[OF ok p a l])
  then show ?thesis using handle_said[OF m a(1)] same by simp
qed

lemma login_handled:
  assumes ok: "server_ok held s" and p: "fresh_entry p s" and a: "abs_srv s ! info_ptr p = Some a" "a_in a = []"
    and nm: "line_text nm" "length nm < 505"
  shows "\<exists>s1. handle_event p (arrival ((CMD_LOGIN @ nm) @ [LF])) s = Inr s1 \<and> server_ok held s1
    \<and> abs_srv s1 = a_deliver (clients s) CMD_TO_ALL (take 29 nm) (sys_text (take 29 nm @ '' '' @ MSG_LOGIN_SUFFIX))
        (a_update (info_ptr p) (\<lambda>a. a\<lparr>a_name := take 29 nm\<rparr>) (abs_srv s))"
proof -
  let ?l = "CMD_LOGIN @ nm" and ?v = "a_update (info_ptr p) (\<lambda>a. a\<lparr>a_name := take 29 nm\<rparr>) (abs_srv s)"
  have i: "info_ptr p < length ?v" using p by (auto simp: fresh_entry_def)
  have on: "distinct (clients s)" "\<forall>k \<in> set (clients s). k < length ?v"
    using ok by (auto simp: server_ok_def online_ok_def)
  have at: "?v ! info_ptr p = Some (a\<lparr>a_name := take 29 nm\<rparr>)" 
    using i a(1) a_update_nth[of "info_ptr p" "abs_srv s" _ "info_ptr p"] by (simp only: a_update_length if_True option.map simp_thms)
  have g: "good_line ?l" "length ?l < 512" using nm by (simp_all add: good_line_def line_text_def starts_def wire)
  obtain s1 where "handle_event p (arrival (?l @ [LF])) s = Inr s1" "server_ok held s1"
    "abs_srv s1 = set_in (info_ptr p) [] (snd (a_handle (clients s) (info_ptr p) ?l (abs_srv s)))"
    by (rule frame_handled[OF ok p a g])
  moreover have "snd (a_handle (clients s) (info_ptr p) ?l (abs_srv s))
      = a_deliver (clients s) CMD_TO_ALL (take 29 nm) (sys_text (take 29 nm @ '' '' @ MSG_LOGIN_SUFFIX)) ?v"
    by (simp add: a_handle_def a_say_def starts_def wire Let_def)
  ultimately show ?thesis using idle_same[OF on at _ i] a(2) by simp
qed

lemma not_login: "\<not> starts CMD_LOGIN (''TO-ALL: '' @ l)" "\<not> starts CMD_LOGIN (CMD_TO_C @ l)"
  by (simp_all add: starts_def wire)

section \<open>Lines that are too long\<close>

text \<open>
  What is in front of all that client \<open>p\<close> sends is never taken out: whatever arrives behind it, in
  whatever pieces, only piles up in the client's reading buffer, and nobody else notices anything.
\<close>

definition never_read :: "nat list \<Rightarrow> pollfd \<Rightarrow> string \<Rightarrow> server \<Rightarrow> bool" where
  "never_read held p d s \<longleftrightarrow> (\<forall>ds. [] \<notin> set ds \<and> length (d @ concat ds) < int_max \<longrightarrow>
     (\<exists>s1 chs. handle_events (map (\<lambda>x. (p, arrival x)) (d # ds)) s = Inr s1 \<and> server_ok held s1 \<and> same_online s s1
        \<and> concat chs = d @ concat ds \<and> abs_srv s1 = set_in (info_ptr p) chs (abs_srv s)))"

lemma deaf_line: "512 \<le> length x \<Longrightarrow> LF \<notin> set x \<Longrightarrow> deaf (x @ [LF])"
  by (auto simp: deaf_def dest: in_set_takeD)

lemma deaf_never_read:
  assumes ok: "server_ok held s" and p: "fresh_entry p s" and a: "abs_srv s ! info_ptr p = Some a" "a_in a = []" and d: "deaf d"
  shows "never_read held p d s"
  unfolding never_read_def
proof (intro allI impI)
  fix ds :: "string list"
  assume ds: "[] \<notin> set ds \<and> length (d @ concat ds) < int_max"
  let ?i = "info_ptr p"
  have 1: "d \<noteq> []" "length (concat (a_in a) @ d) < int_max" "deaf (concat (a_in a) @ d)"
    using d ds a(2) by (auto simp: deaf_def)
  obtain s1 chs where s1: "handle_event p (arrival d) s = Inr s1" "server_ok held s1" "fresh_entry p s1" "same_online s s1"
    "concat chs = d" "abs_srv s1 = set_in ?i chs (abs_srv s)"
    using event_deaf[OF ok p a(1) _ _ _ 1, of "arrival d"] a(2) by (auto simp: arrival_def)
  have i: "?i < length (abs_srv s)" using p by (auto simp: fresh_entry_def)
  have "abs_srv s1 ! ?i = Some (a\<lparr>a_in := chs\<rparr>)" unfolding s1(6) using set_in_nth[OF i, of chs ?i] a(1) by simp
  then obtain s2 chs' where s2: "handle_events (map (\<lambda>x. (p, arrival x)) ds) s1 = Inr s2" "server_ok held s2" "same_online s1 s2"
    "concat chs' = d @ concat ds" "abs_srv s2 = set_in ?i chs' (abs_srv s1)"
    using arrivals_deaf[OF s1(2,3), of "a\<lparr>a_in := chs\<rparr>" ds] d ds s1(5) by auto
  have "abs_srv s2 = set_in ?i chs' (abs_srv s)" using s2(5) s1(6) set_in_set_in by simp
  then show "\<exists>s1 chs. handle_events (map (\<lambda>x. (p, arrival x)) (d # ds)) s = Inr s1 \<and> server_ok held s1 \<and> same_online s s1
      \<and> concat chs = d @ concat ds \<and> abs_srv s1 = set_in ?i chs (abs_srv s)"
    using s1(1) s2 same_online_trans[OF s1(4)] by (intro exI[of _ s2] exI[of _ chs']) simp
qed

end
