(* ===== verification/ListH.thy ===== *)
theory ListH
  imports Prelude
begin

text \<open>
  \<^verbatim>\<open>include/collections/list.h\<close>: the circular doubly linked list every other component
  keeps its data in. A heap maps the address of a \<^verbatim>\<open>struct list_head\<close> to its two
  pointers, and every operation performs the assignments of the source in their order. A
  list is a head and the addresses of its entries: \<open>dlist h l xs\<close> says that following
  \<^verbatim>\<open>next\<close> from \<open>l\<close> visits \<open>xs\<close> and returns, and that \<^verbatim>\<open>prev\<close> is its inverse.
  The locale \<open>list_contract\<close> is what the clients of the header rely on; it is interpreted
  on the pointer operations, which justifies that the other theories model a
  \<^verbatim>\<open>ListHead\<close> by the HOL list of its entries.
\<close>

section \<open>Links and heaps\<close>

type_synonym addr = nat

record list_head =
  nxt :: addr
  prv :: addr

type_synonym heap = "addr \<Rightarrow> list_head"

definition LIST_POISON1 :: addr where
  "LIST_POISON1 = 0x00100100"

definition LIST_POISON2 :: addr where
  "LIST_POISON2 = 0x00200200"

definition set_next :: "addr \<Rightarrow> addr \<Rightarrow> heap \<Rightarrow> heap" where
  "set_next p v h = h(p := (h p)\<lparr>nxt := v\<rparr>)"

definition set_prev :: "addr \<Rightarrow> addr \<Rightarrow> heap \<Rightarrow> heap" where
  "set_prev p v h = h(p := (h p)\<lparr>prv := v\<rparr>)"

text \<open>The address of the struct around a link; for a bare head it is the address of nothing.\<close>

definition container_of :: "addr \<Rightarrow> nat \<Rightarrow> int" where
  "container_of ptr offset = int ptr - int offset"

definition INIT_LIST_HEAD :: "addr \<Rightarrow> heap \<Rightarrow> heap" where
  "INIT_LIST_HEAD p h = set_prev p p (set_next p p h)"

section \<open>Operations\<close>

definition list_add_between :: "addr \<Rightarrow> addr \<Rightarrow> addr \<Rightarrow> heap \<Rightarrow> heap" where
  "list_add_between new prev next h =
     (let h1 = set_prev next new h;
          h2 = set_next new next h1;
          h3 = set_prev new prev h2
      in set_next prev new h3)"

definition list_add :: "addr \<Rightarrow> addr \<Rightarrow> heap \<Rightarrow> heap" where
  "list_add new head h = list_add_between new head (nxt (h head)) h"

definition list_add_tail :: "addr \<Rightarrow> addr \<Rightarrow> heap \<Rightarrow> heap" where
  "list_add_tail new head h = list_add_between new (prv (h head)) head h"

definition list_del_between :: "addr \<Rightarrow> addr \<Rightarrow> heap \<Rightarrow> heap" where
  "list_del_between prev next h = set_next prev next (set_prev next prev h)"

definition list_del :: "addr \<Rightarrow> heap \<Rightarrow> heap" where
  "list_del entry h =
     (let h1 = list_del_between (prv (h entry)) (nxt (h entry)) h
      in set_prev entry LIST_POISON2 (set_next entry LIST_POISON1 h1))"

definition list_del_init :: "addr \<Rightarrow> heap \<Rightarrow> heap" where
  "list_del_init entry h =
     INIT_LIST_HEAD entry (list_del_between (prv (h entry)) (nxt (h entry)) h)"

definition list_move :: "addr \<Rightarrow> addr \<Rightarrow> heap \<Rightarrow> heap" where
  "list_move entry head h =
     list_add entry head (list_del_between (prv (h entry)) (nxt (h entry)) h)"

definition list_move_tail :: "addr \<Rightarrow> addr \<Rightarrow> heap \<Rightarrow> heap" where
  "list_move_tail entry head h =
     list_add_tail entry head (list_del_between (prv (h entry)) (nxt (h entry)) h)"

definition list_empty :: "addr \<Rightarrow> heap \<Rightarrow> bool" where
  "list_empty head h \<longleftrightarrow> nxt (h head) = head"

definition list_splice_nonempty :: "addr \<Rightarrow> addr \<Rightarrow> heap \<Rightarrow> heap" where
  "list_splice_nonempty list head h =
     (let first = nxt (h list);
          last = prv (h list);
          at = nxt (h head);
          h1 = set_prev first head h;
          h2 = set_next head first h1;
          h3 = set_next last at h2
      in set_prev at last h3)"

definition list_splice :: "addr \<Rightarrow> addr \<Rightarrow> heap \<Rightarrow> heap" where
  "list_splice list head h =
     (if list_empty list h then h else list_splice_nonempty list head h)"

definition list_splice_init :: "addr \<Rightarrow> addr \<Rightarrow> heap \<Rightarrow> heap" where
  "list_splice_init list head h =
     (if list_empty list h then h
      else INIT_LIST_HEAD list (list_splice_nonempty list head h))"

definition list_first_entry :: "addr \<Rightarrow> heap \<Rightarrow> addr" where
  "list_first_entry head h = nxt (h head)"

definition list_first_entry_or_null :: "addr \<Rightarrow> heap \<Rightarrow> addr option" where
  "list_first_entry_or_null head h = (if list_empty head h then None else Some (nxt (h head)))"

definition list_last_entry :: "addr \<Rightarrow> heap \<Rightarrow> addr" where
  "list_last_entry head h = prv (h head)"

text \<open>
  The iterators visit positions until they are back at the head. A corrupted list may never
  lead back, so the addresses visited are an \<open>option\<close>: \<open>None\<close> is a loop that does not end.
\<close>

partial_function (option) walk_next :: "heap \<Rightarrow> addr \<Rightarrow> addr \<Rightarrow> addr list option" where
  "walk_next h pos head =
     (if pos = head then Some []
      else Option.bind (walk_next h (nxt (h pos)) head) (\<lambda>ps. Some (pos # ps)))"

partial_function (option) walk_prev :: "heap \<Rightarrow> addr \<Rightarrow> addr \<Rightarrow> addr list option" where
  "walk_prev h pos head =
     (if pos = head then Some []
      else Option.bind (walk_prev h (prv (h pos)) head) (\<lambda>ps. Some (pos # ps)))"

definition list_for_each :: "addr \<Rightarrow> heap \<Rightarrow> addr list option" where
  "list_for_each head h = walk_next h (nxt (h head)) head"

definition list_for_each_prev :: "addr \<Rightarrow> heap \<Rightarrow> addr list option" where
  "list_for_each_prev head h = walk_prev h (prv (h head)) head"

text \<open>The shape of \<^verbatim>\<open>while (!list_empty(head)) list_del(last)\<close>, with the entries in removal order.\<close>

partial_function (option) drain_last :: "addr \<Rightarrow> heap \<Rightarrow> (addr list \<times> heap) option" where
  "drain_last head h =
     (if list_empty head h then Some ([], h)
      else let e = list_last_entry head h
           in Option.bind (drain_last head (list_del e h)) (\<lambda>r. Some (e # fst r, snd r)))"

section \<open>The list a head represents\<close>

fun links :: "heap \<Rightarrow> addr list \<Rightarrow> bool" where
  "links h (p # q # ps) \<longleftrightarrow> nxt (h p) = q \<and> prv (h q) = p \<and> links h (q # ps)"
| "links h ps \<longleftrightarrow> True"

definition dlist :: "heap \<Rightarrow> addr \<Rightarrow> addr list \<Rightarrow> bool" where
  "dlist h l xs \<longleftrightarrow> distinct (l # xs) \<and> links h (l # xs @ [l])"

lemma links_append: "links h (xs @ y # ys) \<longleftrightarrow> links h (xs @ [y]) \<and> links h (y # ys)"
proof (induction xs)
  case (Cons x xs)
  then show ?case by (cases xs) auto
qed simp

lemma links_snoc:
  "ps \<noteq> [] \<Longrightarrow> links h (ps @ [x]) \<longleftrightarrow> links h ps \<and> nxt (h (last ps)) = x \<and> prv (h x) = last ps"
  using links_append[of h "butlast ps" "last ps" "[x]"] by (cases ps rule: rev_cases) auto

lemma links_cong:
  assumes "\<And>p. p \<in> set (butlast ps) \<Longrightarrow> nxt (h' p) = nxt (h p)"
    and "\<And>p. p \<in> set (tl ps) \<Longrightarrow> prv (h' p) = prv (h p)"
  shows "links h' ps = links h ps"
  using assms
proof (induction ps rule: links.induct[of _ h])
  case (1 h p q ps)
  have "links h' (q # ps) = links h (q # ps)"
  proof (rule "1.IH")
    fix r assume "r \<in> set (butlast (q # ps))"
    then show "nxt (h' r) = nxt (h r)" using "1.prems"(1) by simp
  next
    fix r assume "r \<in> set (tl (q # ps))"
    then show "prv (h' r) = prv (h r)" using "1.prems"(2) by simp
  qed
  moreover have "nxt (h' p) = nxt (h p)" using "1.prems"(1) by simp
  moreover have "prv (h' q) = prv (h q)" using "1.prems"(2) by simp
  ultimately show ?case by simp
qed simp_all

lemma heap_sel [simp]:
  "nxt (set_next p v h q) = (if q = p then v else nxt (h q))"
  "prv (set_next p v h q) = prv (h q)"
  "nxt (set_prev p v h q) = nxt (h q)"
  "prv (set_prev p v h q) = (if q = p then v else prv (h q))"
  by (simp_all add: set_next_def set_prev_def)

lemma dlist_sel:
  assumes "dlist h l xs"
  shows "nxt (h l) = hd (xs @ [l])" and "prv (h l) = last (l # xs)"
proof -
  show "nxt (h l) = hd (xs @ [l])" using assms by (cases xs) (auto simp: dlist_def)
  show "prv (h l) = last (l # xs)"
    using assms links_snoc[of "l # xs" h l] by (simp add: dlist_def)
qed

text \<open>The links next to one entry of the ring \<open>l # xs\<close>.\<close>

lemma dlist_split_next:
  assumes "dlist h l xs" and "l # xs = as @ a # bs"
  shows "nxt (h a) = hd (bs @ [l])" and "prv (h (hd (bs @ [l]))) = a"
    and "links h (as @ [a])" and "links h (bs @ [l])"
proof -
  have e: "l # xs @ [l] = as @ a # bs @ [l]" using assms(2) by (metis append_Cons append_assoc)
  then have lk: "links h (as @ [a])" "links h (a # bs @ [l])"
    using assms(1) links_append[of h as a "bs @ [l]"] unfolding dlist_def e by blast+
  show "links h (as @ [a])" by (rule lk)
  show "nxt (h a) = hd (bs @ [l])" "prv (h (hd (bs @ [l]))) = a" "links h (bs @ [l])"
    using lk(2) by (cases bs; auto)+
qed

lemma ring_not_in:
  assumes "distinct (l # xs)" and "l # xs = as @ a # bs"
  shows "a \<notin> set as" and "a \<notin> set bs" and "hd (bs @ [l]) \<notin> set (tl (as @ [a]))"
    and "hd (bs @ [l]) \<notin> set (tl (bs @ [l]))" and "a \<notin> set (butlast (bs @ [l]))"
proof -
  have d: "distinct (as @ a # bs)" using assms by metis
  show "a \<notin> set as" "a \<notin> set bs" using d by auto
  show "hd (bs @ [l]) \<notin> set (tl (as @ [a]))"
  proof (cases bs)
    case Nil
    then show ?thesis using assms by (cases as) auto
  next
    case (Cons b cs)
    then show ?thesis using d by (cases as) auto
  qed
  show "hd (bs @ [l]) \<notin> set (tl (bs @ [l]))"
  proof (cases bs)
    case (Cons b cs)
    then have "b \<noteq> l" using assms d by (cases as) auto
    then show ?thesis using Cons d by auto
  qed simp
  show "a \<notin> set (butlast (bs @ [l]))" using d by simp
qed

section \<open>Insertion\<close>

lemma list_add_between_sel:
  assumes "n \<noteq> a" and "n \<noteq> b"
  shows "nxt (list_add_between n a b h p) = (if p = a then n else if p = n then b else nxt (h p))"
    and "prv (list_add_between n a b h p) = (if p = n then a else if p = b then n else prv (h p))"
  using assms by (simp_all add: list_add_between_def)

lemma ring_tl: "l # xs = as @ a # bs \<Longrightarrow> l # tl (as @ a # cs) = as @ a # cs"
  by (cases as) auto

text \<open>Only the link from \<open>a\<close> to its successor changes: both halves of the ring stay linked.\<close>

lemma links_halves:
  assumes dis: "distinct (l # xs)" and r: "l # xs = as @ a # bs"
    and nx: "\<And>p. p \<in> set (l # xs) \<Longrightarrow> p \<noteq> a \<Longrightarrow> nxt (h' p) = nxt (h p)"
    and pv: "\<And>p. p \<in> set (l # xs) \<Longrightarrow> p \<noteq> hd (bs @ [l]) \<Longrightarrow> prv (h' p) = prv (h p)"
  shows "links h' (as @ [a]) = links h (as @ [a])" and "links h' (bs @ [l]) = links h (bs @ [l])"
proof -
  note rn = ring_not_in[OF dis r]
  have sub: "set (as @ [a]) \<subseteq> set (l # xs)" "set (bs @ [l]) \<subseteq> set (l # xs)"
    unfolding r using r by (auto, metis in_set_conv_decomp list.set_intros(1) set_ConsD Un_iff set_append)
  show "links h' (as @ [a]) = links h (as @ [a])"
  proof (rule links_cong)
    fix p assume "p \<in> set (butlast (as @ [a]))"
    then show "nxt (h' p) = nxt (h p)" using nx sub(1) rn(1) by auto
  next
    fix p assume p: "p \<in> set (tl (as @ [a]))"
    show "prv (h' p) = prv (h p)"
      by (rule pv) (use p in_set_tl[OF p] sub(1) rn(3) in \<open>metis subsetD\<close>)+
  qed
  show "links h' (bs @ [l]) = links h (bs @ [l])"
  proof (rule links_cong)
    fix p assume "p \<in> set (butlast (bs @ [l]))"
    then show "nxt (h' p) = nxt (h p)" using nx sub(2) rn(2) by auto
  next
    fix p assume p: "p \<in> set (tl (bs @ [l]))"
    show "prv (h' p) = prv (h p)"
      by (rule pv) (use p in_set_tl[OF p] sub(2) rn(4) in \<open>metis subsetD\<close>)+
  qed
qed

text \<open>Linking a segment \<open>ys\<close> in between \<open>a\<close> and its successor \<open>b\<close>.\<close>

lemma dlist_insert_segment:
  assumes d: "dlist h l xs" and r: "l # xs = as @ a # bs"
    and ys: "ys \<noteq> []" "distinct ys" "links h' ys" "set ys \<inter> set (l # xs) = {}"
    and joints: "nxt (h' a) = hd ys" "prv (h' (hd ys)) = a"
      "nxt (h' (last ys)) = hd (bs @ [l])" "prv (h' (hd (bs @ [l]))) = last ys"
    and nx: "\<And>p. p \<in> set (l # xs) \<Longrightarrow> p \<noteq> a \<Longrightarrow> nxt (h' p) = nxt (h p)"
    and pv: "\<And>p. p \<in> set (l # xs) \<Longrightarrow> p \<noteq> hd (bs @ [l]) \<Longrightarrow> prv (h' p) = prv (h p)"
  shows "dlist h' l (tl (as @ a # ys @ bs))"
proof -
  have dis: "distinct (l # xs)" using d by (simp add: dlist_def)
  have halves: "links h' (as @ [a])" "links h' (bs @ [l])"
    using links_halves[OF dis r nx pv] dlist_split_next(3,4)[OF d r] by auto
  obtain y zs where y: "ys = y # zs" using ys(1) by (cases ys) auto
  have bl: "butlast ys @ [last ys] = ys" using ys(1) by simp
  then have "links h' (butlast ys @ [last ys])" "butlast ys @ last ys # bs @ [l] = ys @ bs @ [l]"
    using ys(3) by (simp, metis append.assoc append_Cons append_Nil)
  moreover have "links h' (last ys # bs @ [l])" using halves(2) joints(3,4) by (cases bs) auto
  ultimately have "links h' (ys @ bs @ [l])"
    using links_append[of h' "butlast ys" "last ys" "bs @ [l]"] by metis
  then have "links h' (a # ys @ bs @ [l])" using joints(1,2) y by simp
  then have "links h' (as @ a # ys @ bs @ [l])" using links_append[of h' as a "ys @ bs @ [l]"] halves(1) by simp
  moreover have "l # tl (as @ a # ys @ bs) = as @ a # ys @ bs" by (rule ring_tl[OF r])
  moreover have "distinct (as @ a # ys @ bs)" using dis ys unfolding r by auto
  ultimately show ?thesis unfolding dlist_def by (metis append_Cons append_assoc)
qed

lemma ring_successor:
  assumes "l # xs = as @ a # bs"
  shows "hd (bs @ [l]) \<in> set (l # xs)"
proof (cases bs)
  case (Cons b cs)
  with assms have "set (l # xs) = set (as @ a # b # cs)" using Cons by metis
  then show ?thesis using Cons by auto
next
  case Nil
  then show ?thesis by simp
qed

lemma dlist_add_between:
  assumes d: "dlist h l xs" and r: "l # xs = as @ a # bs" and n: "n \<notin> set (l # xs)"
  shows "dlist (list_add_between n a (hd (bs @ [l])) h) l (tl (as @ a # n # bs))"
proof -
  have "a \<in> set (l # xs)" unfolding r by simp
  then have ne: "n \<noteq> a" "n \<noteq> hd (bs @ [l])" using n ring_successor[OF r] by metis+
  note sel = list_add_between_sel[OF ne]
  have "dlist (list_add_between n a (hd (bs @ [l])) h) l (tl (as @ a # [n] @ bs))"
    by (rule dlist_insert_segment[OF d r]) (use n ne in \<open>auto simp: sel\<close>)
  then show ?thesis by simp
qed

lemma dlist_list_add_at:
  assumes d: "dlist h l xs" and r: "l # xs = as @ a # bs" and n: "n \<notin> set (l # xs)"
  shows "dlist (list_add n a h) l (tl (as @ a # n # bs))"
  using dlist_add_between[OF d r n] dlist_split_next(1)[OF d r] by (simp add: list_add_def)

lemma dlist_list_add:
  assumes "dlist h l xs" and "n \<notin> set (l # xs)"
  shows "dlist (list_add n l h) l (n # xs)"
  using dlist_list_add_at[of h l xs "[]" l xs n] assms by simp

lemma dlist_list_add_tail:
  assumes d: "dlist h l xs" and n: "n \<notin> set (l # xs)"
  shows "dlist (list_add_tail n l h) l (xs @ [n])"
proof -
  have "l # xs = butlast (l # xs) @ last (l # xs) # []" by simp
  moreover have "tl (butlast (l # xs) @ [last (l # xs), n]) = xs @ [n]"
    by (cases xs rule: rev_cases) auto
  ultimately show ?thesis
    using dlist_add_between[OF d _ n] dlist_sel(2)[OF d]
    by (metis append_Nil list.sel(1) list_add_tail_def)
qed

text \<open>An operation on one list does not touch another one.\<close>

lemma dlist_frame:
  assumes "dlist h l xs" and "\<And>p. p \<in> set (l # xs) \<Longrightarrow> h' p = h p"
  shows "dlist h' l xs"
proof -
  have "links h' (l # xs @ [l]) = links h (l # xs @ [l])"
    by (rule links_cong) (use assms(2) in \<open>auto dest: in_set_butlastD\<close>)
  then show ?thesis using assms(1) by (simp add: dlist_def)
qed

lemma heap_frame [simp]:
  "q \<noteq> p \<Longrightarrow> set_next p v h q = h q" "q \<noteq> p \<Longrightarrow> set_prev p v h q = h q"
  by (simp_all add: set_next_def set_prev_def)

lemma list_add_between_frame: "p \<notin> {n, a, b} \<Longrightarrow> list_add_between n a b h p = h p"
  by (simp add: list_add_between_def)

section \<open>Deletion and moving\<close>

lemma list_del_between_sel:
  "nxt (list_del_between p n h q) = (if q = p then n else nxt (h q))"
  "prv (list_del_between p n h q) = (if q = n then p else prv (h q))"
  by (simp_all add: list_del_between_def)

text \<open>Bridging over the entry \<open>e\<close>, whatever happens to \<open>e\<close> itself afterwards.\<close>

lemma dlist_bridge:
  assumes d: "dlist h l xs" and x: "xs = as @ e # bs"
    and nx: "\<And>q. q \<noteq> e \<Longrightarrow> nxt (h' q) = (if q = prv (h e) then nxt (h e) else nxt (h q))"
    and pv: "\<And>q. q \<noteq> e \<Longrightarrow> prv (h' q) = (if q = nxt (h e) then prv (h e) else prv (h q))"
  shows "dlist h' l (as @ bs)"
proof -
  let ?a = "last (l # as)" and ?as = "butlast (l # as)" and ?b = "hd (bs @ [l])"
  have r: "l # xs = (l # as) @ e # bs" using x by simp
  have la: "l # as = ?as @ [?a]" by simp
  have r2: "l # xs = ?as @ ?a # e # bs" using r la by (metis append_Cons append_Nil append_assoc)
  have dis: "distinct (l # xs)" using d by (simp add: dlist_def)
  have ne: "nxt (h e) = ?b" and lb: "links h (bs @ [l])" and "prv (h e) = ?a"
    using dlist_split_next[OF d r] dlist_split_next(2)[OF d r2] by auto
  note nx = nx[unfolded ne \<open>prv (h e) = ?a\<close>] and pv = pv[unfolded ne \<open>prv (h e) = ?a\<close>]
  have e: "e \<notin> set (l # as)" "e \<notin> set bs" using dis x by auto
  have la2: "links h (?as @ [?a])" using dlist_split_next(3)[OF d r2] .
  note r1 = ring_not_in[OF dis r2] and r3 = ring_not_in[OF dis r]
  have "links h' (?as @ [?a]) = links h (?as @ [?a])"
  proof (rule links_cong)
    fix p assume p: "p \<in> set (butlast (?as @ [?a]))"
    then have "p \<in> set (l # as)" using la by (metis in_set_butlastD)
    with p show "nxt (h' p) = nxt (h p)" using r1(1) e(1) by (subst nx) auto
  next
    fix p assume p: "p \<in> set (tl (?as @ [?a]))"
    then have "p \<in> set as" using la by (metis list.sel(3))
    moreover have "p \<noteq> ?b" using dis x \<open>p \<in> set as\<close> by (cases bs) auto
    ultimately show "prv (h' p) = prv (h p)" using e(1) by (subst pv) auto
  qed
  moreover have "links h' (bs @ [l]) = links h (bs @ [l])"
  proof (rule links_cong)
    fix p assume p: "p \<in> set (butlast (bs @ [l]))"
    then have "p \<in> set bs" by simp
    moreover have "p \<noteq> ?a" using \<open>p \<in> set bs\<close> r1(2) by auto
    ultimately show "nxt (h' p) = nxt (h p)" using e(2) by (subst nx) auto
  next
    fix p assume p: "p \<in> set (tl (bs @ [l]))"
    then have "p \<noteq> ?b" using r3(4) by metis
    moreover have "p \<noteq> e" using in_set_tl[OF p] e by auto
    ultimately show "prv (h' p) = prv (h p)" by (subst pv) auto
  qed
  moreover have "?a \<noteq> e" using e(1) last_in_set[of "l # as"] by (metis list.distinct(1))
  then have "nxt (h' ?a) = ?b" by (simp add: nx)
  moreover have "?b \<noteq> e" using e by (cases bs) auto
  then have "prv (h' ?b) = ?a" by (simp add: pv)
  ultimately have "links h' (?as @ [?a])" "links h' (?a # bs @ [l])"
    using la2 lb by (simp_all, cases bs, auto)
  then have "links h' (?as @ ?a # bs @ [l])" using links_append[of h' ?as ?a] by blast
  then have "links h' ((l # as) @ bs @ [l])" by (subst la) simp
  then show ?thesis using dis x by (simp add: dlist_def)
qed

lemma dlist_list_del:
  assumes "dlist h l (as @ e # bs)"
  shows "dlist (list_del e h) l (as @ bs)"
  by (rule dlist_bridge[OF assms refl]) (auto simp: list_del_def list_del_between_sel)

lemma dlist_list_del_init:
  assumes "dlist h l (as @ e # bs)"
  shows "dlist (list_del_init e h) l (as @ bs)" and "dlist (list_del_init e h) e []"
proof -
  show "dlist (list_del_init e h) l (as @ bs)"
    by (rule dlist_bridge[OF assms refl])
      (auto simp: list_del_init_def INIT_LIST_HEAD_def list_del_between_sel)
  show "dlist (list_del_init e h) e []"
    by (simp add: dlist_def list_del_init_def INIT_LIST_HEAD_def)
qed

lemma dlist_unlinked:
  assumes "dlist h l (as @ e # bs)"
  shows "dlist (list_del_between (prv (h e)) (nxt (h e)) h) l (as @ bs)"
  by (rule dlist_bridge[OF assms refl]) (auto simp: list_del_between_sel)

lemma INIT_LIST_HEAD_dlist: "dlist (INIT_LIST_HEAD l h) l []"
  by (simp add: dlist_def INIT_LIST_HEAD_def)

lemma list_empty_iff: "dlist h l xs \<Longrightarrow> list_empty l h \<longleftrightarrow> xs = []"
  by (cases xs) (auto simp: list_empty_def dlist_def)


lemma list_del_frame: "q \<notin> {e, prv (h e), nxt (h e)} \<Longrightarrow> list_del e h q = h q"
  by (simp add: list_del_def list_del_between_def)

text \<open>The neighbours of an entry are in its own ring.\<close>

lemma dlist_neighbours:
  assumes "dlist h l xs" and "e \<in> set (l # xs)"
  shows "prv (h e) \<in> set (l # xs)" and "nxt (h e) \<in> set (l # xs)"
proof -
  obtain as bs where r: "l # xs = as @ e # bs" using assms(2) by (metis split_list)
  have "nxt (h e) = hd (bs @ [l])" using dlist_split_next(1)[OF assms(1) r] .
  then have "nxt (h e) \<in> set bs \<union> {l}" by (cases bs) auto
  moreover have "set bs \<subseteq> set (l # xs)" unfolding r by auto
  ultimately show "nxt (h e) \<in> set (l # xs)" by auto
  show "prv (h e) \<in> set (l # xs)"
  proof (cases as rule: rev_cases)
    case Nil
    then have "prv (h e) = last (l # xs)" using dlist_sel(2)[OF assms(1)] r by simp
    then show ?thesis by (metis last_in_set list.distinct(1))
  next
    case (snoc cs c)
    then have "l # xs = cs @ c # e # bs" using r by simp
    from dlist_split_next(2)[OF assms(1) this] have "prv (h e) = c" by simp
    then show ?thesis unfolding r snoc by simp
  qed
qed

lemma unlink_other:
  assumes "dlist h l xs" and "e \<in> set (l # xs)" and "dlist h k ys"
    and "set (l # xs) \<inter> set (k # ys) = {}"
  shows "dlist (list_del_between (prv (h e)) (nxt (h e)) h) k ys"
proof (rule dlist_frame[OF assms(3)])
  fix p assume "p \<in> set (k # ys)"
  then have "p \<noteq> prv (h e)" "p \<noteq> nxt (h e)" using dlist_neighbours[OF assms(1,2)] assms(4) by blast+
  then show "list_del_between (prv (h e)) (nxt (h e)) h p = h p" by (simp add: list_del_between_def)
qed

lemma link_other:
  assumes "dlist h k ys" and "a \<in> set (k # ys)" and "b \<in> set (k # ys)" and "dlist h l xs"
    and "n \<notin> set (l # xs)" and "set (l # xs) \<inter> set (k # ys) = {}"
  shows "dlist (list_add_between n a b h) l xs"
proof (rule dlist_frame[OF assms(4)])
  fix p assume "p \<in> set (l # xs)"
  then have "p \<noteq> n" "p \<noteq> a" "p \<noteq> b" using assms by blast+
  then show "list_add_between n a b h p = h p" by (simp add: list_add_between_def)
qed

lemma dlist_list_move:
  assumes d: "dlist h l (as @ e # bs)" and d2: "dlist h k ys"
    and dj: "set (l # as @ e # bs) \<inter> set (k # ys) = {}"
  shows "dlist (list_move e k h) k (e # ys)" and "dlist (list_move e k h) l (as @ bs)"
proof -
  let ?h = "list_del_between (prv (h e)) (nxt (h e)) h"
  have l': "dlist ?h l (as @ bs)" by (rule dlist_unlinked[OF d])
  have k': "dlist ?h k ys" by (rule unlink_other[OF d _ d2 dj]) simp
  then show "dlist (list_move e k h) k (e # ys)"
    unfolding list_move_def by (rule dlist_list_add) (use dj in auto)
  show "dlist (list_move e k h) l (as @ bs)"
    unfolding list_move_def list_add_def
    by (rule link_other[OF k' _ dlist_neighbours(2)[OF k'] l']) (use d dj in \<open>auto simp: dlist_def\<close>)
qed

lemma dlist_list_move_tail:
  assumes d: "dlist h l (as @ e # bs)" and d2: "dlist h k ys"
    and dj: "set (l # as @ e # bs) \<inter> set (k # ys) = {}"
  shows "dlist (list_move_tail e k h) k (ys @ [e])" and "dlist (list_move_tail e k h) l (as @ bs)"
proof -
  let ?h = "list_del_between (prv (h e)) (nxt (h e)) h"
  have l': "dlist ?h l (as @ bs)" by (rule dlist_unlinked[OF d])
  have k': "dlist ?h k ys" by (rule unlink_other[OF d _ d2 dj]) simp
  then show "dlist (list_move_tail e k h) k (ys @ [e])"
    unfolding list_move_tail_def by (rule dlist_list_add_tail) (use dj in auto)
  show "dlist (list_move_tail e k h) l (as @ bs)"
    unfolding list_move_tail_def list_add_tail_def
    by (rule link_other[OF k' dlist_neighbours(1)[OF k'] _ l']) (use d dj in \<open>auto simp: dlist_def\<close>)
qed

section \<open>Splicing\<close>

text \<open>
  Splicing the list at \<open>k\<close> in behind the position \<open>a\<close> of the list at \<open>l\<close>: its entries
  come between \<open>a\<close> and what followed it.
\<close>

lemma list_splice_sel:
  assumes "\<not> list_empty k h"
  shows "nxt (list_splice k a h p) =
      (if p = prv (h k) then nxt (h a) else if p = a then nxt (h k) else nxt (h p))"
    and "prv (list_splice k a h p) =
      (if p = nxt (h a) then prv (h k) else if p = nxt (h k) then a else prv (h p))"
  using assms by (simp_all add: list_splice_def list_splice_nonempty_def Let_def)

lemma links_inner: "links h (k # ys @ [k]) \<Longrightarrow> links h ys"
  using links_snoc[of "k # ys" h k] by (cases ys) auto

lemma dlist_list_splice_at:
  assumes d: "dlist h l xs" and r: "l # xs = as @ a # bs" and k: "dlist h k ys"
    and dj: "set (l # xs) \<inter> set (k # ys) = {}"
  shows "dlist (list_splice k a h) l (tl (as @ a # ys @ bs))"
proof (cases "ys = []")
  case True
  have "tl (as @ a # bs) = xs" using r by (metis list.sel(3))
  then show ?thesis using d True list_empty_iff[OF k] by (simp add: list_splice_def)
next
  case False
  let ?b = "hd (bs @ [l])" and ?h = "list_splice k a h"
  have k_ne: "\<not> list_empty k h" and disy: "distinct ys"
    using False list_empty_iff[OF k] k by (auto simp: dlist_def)
  have ends: "nxt (h k) = hd ys" "prv (h k) = last ys" "nxt (h a) = ?b"
    using dlist_sel[OF k] False dlist_split_next(1)[OF d r] by auto
  have sel: "nxt (?h p) = (if p = last ys then ?b else if p = a then hd ys else nxt (h p))"
      "prv (?h p) = (if p = ?b then last ys else if p = hd ys then a else prv (h p))" for p
    by (simp_all only: list_splice_sel[OF k_ne] ends)
  have a: "a \<in> set (l # xs)" unfolding r by simp
  have ysd: "p \<in> set ys \<Longrightarrow> p \<notin> set (l # xs)" for p using dj by auto
  have hl: "hd ys \<notin> set (l # xs)" "last ys \<notin> set (l # xs)" using ysd False by auto
  then have ne: "hd ys \<noteq> a" "hd ys \<noteq> ?b" "a \<noteq> last ys" "last ys \<noteq> ?b"
    using a ring_successor[OF r] by metis+
  have "links ?h ys = links h ys"
  proof (rule links_cong)
    fix p assume p: "p \<in> set (butlast ys)"
    then have "p \<noteq> last ys" using last_notin_butlast[OF disy False] by metis
    moreover have "p \<noteq> a" using ysd[OF in_set_butlastD[OF p]] a by metis
    ultimately show "nxt (?h p) = nxt (h p)" by (simp add: sel)
  next
    fix p assume p: "p \<in> set (tl ys)"
    then have "p \<noteq> hd ys" using disy False by (cases ys) auto
    moreover have "p \<noteq> ?b" using ysd[OF in_set_tl[OF p]] ring_successor[OF r] by metis
    ultimately show "prv (?h p) = prv (h p)" by (simp add: sel)
  qed
  then have "links ?h ys" using links_inner k by (auto simp: dlist_def)
  then show ?thesis
  proof (rule dlist_insert_segment[OF d r False disy])
    show "set ys \<inter> set (l # xs) = {}" using dj by auto
    show "nxt (?h p) = nxt (h p)" if "p \<in> set (l # xs)" "p \<noteq> a" for p
    proof -
      have "p \<noteq> last ys" using that(1) hl(2) by metis
      then show ?thesis using that(2) by (simp only: sel if_False)
    qed
    show "prv (?h p) = prv (h p)" if "p \<in> set (l # xs)" "p \<noteq> ?b" for p
    proof -
      have "p \<noteq> hd ys" using that(1) hl(1) by metis
      then show ?thesis using that(2) by (simp only: sel if_False)
    qed
    show "nxt (?h a) = hd ys" using ne(3) by (simp only: sel if_False if_True refl)
    show "prv (?h (hd ys)) = a" using ne(2) by (simp only: sel if_False if_True refl)
    show "nxt (?h (last ys)) = ?b" by (simp only: sel if_True refl)
    show "prv (?h ?b) = last ys" by (simp only: sel if_True refl)
  qed
qed


lemma dlist_list_splice_head:
  assumes "dlist h l xs" and "dlist h k ys" and "set (l # xs) \<inter> set (k # ys) = {}"
  shows "dlist (list_splice k l h) l (ys @ xs)"
  using dlist_list_splice_at[OF assms(1) _ assms(2,3), of "[]" l xs] by simp

text \<open>The merge of \<^verbatim>\<open>buffer.c\<close>: \<^verbatim>\<open>list_splice(&tmp_list, cache_list.prev)\<close> appends.\<close>

lemma dlist_list_splice_tail:
  assumes "dlist h l xs" and "dlist h k ys" and "set (l # xs) \<inter> set (k # ys) = {}"
  shows "dlist (list_splice k (prv (h l)) h) l (xs @ ys)"
proof -
  have "l # xs = butlast (l # xs) @ last (l # xs) # []" by simp
  moreover have "tl (butlast (l # xs) @ last (l # xs) # ys @ []) = xs @ ys"
    by (cases xs rule: rev_cases) auto
  ultimately show ?thesis
    using dlist_list_splice_at[OF assms(1) _ assms(2,3)] dlist_sel(2)[OF assms(1)] by metis
qed

lemma dlist_list_splice_init:
  assumes "dlist h l xs" and "dlist h k ys" and "set (l # xs) \<inter> set (k # ys) = {}"
  shows "dlist (list_splice_init k l h) l (ys @ xs)" and "dlist (list_splice_init k l h) k []"
proof -
  have s: "dlist (list_splice k l h) l (ys @ xs)" by (rule dlist_list_splice_head[OF assms])
  have k: "k \<notin> set (l # ys @ xs)" using assms by (auto simp: dlist_def)
  have eq: "list_splice_init k l h = (if list_empty k h then h else INIT_LIST_HEAD k (list_splice k l h))"
    by (simp add: list_splice_init_def list_splice_def)
  show "dlist (list_splice_init k l h) k []"
    using assms(2) list_empty_iff[OF assms(2)] by (cases "ys = []") (simp_all add: eq INIT_LIST_HEAD_dlist)
  have "dlist (INIT_LIST_HEAD k (list_splice k l h)) l (ys @ xs)"
  proof (rule dlist_frame[OF s])
    fix p assume "p \<in> set (l # ys @ xs)"
    then have "p \<noteq> k" using k by metis
    then show "INIT_LIST_HEAD k (list_splice k l h) p = list_splice k l h p"
      by (simp add: INIT_LIST_HEAD_def)
  qed
  then show "dlist (list_splice_init k l h) l (ys @ xs)"
    using s by (cases "list_empty k h") (simp_all add: eq list_splice_def)
qed

section \<open>Iteration\<close>

lemma walk_next_links:
  "links h (xs @ [l]) \<Longrightarrow> l \<notin> set xs \<Longrightarrow> walk_next h (hd (xs @ [l])) l = Some xs"
proof (induction xs)
  case Nil
  then show ?case by (simp add: walk_next.simps)
next
  case (Cons x xs)
  then have "links h (xs @ [l])" "nxt (h x) = hd (xs @ [l])" by (cases xs; auto)+
  with Cons show ?case by (simp add: walk_next.simps[of h x])
qed

lemma walk_prev_links:
  "links h (l # xs) \<Longrightarrow> l \<notin> set xs \<Longrightarrow> walk_prev h (last (l # xs)) l = Some (rev xs)"
proof (induction xs rule: rev_induct)
  case Nil
  then show ?case by (simp add: walk_prev.simps)
next
  case (snoc x xs)
  have "links h (l # xs)" "prv (h x) = last (l # xs)"
    using snoc.prems(1) links_snoc[of "l # xs" h x] by auto
  then show ?case using snoc by (simp add: walk_prev.simps[of h x])
qed

lemma list_for_each_dlist:
  assumes "dlist h l xs"
  shows "list_for_each l h = Some xs"
proof -
  have "links h (xs @ [l])" "l \<notin> set xs" using assms by (cases xs; auto simp: dlist_def)+
  then show ?thesis unfolding list_for_each_def dlist_sel(1)[OF assms] by (rule walk_next_links)
qed

lemma list_for_each_prev_dlist:
  assumes "dlist h l xs"
  shows "list_for_each_prev l h = Some (rev xs)"
proof -
  have "links h (l # xs)" using assms links_snoc[of "l # xs" h l] by (simp add: dlist_def)
  moreover have "l \<notin> set xs" using assms by (simp add: dlist_def)
  ultimately show ?thesis
    unfolding list_for_each_prev_def dlist_sel(2)[OF assms] by (rule walk_prev_links)
qed

lemma list_last_entry_dlist: "dlist h l (xs @ [x]) \<Longrightarrow> list_last_entry l h = x"
  using dlist_sel(2) by (fastforce simp: list_last_entry_def)

lemma list_first_entry_dlist:
  "dlist h l xs \<Longrightarrow> list_first_entry_or_null l h = (case xs of [] \<Rightarrow> None | x # _ \<Rightarrow> Some x)"
  using dlist_sel(1)[of h l xs] list_empty_iff[of h l xs]
  by (cases xs) (auto simp: list_first_entry_or_null_def)

lemma drain_last_dlist:
  "dlist h l xs \<Longrightarrow> \<exists>h'. drain_last l h = Some (rev xs, h') \<and> dlist h' l []"
proof (induction xs arbitrary: h rule: rev_induct)
  case Nil
  then show ?case using list_empty_iff by (subst drain_last.simps) auto
next
  case (snoc x xs)
  then have "dlist (list_del x h) l xs" using dlist_list_del[of h l xs x "[]"] by simp
  from snoc.IH[OF this] obtain h' where "drain_last l (list_del x h) = Some (rev xs, h')" "dlist h' l []"
    by auto
  moreover have "\<not> list_empty l h" using list_empty_iff[OF snoc.prems] by simp
  ultimately show ?case
    using list_last_entry_dlist[OF snoc.prems] by (subst drain_last.simps) simp
qed


section \<open>The contract of the header\<close>

text \<open>
  What the clients of \<^verbatim>\<open>list.h\<close> rely on: \<open>rep h l xs\<close> is the list a head stands for,
  and the operations are queue and stack operations on it that leave other lists alone.
\<close>

locale list_contract =
  fixes rep :: "'h \<Rightarrow> 'p \<Rightarrow> 'p list \<Rightarrow> bool"
    and init :: "'p \<Rightarrow> 'h \<Rightarrow> 'h"
    and add_tail :: "'p \<Rightarrow> 'p \<Rightarrow> 'h \<Rightarrow> 'h"
    and del :: "'p \<Rightarrow> 'h \<Rightarrow> 'h"
    and is_empty :: "'p \<Rightarrow> 'h \<Rightarrow> bool"
    and first :: "'p \<Rightarrow> 'h \<Rightarrow> 'p option"
    and append_list :: "'p \<Rightarrow> 'p \<Rightarrow> 'h \<Rightarrow> 'h"
  assumes init: "rep (init l h) l []"
    and init_other: "rep h k ys \<Longrightarrow> l \<notin> set (k # ys) \<Longrightarrow> rep (init l h) k ys"
    and add_tail: "rep h l xs \<Longrightarrow> n \<notin> set (l # xs) \<Longrightarrow> rep (add_tail n l h) l (xs @ [n])"
    and add_tail_other: "rep h l xs \<Longrightarrow> rep h k ys \<Longrightarrow> set (l # xs) \<inter> set (k # ys) = {}
      \<Longrightarrow> n \<notin> set (k # ys) \<Longrightarrow> rep (add_tail n l h) k ys"
    and del: "rep h l (as @ e # bs) \<Longrightarrow> rep (del e h) l (as @ bs)"
    and is_empty: "rep h l xs \<Longrightarrow> is_empty l h = (xs = [])"
    and first: "rep h l xs \<Longrightarrow> first l h = (case xs of [] \<Rightarrow> None | x # _ \<Rightarrow> Some x)"
    and append_list: "rep h l xs \<Longrightarrow> rep h k ys \<Longrightarrow> set (l # xs) \<inter> set (k # ys) = {}
      \<Longrightarrow> rep (append_list k l h) l (xs @ ys)"
begin

text \<open>Entries appended one by one come in the order they were appended.\<close>

lemma add_tail_fold:
  "rep h l xs \<Longrightarrow> distinct ns \<Longrightarrow> set ns \<inter> set (l # xs) = {}
    \<Longrightarrow> rep (fold (\<lambda>n. add_tail n l) ns h) l (xs @ ns)"
proof (induction ns arbitrary: h xs)
  case (Cons n ns)
  then have "rep (add_tail n l h) l (xs @ [n])" by (intro add_tail) auto
  then have "rep (fold (\<lambda>n. add_tail n l) ns (add_tail n l h)) l ((xs @ [n]) @ ns)"
    by (rule Cons.IH) (use Cons.prems in auto)
  then show ?case by simp
qed simp

lemma add_tail_fold_other:
  "rep h l xs \<Longrightarrow> rep h k ys \<Longrightarrow> distinct ns \<Longrightarrow> set ns \<inter> set (l # xs) = {}
    \<Longrightarrow> set (l # xs @ ns) \<inter> set (k # ys) = {} \<Longrightarrow> rep (fold (\<lambda>n. add_tail n l) ns h) k ys"
proof (induction ns arbitrary: h xs)
  case (Cons n ns)
  have "rep (add_tail n l h) l (xs @ [n])" by (rule add_tail[OF Cons.prems(1)]) (use Cons.prems in auto)
  moreover have "rep (add_tail n l h) k ys"
    by (rule add_tail_other[OF Cons.prems(1,2)]) (use Cons.prems in auto)
  ultimately have "rep (fold (\<lambda>n. add_tail n l) ns (add_tail n l h)) k ys"
    by (rule Cons.IH) (use Cons.prems in auto)
  then show ?case by simp
qed simp

text \<open>
  The pattern of the buffer module: entries are collected in a temporary list, which is
  then appended to the list proper in one operation.
\<close>

lemma collect_then_append:
  assumes l: "rep h l xs" and ns: "distinct ns" "set ns \<inter> set (l # xs) = {}"
    and t: "t \<notin> set (l # xs)" "t \<notin> set ns"
  shows "rep (append_list t l (fold (\<lambda>n. add_tail n t) ns (init t h))) l (xs @ ns)"
proof -
  let ?h = "fold (\<lambda>n. add_tail n t) ns (init t h)"
  have "rep (init t h) l xs" by (rule init_other[OF l t(1)])
  then have "rep ?h l xs"
    by (rule add_tail_fold_other[OF init]) (use ns t in auto)
  moreover have "rep ?h t ([] @ ns)" by (rule add_tail_fold[OF init]) (use ns t in auto)
  ultimately show ?thesis by (intro append_list) (use ns t in auto)
qed

text \<open>First in, first out: after appending to an empty list, the first entry is the oldest.\<close>

lemma queue_order:
  "rep h l [] \<Longrightarrow> distinct (n # ns) \<Longrightarrow> l \<notin> set (n # ns)
    \<Longrightarrow> first l (fold (\<lambda>n. add_tail n l) (n # ns) h) = Some n"
  using first[OF add_tail_fold[of h l "[]" "n # ns"]] by simp

lemma del_first: "rep h l (x # xs) \<Longrightarrow> rep (del x h) l xs"
  using del[of h l "[]" x xs] by simp

end

lemma INIT_LIST_HEAD_other: "dlist h k ys \<Longrightarrow> l \<notin> set (k # ys) \<Longrightarrow> dlist (INIT_LIST_HEAD l h) k ys"
proof (rule dlist_frame)
  fix p assume "l \<notin> set (k # ys)" "p \<in> set (k # ys)"
  then have "p \<noteq> l" by metis
  then show "INIT_LIST_HEAD l h p = h p" by (simp add: INIT_LIST_HEAD_def)
qed

lemma list_add_tail_other:
  assumes "dlist h l xs" and "dlist h k ys" and "set (l # xs) \<inter> set (k # ys) = {}"
    and "n \<notin> set (k # ys)"
  shows "dlist (list_add_tail n l h) k ys"
  unfolding list_add_tail_def
  by (rule link_other[OF assms(1) _ _ assms(2,4)])
    (use assms(3) dlist_neighbours(1)[OF assms(1), of l] in auto)

interpretation lh: list_contract dlist INIT_LIST_HEAD list_add_tail list_del list_empty
    list_first_entry_or_null "\<lambda>k l h. list_splice k (prv (h l)) h"
  by unfold_locales
    (simp_all add: INIT_LIST_HEAD_dlist INIT_LIST_HEAD_other dlist_list_add_tail
      list_add_tail_other dlist_list_del list_empty_iff list_first_entry_dlist
      dlist_list_splice_tail)

end
