(* ===== verification/Samples.thy ===== *)
theory Samples
  imports Mains Races Chat ListH
begin

text \<open>Concrete states on which the witnesses apply the properties.\<close>

section \<open>A pool and a buffer\<close>

text \<open>A pool with two blocks of 512 bytes, held by a buffer of five bytes and by somebody else.\<close>

definition sample_pool :: pool where
  "sample_pool = \<lparr>mallocs = [], slack = [NUL], stale = Some, available_cache_node = [], all_node = [0, 1],
     store = [\<lparr>allocated_size = 512, cache_size = 512, buff = ''hello'' @ replicate 507 NUL\<rparr>, blank 512 512],
     spin_lock = False, past_table = (\<lambda>_. 0)\<rparr>"

definition sample_buffer :: buffer where
  "sample_buffer = [\<lparr>w_offset = 5, r_offset = 0, node_cache = 0\<rparr>]"

lemma sample_ok: "buffer_ok sample_pool [1] sample_buffer" "plenty sample_pool"
  "contents sample_pool sample_buffer = ''hello''"
  by (simp_all add: buffer_ok_def held_ok_def pool_ok_def pool_parts_def free_ids_def benign_free_def cache_wf_def
      blank_def class_sizes_def specified_cache_size_def nodes_ok_def node_ok_def sample_pool_def sample_buffer_def
      plenty_def node_data_def NODE_SIZE_def)

section \<open>A message\<close>

definition hi_to_bob :: msg where
  "hi_to_bob = \<lparr>target = Some ''Bob'', exclude = Some ''Ann'', msg_size = 2, content = ''hi''\<rparr>"

section \<open>A server\<close>

definition idle_pool :: pool where
  "idle_pool = \<lparr>mallocs = [], slack = [NUL], stale = Some, available_cache_node = [], all_node = [], store = [],
     spin_lock = False, past_table = (\<lambda>_. 0)\<rparr>"

lemma idle_pool_ok: "held_ok idle_pool []" "plenty idle_pool" "NUL \<in> set (slack idle_pool)"
  by (simp_all add: idle_pool_def held_ok_def pool_ok_def pool_parts_def free_ids_def benign_free_def plenty_def)

definition sample_client :: "int \<Rightarrow> string \<Rightarrow> size_t \<Rightarrow> buffer \<Rightarrow> client" where
  "sample_client sock nm p rb = \<lparr>socket_id = sock, peer_ip = None, peer_port = 0, name = nm, client_type = C_TYPE_C,
     pub = p, reading_buffer = rb, writing_buffer = [], writing_lock = False, last_check_cmd_index = 0\<rparr>"

text \<open>The listening socket, Ann and Bob, and Cid, who is gone already.\<close>

definition sample_with :: "pool \<Rightarrow> buffer \<Rightarrow> server" where
  "sample_with m rb = \<lparr>mem = m,
     infos = [Some (sample_client 3 ''IMServer'' 0 []), Some (sample_client 4 ''Ann'' 0 rb),
       Some (sample_client 5 ''Bob'' 0 []), Some (sample_client 6 ''Cid'' FAIL [])],
     clients = [1, 2, 3], client_count = 3, server_lock = False, is_running = 1, server_info = 0,
     sign_to_flush_msg = 0, outs = (\<lambda>_. \<lparr>outcomes = [], sent = []\<rparr>), closed = []\<rparr>"

definition idle_server :: server where
  "idle_server = sample_with idle_pool []"

lemma client_ok_sample: "length nm < 30 \<Longrightarrow> line_text nm \<Longrightarrow> client_ok (sample_client sock nm p rb)"
  by (simp add: client_ok_def sample_client_def name_text_def line_text_def CLIENT_NAME_MAXIMUM_SIZE_def)

lemma client_ok_all: "\<forall>c. Some c \<in> set (infos (sample_with m rb)) \<longrightarrow> client_ok c"
  by (auto simp: sample_with_def line_text_def intro!: client_ok_sample)

lemma online_ok_sample: "online_ok (sample_with m rb)"
  by (simp add: online_ok_def sample_with_def sockets_def sample_client_def)

lemma live_sample: "live (infos (sample_with m rb)) = [[], [], rb, [], [], [], [], []]"
  by (simp add: sample_with_def sample_client_def)

definition sample_abs :: "string list \<Rightarrow> aclient option list" where
  "sample_abs chs = [Some \<lparr>a_socket = 3, a_name = ''IMServer'', a_pub = 0, a_in = [], a_out = []\<rparr>,
     Some \<lparr>a_socket = 4, a_name = ''Ann'', a_pub = 0, a_in = chs, a_out = []\<rparr>,
     Some \<lparr>a_socket = 5, a_name = ''Bob'', a_pub = 0, a_in = [], a_out = []\<rparr>,
     Some \<lparr>a_socket = 6, a_name = ''Cid'', a_pub = FAIL, a_in = [], a_out = []\<rparr>]"

lemma abs_sample: "abs_srv (sample_with m rb) = sample_abs (chunks m rb)"
  by (simp add: sample_with_def sample_client_def abs_client_def chunks_def sample_abs_def)

lemma idle_server_ok: "server_ok [] idle_server"
  unfolding server_ok_def infos_ok_def idle_server_def
  using client_ok_all[of idle_pool "[]"] online_ok_sample[of idle_pool "[]"] idle_pool_ok live_sample[of idle_pool "[]"]
  by (simp add: buffers_ok_def blocks_def nodes_ok_def sample_with_def[of idle_pool "[]"])

lemma idle_abs: "abs_srv idle_server = sample_abs []"
  unfolding idle_server_def abs_sample by (simp add: chunks_def)

lemma sample_out: "Some a \<in> set (sample_abs chs) \<Longrightarrow> a_out a = []"
  by (auto simp: sample_abs_def)

lemma idle_calm: "calm idle_server" and idle_healthy: "healthy idle_server"
  using sample_out[of _ "[]"] unfolding calm_def healthy_def idle_abs
  by (auto simp: idle_server_def sample_with_def no_write_fail_def)

lemma idle_system_ok: "sys_ok [] (start idle_server)"
  using idle_server_ok by (simp add: sys_ok_def start_def reader_ok_def writer_ok_def)

definition ann_entry :: pollfd where
  "ann_entry = \<lparr>fd = 4, info_ptr = 1\<rparr>"

lemma ann_fresh: "fresh_entry ann_entry idle_server"
  by (simp add: fresh_entry_def ann_entry_def idle_server_def sample_with_def sample_client_def)

lemma ann_idle:
  "abs_srv idle_server ! info_ptr ann_entry = Some \<lparr>a_socket = 4, a_name = ''Ann'', a_pub = 0, a_in = [], a_out = []\<rparr>"
  "a_in \<lparr>a_socket = 4, a_name = ''Ann'', a_pub = 0, a_in = [], a_out = []\<rparr> = []"
  unfolding idle_abs by (simp_all add: ann_entry_def sample_abs_def)

text \<open>A server on which a line of Ann's has arrived and has not been handled.\<close>

definition busy_pool :: pool where
  "busy_pool = idle_pool\<lparr>all_node := [0],
     store := [\<lparr>allocated_size = 512, cache_size = 512, buff = ''TO-ALL: hi'' @ [LF] @ replicate 501 NUL\<rparr>]\<rparr>"

definition busy_server :: server where
  "busy_server = sample_with busy_pool [\<lparr>w_offset = 11, r_offset = 0, node_cache = 0\<rparr>]"

lemma busy_server_ok: "server_ok [] busy_server"
proof -
  have "held_ok busy_pool [0]" "plenty busy_pool" "NUL \<in> set (slack busy_pool)"
    by (simp_all add: busy_pool_def idle_pool_def held_ok_def pool_ok_def pool_parts_def free_ids_def benign_free_def
        plenty_def cache_wf_def class_sizes_def specified_cache_size_def)
  moreover have "nodes_ok busy_pool [\<lparr>w_offset = 11, r_offset = 0, node_cache = 0\<rparr>]"
    by (simp add: nodes_ok_def node_ok_def busy_pool_def)
  ultimately show ?thesis
    unfolding server_ok_def infos_ok_def busy_server_def
    using client_ok_all[of busy_pool] online_ok_sample[of busy_pool] live_sample[of busy_pool]
    by (simp add: buffers_ok_def blocks_def sample_with_def[of busy_pool]) (simp add: nodes_ok_def)
qed

lemma busy_abs: "abs_srv busy_server = sample_abs [''TO-ALL: hi'' @ [LF]]"
  unfolding busy_server_def abs_sample by (simp add: chunks_def node_data_def NODE_SIZE_def busy_pool_def)

lemma busy_lines: "drain_lines [''TO-ALL: hi'' @ [LF]] = ([''TO-ALL: hi''], [])"
  by (rule drain_one) (simp add: line_text_def)

lemma good_hi: "good_line ''TO-ALL: hi''"
  by (simp add: good_line_def line_text_def starts_def wire)

section \<open>A program\<close>

text \<open>The same server before anybody connects.\<close>

definition empty_server :: server where
  "empty_server = idle_server\<lparr>clients := [], client_count := 0\<rparr>"

lemma empty_server_ok: "server_ok [] empty_server" "is_running empty_server \<noteq> 0" "clients empty_server = []"
proof -
  have "online_ok empty_server" by (simp add: empty_server_def idle_server_def sample_with_def online_ok_def sockets_def)
  then show "server_ok [] empty_server"
    using idle_server_ok by (simp add: server_ok_def empty_server_def)
qed (simp_all add: empty_server_def idle_server_def sample_with_def)

text \<open>A call of \<^verbatim>\<open>pthread_create\<close> that succeeds, and one that fails with \<^verbatim>\<open>EAGAIN\<close>.\<close>

definition started :: creation where
  "started = \<lparr>errcode = 0, overwritten = False\<rparr>"

definition refused :: "bool \<Rightarrow> creation" where
  "refused b = \<lparr>errcode = 11, overwritten = b\<rparr>"

text \<open>The first client connects.\<close>

lemma first_client:
  obtains y where "serves ntop (launch empty_server) 1 (after_accept for_reading for_writing y (launch empty_server))"
    "alive ntop (Listen Peer_error (0, 0) 7 for_reading for_writing) (launch empty_server)
      (after_accept for_reading for_writing y (launch empty_server))"
    "length (clients (srv y)) = 1" "client_count (srv y) \<noteq> client_count empty_server" "reader y = Between" "healthy (srv y)"
proof -
  obtain s where s: "handle_listen_round ntop Peer_error (0, 0) 7 empty_server = Inr s" "server_ok [] s"
    "clients s = clients empty_server @ [length (infos empty_server)]"
    "abs_srv s = abs_srv empty_server @ [Some \<lparr>a_socket = 7, a_name = UNKNOWN_CLIENT, a_pub = 0, a_in = [], a_out = []\<rparr>]"
    "outs s = outs empty_server"
    using handle_listen_round_ok[OF empty_server_ok(1), of 7 ntop Peer_error] by (auto simp: empty_server_ok(3) sockets_def)
  let ?p = "launch empty_server"
  let ?y = "(core ?p)\<lparr>srv := s\<rparr>"
  have "step ntop (Accept Peer_error (0, 0) 7) (core ?p) ?y"
    by (rule accept) (simp add: launch_def start_def s(1))
  then have l: "alive ntop (Listen Peer_error (0, 0) 7 for_reading for_writing) ?p (after_accept for_reading for_writing ?y ?p)"
    by (intro listen) (use empty_server_ok in \<open>simp_all add: launch_def start_def\<close>)
  moreover have "allowed_move (Listen Peer_error (0, 0) 7 for_reading for_writing) ?p"
    using empty_server_ok(3) by (simp add: allowed_move_def allowed_def launch_def start_def sockets_def)
  ultimately have "serves ntop ?p 1 (after_accept for_reading for_writing ?y ?p)" using runs_move[OF runs_refl] by simp
  moreover have "client_count s \<noteq> client_count empty_server"
    using s(2,3) empty_server_ok(1) by (simp add: server_ok_def online_ok_def)
  moreover have "healthy s"
    using idle_healthy s(4,5) by (auto simp: healthy_def empty_server_def)
  moreover have "length (clients s) = 1" using s(3) empty_server_ok(3) by simp
  moreover have "reader ?y = Between" by (simp add: launch_def start_def)
  ultimately show ?thesis using that[of ?y] l by simp
qed

section \<open>A client\<close>

definition online_client :: im_client where
  "online_client = \<lparr>is_online = True, to_server = \<lparr>outcomes = [], sent = []\<rparr>, to_stdout = \<lparr>outcomes = [], sent = []\<rparr>\<rparr>"

end
