(* ===== verification/HListH.thy ===== *)
theory HListH
  imports ListH
begin

text \<open>
  The second half of \<^verbatim>\<open>collections/list.h\<close>: lists with a single head pointer, in which an
  entry points back to the pointer that points to it (\<^verbatim>\<open>pprev\<close>). Such a pointer to a
  pointer is a \<open>place\<close>: the head of a list, the \<^verbatim>\<open>next\<close> of an entry, or a wild address. An
  access through null or through a wild address is a fault.
\<close>

section \<open>Places and heaps\<close>

datatype place = First addr | Next addr | Wild addr

record hlist_node =
  hnext :: "addr option"
  pprev :: "place option"

record hheap =
  hfirst :: "addr \<Rightarrow> addr option"
  hnode :: "addr \<Rightarrow> hlist_node"

fun read_place :: "hheap \<Rightarrow> place \<Rightarrow> addr option" where
  "read_place h (First l) = hfirst h l"
| "read_place h (Next n) = hnext (hnode h n)"
| "read_place h (Wild a) = None"

definition set_hnext :: "addr \<Rightarrow> addr option \<Rightarrow> hheap \<Rightarrow> hheap" where
  "set_hnext n v h = h\<lparr>hnode := (hnode h)(n := (hnode h n)\<lparr>hnext := v\<rparr>)\<rparr>"

definition set_pprev :: "addr \<Rightarrow> place option \<Rightarrow> hheap \<Rightarrow> hheap" where
  "set_pprev n v h = h\<lparr>hnode := (hnode h)(n := (hnode h n)\<lparr>pprev := v\<rparr>)\<rparr>"

fun write_place :: "place option \<Rightarrow> addr option \<Rightarrow> hheap \<Rightarrow> hheap res" where
  "write_place None v h = Inl Null_deref"
| "write_place (Some (First l)) v h = Inr (h\<lparr>hfirst := (hfirst h)(l := v)\<rparr>)"
| "write_place (Some (Next n)) v h = Inr (set_hnext n v h)"
| "write_place (Some (Wild a)) v h = Inl Out_of_bounds"

section \<open>Operations\<close>

definition INIT_HLIST_HEAD :: "addr \<Rightarrow> hheap \<Rightarrow> hheap" where
  "INIT_HLIST_HEAD l h = h\<lparr>hfirst := (hfirst h)(l := None)\<rparr>"

definition INIT_HLIST_NODE :: "addr \<Rightarrow> hheap \<Rightarrow> hheap" where
  "INIT_HLIST_NODE n h = set_pprev n None (set_hnext n None h)"

definition hlist_unhashed :: "addr \<Rightarrow> hheap \<Rightarrow> bool" where
  "hlist_unhashed n h \<longleftrightarrow> pprev (hnode h n) = None"

definition hlist_empty :: "addr \<Rightarrow> hheap \<Rightarrow> bool" where
  "hlist_empty l h \<longleftrightarrow> hfirst h l = None"

definition hlist_del_raw :: "addr \<Rightarrow> hheap \<Rightarrow> hheap res" where
  "hlist_del_raw n h =
     (let nx = hnext (hnode h n); pp = pprev (hnode h n)
      in bindr (write_place pp nx h) (\<lambda>h1. Inr (case nx of None \<Rightarrow> h1 | Some m \<Rightarrow> set_pprev m pp h1)))"

definition hlist_del :: "addr \<Rightarrow> hheap \<Rightarrow> hheap res" where
  "hlist_del n h =
     bindr (hlist_del_raw n h) (\<lambda>h1.
       Inr (set_pprev n (Some (Wild LIST_POISON2)) (set_hnext n (Some LIST_POISON1) h1)))"

definition hlist_del_init :: "addr \<Rightarrow> hheap \<Rightarrow> hheap res" where
  "hlist_del_init n h =
     (if pprev (hnode h n) \<noteq> None then bindr (hlist_del_raw n h) (\<lambda>h1. Inr (INIT_HLIST_NODE n h1)) else Inr h)"

definition hlist_add_head :: "addr \<Rightarrow> addr \<Rightarrow> hheap \<Rightarrow> hheap" where
  "hlist_add_head n l h =
     (let f = hfirst h l;
          h1 = set_hnext n f h;
          h2 = (case f of None \<Rightarrow> h1 | Some m \<Rightarrow> set_pprev m (Some (Next n)) h1);
          h3 = h2\<lparr>hfirst := (hfirst h2)(l := Some n)\<rparr>
      in set_pprev n (Some (First l)) h3)"

definition hlist_add_before :: "addr \<Rightarrow> addr \<Rightarrow> hheap \<Rightarrow> hheap res" where
  "hlist_add_before n nx h =
     (let h1 = set_pprev n (pprev (hnode h nx)) h;
          h2 = set_hnext n (Some nx) h1;
          h3 = set_pprev nx (Some (Next n)) h2
      in write_place (pprev (hnode h3 n)) (Some n) h3)"

definition hlist_add_after :: "addr \<Rightarrow> addr \<Rightarrow> hheap \<Rightarrow> hheap" where
  "hlist_add_after n nx h =
     (let h1 = set_hnext nx (hnext (hnode h n)) h;
          h2 = set_hnext n (Some nx) h1;
          h3 = set_pprev nx (Some (Next n)) h2
      in case hnext (hnode h3 nx) of None \<Rightarrow> h3 | Some m \<Rightarrow> set_pprev m (Some (Next nx)) h3)"

section \<open>The list a head stands for\<close>

fun chain :: "hheap \<Rightarrow> place \<Rightarrow> addr list \<Rightarrow> bool" where
  "chain h p [] \<longleftrightarrow> read_place h p = None"
| "chain h p (x # xs) \<longleftrightarrow> read_place h p = Some x \<and> pprev (hnode h x) = Some p \<and> chain h (Next x) xs"

definition hlist :: "hheap \<Rightarrow> addr \<Rightarrow> addr list \<Rightarrow> bool" where
  "hlist h l xs \<longleftrightarrow> distinct xs \<and> chain h (First l) xs"

lemma hnode_sel [simp]:
  "hnode (set_hnext n v h) m = (if m = n then (hnode h n)\<lparr>hnext := v\<rparr> else hnode h m)"
  "hnode (set_pprev n p h) m = (if m = n then (hnode h n)\<lparr>pprev := p\<rparr> else hnode h m)"
  "hfirst (set_hnext n v h) = hfirst h" "hfirst (set_pprev n p h) = hfirst h"
  by (simp_all add: set_hnext_def set_pprev_def)

text \<open>Only the entries and the place in front of them matter.\<close>

lemma chain_cong:
  "read_place h' p = read_place h p \<Longrightarrow> \<forall>x \<in> set xs. hnode h' x = hnode h x \<Longrightarrow> chain h' p xs \<longleftrightarrow> chain h p xs"
  by (induction xs arbitrary: p) auto

lemma hlist_empty_iff: "hlist h l xs \<Longrightarrow> hlist_empty l h \<longleftrightarrow> xs = []"
  by (cases xs) (auto simp: hlist_def hlist_empty_def)

lemma INIT_HLIST_HEAD_hlist: "hlist (INIT_HLIST_HEAD l h) l []"
  by (simp add: hlist_def INIT_HLIST_HEAD_def)

lemma hlist_add_head_ok:
  assumes "hlist h l xs" and "n \<notin> set xs"
  shows "hlist (hlist_add_head n l h) l (n # xs)"
proof (cases xs)
  case Nil
  then show ?thesis using assms by (simp add: hlist_def hlist_add_head_def)
next
  case (Cons y ys)
  then have y: "hfirst h l = Some y" "y \<noteq> n" "y \<notin> set ys" "n \<notin> set ys" "chain h (Next y) ys"
    using assms by (auto simp: hlist_def)
  have "chain (hlist_add_head n l h) (Next y) ys \<longleftrightarrow> chain h (Next y) ys"
    by (rule chain_cong) (use y in \<open>auto simp: hlist_add_head_def\<close>)
  then show ?thesis using assms Cons y by (auto simp: hlist_def hlist_add_head_def)
qed

text \<open>Taking out an entry changes the place in front of it and the back pointer of the one behind.\<close>

lemma hlist_del_raw_frame:
  assumes "hlist_del_raw n h = Inr h1" and "pprev (hnode h n) = Some q"
  shows "r \<noteq> q \<Longrightarrow> read_place h1 r = read_place h r"
    and "hnext (hnode h n) \<noteq> Some x \<Longrightarrow> pprev (hnode h1 x) = pprev (hnode h x)"
    and "read_place h1 q = hnext (hnode h n)"
    and "hnext (hnode h n) = Some x \<Longrightarrow> pprev (hnode h1 x) = Some q"
proof -
  obtain h0 where h0: "write_place (Some q) (hnext (hnode h n)) h = Inr h0"
    "h1 = (case hnext (hnode h n) of None \<Rightarrow> h0 | Some m \<Rightarrow> set_pprev m (Some q) h0)"
    using assms by (auto simp: hlist_del_raw_def Let_def bindr_Inr_iff)
  have read: "read_place h1 r = read_place h0 r" for r
    unfolding h0(2) by (cases r) (simp_all split: option.splits)
  show "r \<noteq> q \<Longrightarrow> read_place h1 r = read_place h r"
    unfolding read using h0(1) by (cases q; cases r) auto
  have pp: "pprev (hnode h0 x) = pprev (hnode h x)" for x using h0(1) by (cases q) auto
  show "hnext (hnode h n) \<noteq> Some x \<Longrightarrow> pprev (hnode h1 x) = pprev (hnode h x)"
    unfolding h0(2) using pp by (auto split: option.splits)
  show "read_place h1 q = hnext (hnode h n)" unfolding read using h0(1) by (cases q) auto
  show "hnext (hnode h n) = Some x \<Longrightarrow> pprev (hnode h1 x) = Some q" unfolding h0(2) by simp
qed

lemma chain_del:
  assumes "hlist_del_raw n h = Inr h1" and "chain h p (as @ n # bs)" and "distinct (as @ n # bs)"
    and "\<forall>q. p = Next q \<longrightarrow> q \<notin> set (as @ n # bs)"
  shows "chain h1 p (as @ bs)"
  using assms(2-4)
proof (induction as arbitrary: p)
  case Nil
  then have q: "pprev (hnode h n) = Some p" "hnext (hnode h n) = (case bs of [] \<Rightarrow> None | b # _ \<Rightarrow> Some b)"
    by (cases bs; simp)+
  note f = hlist_del_raw_frame[OF assms(1) q(1)]
  show ?case
  proof (cases bs)
    case Nil
    then show ?thesis using f(3) q(2) by simp
  next
    case (Cons b bs')
    have "chain h1 (Next b) bs' \<longleftrightarrow> chain h (Next b) bs'"
    proof (rule chain_cong)
      show "read_place h1 (Next b) = read_place h (Next b)" by (rule f(1)) (use Nil.prems Cons in auto)
      show "\<forall>x \<in> set bs'. hnode h1 x = hnode h x"
      proof
        fix x assume x: "x \<in> set bs'"
        have "pprev (hnode h1 x) = pprev (hnode h x)" by (rule f(2)) (use q(2) Cons Nil.prems x in auto)
        moreover have "read_place h1 (Next x) = read_place h (Next x)" by (rule f(1)) (use Nil.prems Cons x in auto)
        ultimately show "hnode h1 x = hnode h x" by (simp add: hlist_node.equality)
      qed
    qed
    then show ?thesis using f(3,4) q(2) Cons Nil.prems by simp
  qed
next
  case (Cons a as)
  then have c: "chain h (Next a) (as @ n # bs)" "read_place h p = Some a" "pprev (hnode h a) = Some p" by simp_all
  have IH: "chain h1 (Next a) (as @ bs)" by (rule Cons.IH[OF c(1)]) (use Cons.prems in auto)
  obtain y where q: "pprev (hnode h n) = Some (Next y)" "y \<in> set (a # as)"
  proof -
    have "chain h q (xs @ n # bs) \<Longrightarrow> pprev (hnode h n) = Some (last (q # map Next xs))" for q xs
      by (induction xs arbitrary: q) auto
    from this[OF c(1)] show ?thesis by (intro that[of "last (a # as)"]) (auto simp: last_map)
  qed
  note f = hlist_del_raw_frame[OF assms(1) q(1)]
  have "read_place h1 p = Some a" using f(1)[of p] c(2) q(2) Cons.prems(3) by auto
  moreover have "hnext (hnode h n) = (case bs of [] \<Rightarrow> None | b # _ \<Rightarrow> Some b)"
  proof -
    have "chain h q (xs @ n # bs) \<Longrightarrow> hnext (hnode h n) = (case bs of [] \<Rightarrow> None | b # _ \<Rightarrow> Some b)" for q xs
      by (induction xs arbitrary: q) (auto split: list.splits)
    from this[OF c(1)] show ?thesis .
  qed
  then have "pprev (hnode h1 a) = Some p" using f(2)[of a] c(3) Cons.prems(2) by (auto split: list.splits)
  ultimately show ?case using IH by simp
qed

lemma chain_pprev: "chain h p (as @ n # bs) \<Longrightarrow> pprev (hnode h n) = Some (last (p # map Next as))"
  by (induction as arbitrary: p) auto

lemma hlist_del_raw_total:
  assumes "hlist h l (as @ n # bs)"
  shows "\<exists>h1. hlist_del_raw n h = Inr h1 \<and> hlist h1 l (as @ bs)"
proof -
  have c: "chain h (First l) (as @ n # bs)" "distinct (as @ n # bs)" using assms by (simp_all add: hlist_def)
  have "\<exists>y. last (First l # map Next as) = First l \<or> last (First l # map Next as) = Next y" by (auto simp: last_map)
  then obtain h1 where "hlist_del_raw n h = Inr h1"
    using chain_pprev[OF c(1)] by (auto simp: hlist_del_raw_def Let_def)
  then show ?thesis using chain_del[OF _ c] c(2) by (auto simp: hlist_def)
qed

text \<open>\<^verbatim>\<open>hlist_del\<close> leaves poison in the entry, \<^verbatim>\<open>hlist_del_init\<close> an entry that is in no list.\<close>

lemma hlist_other_node:
  assumes "hlist h l xs" and "n \<notin> set xs" and "\<forall>x. x \<noteq> n \<longrightarrow> hnode h' x = hnode h x" and "hfirst h' = hfirst h"
  shows "hlist h' l xs"
proof -
  have "chain h' (First l) xs \<longleftrightarrow> chain h (First l) xs" by (rule chain_cong) (use assms in auto)
  then show ?thesis using assms(1) by (simp add: hlist_def)
qed

lemma hlist_del_ok:
  assumes "hlist h l (as @ n # bs)"
  shows "\<exists>h1. hlist_del n h = Inr h1 \<and> hlist h1 l (as @ bs) \<and> hlist_del n h1 = Inl Out_of_bounds"
proof -
  obtain h1 where h1: "hlist_del_raw n h = Inr h1" "hlist h1 l (as @ bs)" using hlist_del_raw_total[OF assms] by blast
  let ?h = "set_pprev n (Some (Wild LIST_POISON2)) (set_hnext n (Some LIST_POISON1) h1)"
  have "n \<notin> set (as @ bs)" using assms by (simp add: hlist_def)
  then have "hlist ?h l (as @ bs)" by (rule hlist_other_node[OF h1(2)]) simp_all
  moreover have "hlist_del n ?h = Inl Out_of_bounds" by (simp add: hlist_del_def hlist_del_raw_def)
  ultimately show ?thesis using h1(1) by (simp add: hlist_del_def)
qed

lemma hlist_del_init_ok:
  assumes "hlist h l (as @ n # bs)"
  shows "\<exists>h1. hlist_del_init n h = Inr h1 \<and> hlist h1 l (as @ bs) \<and> hlist_unhashed n h1 \<and> hlist_del_init n h1 = Inr h1"
proof -
  obtain h1 where h1: "hlist_del_raw n h = Inr h1" "hlist h1 l (as @ bs)" using hlist_del_raw_total[OF assms] by blast
  have "pprev (hnode h n) \<noteq> None" using chain_pprev assms by (auto simp: hlist_def)
  moreover have "n \<notin> set (as @ bs)" using assms by (simp add: hlist_def)
  then have "hlist (INIT_HLIST_NODE n h1) l (as @ bs)"
    by (rule hlist_other_node[OF h1(2)]) (simp_all add: INIT_HLIST_NODE_def)
  ultimately show ?thesis
    using h1(1) by (simp add: hlist_del_init_def hlist_unhashed_def INIT_HLIST_NODE_def)
qed

section \<open>Insertion in the middle\<close>

lemma hlist_add_before_frame:
  assumes "hlist_add_before n nx h = Inr h1" and "pprev (hnode h nx) = Some q" and "n \<noteq> nx" "q \<noteq> Next n" "q \<noteq> Next nx"
  shows "read_place h1 q = Some n" and "pprev (hnode h1 n) = Some q" and "read_place h1 (Next n) = Some nx"
    and "pprev (hnode h1 nx) = Some (Next n)" and "r \<noteq> q \<Longrightarrow> r \<noteq> Next n \<Longrightarrow> read_place h1 r = read_place h r"
    and "x \<noteq> n \<Longrightarrow> x \<noteq> nx \<Longrightarrow> pprev (hnode h1 x) = pprev (hnode h x)"
  using assms by (cases q; cases r; auto simp: hlist_add_before_def Let_def)+

lemma chain_add_before:
  assumes "hlist_add_before n nx h = Inr h1" and "chain h p (as @ nx # bs)" and "distinct (n # as @ nx # bs)"
    and "\<forall>q. p = Next q \<longrightarrow> q \<notin> set (n # as @ nx # bs)"
  shows "chain h1 p (as @ n # nx # bs)"
  using assms(2-4)
proof (induction as arbitrary: p)
  case Nil
  have q: "pprev (hnode h nx) = Some p" using Nil.prems(1) by simp
  note f = hlist_add_before_frame[OF assms(1) q]
  have ne: "n \<noteq> nx" "p \<noteq> Next n" "p \<noteq> Next nx" using Nil.prems by auto
  have "chain h1 (Next nx) bs \<longleftrightarrow> chain h (Next nx) bs"
  proof (rule chain_cong)
    show "read_place h1 (Next nx) = read_place h (Next nx)" by (rule f(5)) (use ne in auto)
    show "\<forall>x \<in> set bs. hnode h1 x = hnode h x"
    proof
      fix x assume x: "x \<in> set bs"
      have "pprev (hnode h1 x) = pprev (hnode h x)" by (rule f(6)) (use ne Nil.prems(2) x in auto)
      moreover have "read_place h1 (Next x) = read_place h (Next x)" by (rule f(5)) (use ne Nil.prems x in auto)
      ultimately show "hnode h1 x = hnode h x" by (simp add: hlist_node.equality)
    qed
  qed
  then show ?case using f(1-4)[OF ne] Nil.prems(1) by simp
next
  case (Cons a as)
  then have c: "chain h (Next a) (as @ nx # bs)" "read_place h p = Some a" "pprev (hnode h a) = Some p" by simp_all
  have IH: "chain h1 (Next a) (as @ n # nx # bs)" by (rule Cons.IH[OF c(1)]) (use Cons.prems in auto)
  have q: "pprev (hnode h nx) = Some (last (Next a # map Next as))" using chain_pprev[OF c(1)] .
  have "last (Next a # map Next as) \<in> set (map Next (a # as))" by (simp only: list.map(2)[symmetric]) (rule last_in_set, simp)
  then obtain y where y: "last (Next a # map Next as) = Next y" "y \<in> set (a # as)" by auto
  note f = hlist_add_before_frame[OF assms(1) q]
  have ne: "n \<noteq> nx" "last (Next a # map Next as) \<noteq> Next n" "last (Next a # map Next as) \<noteq> Next nx"
    unfolding y(1) using y(2) Cons.prems(2) by auto
  have "read_place h1 p = Some a" using f(5)[OF ne, of p] c(2) y Cons.prems(3) by auto
  moreover have "pprev (hnode h1 a) = Some p" using f(6)[OF ne, of a] c(3) Cons.prems(2) by auto
  ultimately show ?case using IH by simp
qed

lemma hlist_add_before_ok:
  assumes "hlist h l (as @ nx # bs)" and "n \<notin> set (as @ nx # bs)"
  shows "\<exists>h1. hlist_add_before n nx h = Inr h1 \<and> hlist h1 l (as @ n # nx # bs)"
proof -
  have c: "chain h (First l) (as @ nx # bs)" "distinct (n # as @ nx # bs)" using assms by (auto simp: hlist_def)
  have "\<exists>y. last (First l # map Next as) = First l \<or> last (First l # map Next as) = Next y" by (auto simp: last_map)
  then obtain h1 where "hlist_add_before n nx h = Inr h1"
    using chain_pprev[OF c(1)] c(2) by (auto simp: hlist_add_before_def Let_def)
  then show ?thesis using chain_add_before[OF _ c] c(2) by (auto simp: hlist_def)
qed

lemma chain_add_after:
  assumes "chain h p (as @ n # bs)" and "distinct (nx # as @ n # bs)" and "\<forall>q. p = Next q \<longrightarrow> q \<notin> set (nx # as @ n # bs)"
  shows "chain (hlist_add_after n nx h) p (as @ n # nx # bs)"
  using assms
proof (induction as arbitrary: p)
  case Nil
  let ?h = "hlist_add_after n nx h"
  have n: "hnext (hnode h n) = (case bs of [] \<Rightarrow> None | b # _ \<Rightarrow> Some b)" using Nil.prems(1) by (cases bs) auto
  have p: "read_place ?h p = Some n"
    using Nil.prems by (cases p) (auto simp: hlist_add_after_def Let_def split: option.splits)
  show ?case
  proof (cases bs)
    case Nil
    then show ?thesis using n p \<open>chain h p ([] @ n # bs)\<close> \<open>distinct (nx # [] @ n # bs)\<close>
      by (auto simp: hlist_add_after_def Let_def)
  next
    case (Cons b bs')
    have "chain ?h (Next b) bs' \<longleftrightarrow> chain h (Next b) bs'"
      by (rule chain_cong) (use n Cons Nil.prems in \<open>auto simp: hlist_add_after_def Let_def\<close>)
    then show ?thesis using n p Cons Nil.prems by (auto simp: hlist_add_after_def Let_def)
  qed
next
  case (Cons a as)
  let ?h = "hlist_add_after n nx h"
  have c: "chain h (Next a) (as @ n # bs)" "read_place h p = Some a" "pprev (hnode h a) = Some p" using Cons.prems(1) by simp_all
  have IH: "chain ?h (Next a) (as @ n # nx # bs)" by (rule Cons.IH[OF c(1)]) (use Cons.prems in auto)
  have n: "hnext (hnode h n) \<noteq> Some a"
  proof -
    have "chain h q (xs @ n # bs) \<Longrightarrow> hnext (hnode h n) = (case bs of [] \<Rightarrow> None | b # _ \<Rightarrow> Some b)" for q xs
      by (induction xs arbitrary: q) (auto split: list.splits)
    from this[OF c(1)] show ?thesis using Cons.prems(2) by (auto split: list.splits)
  qed
  have "read_place ?h p = Some a"
    using c(2) Cons.prems(3) by (cases p) (auto simp: hlist_add_after_def Let_def split: option.splits)
  moreover have "pprev (hnode ?h a) = Some p"
    using c(3) n Cons.prems(2) by (auto simp: hlist_add_after_def Let_def split: option.splits)
  ultimately show ?case using IH by simp
qed

lemma hlist_add_after_ok:
  "hlist h l (as @ n # bs) \<Longrightarrow> nx \<notin> set (as @ n # bs) \<Longrightarrow> hlist (hlist_add_after n nx h) l (as @ n # nx # bs)"
  using chain_add_after[of h "First l" as n bs nx] by (auto simp: hlist_def)

section \<open>Traversal\<close>

partial_function (option) hwalk :: "hheap \<Rightarrow> addr option \<Rightarrow> addr list option" where
  "hwalk h pos = (case pos of None \<Rightarrow> Some [] | Some x \<Rightarrow> Option.bind (hwalk h (hnext (hnode h x))) (\<lambda>xs. Some (x # xs)))"

definition hlist_for_each :: "addr \<Rightarrow> hheap \<Rightarrow> addr list option" where
  "hlist_for_each l h = hwalk h (hfirst h l)"

lemma hwalk_chain: "chain h p xs \<Longrightarrow> hwalk h (read_place h p) = Some xs"
proof (induction xs arbitrary: p)
  case (Cons x xs)
  then have "hwalk h (hnext (hnode h x)) = Some xs" using Cons.IH[of "Next x"] by simp
  then show ?case using Cons.prems by (subst hwalk.simps) simp
qed (simp add: hwalk.simps)

lemma hlist_for_each_visits: "hlist h l xs \<Longrightarrow> hlist_for_each l h = Some xs"
  using hwalk_chain[of h "First l" xs] by (simp add: hlist_def hlist_for_each_def)

end
