(* ===== verification/Iterators.thy ===== *)
theory Iterators
  imports HListH
begin

text \<open>
  The traversal macros of \<^verbatim>\<open>collections/list.h\<close> that hand out whole entries, for both kinds of
  list. A macro is a \<^verbatim>\<open>for\<close> statement with the body of the caller: it is a definition with
  the caller's body as an argument, and the state of the loop is the heap with whatever the body
  accumulates. An entry is the address of the struct in which the link lies at a fixed offset.
  The lemmas say which entries a loop visits and in which order, that it ends, and that the
  variants with a second cursor may delete what they visit.
\<close>

section \<open>The for statement of C\<close>

text \<open>
  \<open>test\<close> may assign to the cursor, as the statement expressions of the hash list macros do;
  \<open>None\<close> ends the loop. The result is the last cursor and the last state.
\<close>

partial_function (option) c_for ::
  "('v \<Rightarrow> 's \<Rightarrow> 'v option) \<Rightarrow> ('v \<Rightarrow> 's \<Rightarrow> 'v) \<Rightarrow> ('v \<Rightarrow> 's \<Rightarrow> 's) \<Rightarrow> 'v \<Rightarrow> 's \<Rightarrow> ('v \<times> 's) option" where
  "c_for test incr body v st =
     (case test v st of
        None \<Rightarrow> Some (v, st)
      | Some w \<Rightarrow> c_for test incr body (incr w (body w st)) (body w st))"

text \<open>The rule for a loop over a list: what is left is part of the invariant.\<close>

lemma c_for_rule:
  assumes step: "\<And>x ys v st. I (x # ys) v st \<Longrightarrow> \<exists>w. test v st = Some w \<and> I ys (incr w (body w st)) (body w st)"
    and stop: "\<And>v st. I [] v st \<Longrightarrow> test v st = None"
  shows "I xs v st \<Longrightarrow> \<exists>v' st'. c_for test incr body v st = Some (v', st') \<and> I [] v' st'"
proof (induction xs arbitrary: v st)
  case Nil
  then show ?case using stop by (subst c_for.simps) simp
next
  case (Cons x ys)
  obtain w where "test v st = Some w" "I ys (incr w (body w st)) (body w st)" using step[OF Cons.prems] by blast
  then show ?case using Cons.IH by (subst c_for.simps) simp
qed

section \<open>The macros for circular lists\<close>

definition list_entry :: "addr \<Rightarrow> nat \<Rightarrow> int" where
  "list_entry ptr member = container_of ptr member"

text \<open>\<^verbatim>\<open>&pos->member\<close>\<close>

definition link_of :: "int \<Rightarrow> nat \<Rightarrow> addr" where
  "link_of pos member = nat (pos + int member)"

lemma link_of_entry [simp]: "link_of (list_entry p member) member = p"
  by (simp add: link_of_def list_entry_def container_of_def)

definition until_head :: "nat \<Rightarrow> addr \<Rightarrow> int \<Rightarrow> heap \<times> 's \<Rightarrow> int option" where
  "until_head member head pos st = (if link_of pos member \<noteq> head then Some pos else None)"

definition next_entry :: "nat \<Rightarrow> int \<Rightarrow> heap \<Rightarrow> int" where
  "next_entry member pos h = list_entry (nxt (h (link_of pos member))) member"

definition prev_entry :: "nat \<Rightarrow> int \<Rightarrow> heap \<Rightarrow> int" where
  "prev_entry member pos h = list_entry (prv (h (link_of pos member))) member"

definition list_for_each_entry ::
  "addr \<Rightarrow> nat \<Rightarrow> (int \<Rightarrow> heap \<times> 's \<Rightarrow> heap \<times> 's) \<Rightarrow> heap \<times> 's \<Rightarrow> (int \<times> heap \<times> 's) option" where
  "list_for_each_entry head member body st =
     c_for (until_head member head) (\<lambda>pos st. next_entry member pos (fst st)) body
       (list_entry (nxt (fst st head)) member) st"

definition list_for_each_entry_reverse ::
  "addr \<Rightarrow> nat \<Rightarrow> (int \<Rightarrow> heap \<times> 's \<Rightarrow> heap \<times> 's) \<Rightarrow> heap \<times> 's \<Rightarrow> (int \<times> heap \<times> 's) option" where
  "list_for_each_entry_reverse head member body st =
     c_for (until_head member head) (\<lambda>pos st. prev_entry member pos (fst st)) body
       (list_entry (prv (fst st head)) member) st"

definition list_prepare_entry :: "int option \<Rightarrow> addr \<Rightarrow> nat \<Rightarrow> int" where
  "list_prepare_entry pos head member = (case pos of Some p \<Rightarrow> p | None \<Rightarrow> list_entry head member)"

definition list_for_each_entry_continue ::
  "int \<Rightarrow> addr \<Rightarrow> nat \<Rightarrow> (int \<Rightarrow> heap \<times> 's \<Rightarrow> heap \<times> 's) \<Rightarrow> heap \<times> 's \<Rightarrow> (int \<times> heap \<times> 's) option" where
  "list_for_each_entry_continue pos head member body st =
     c_for (until_head member head) (\<lambda>pos st. next_entry member pos (fst st)) body
       (next_entry member pos (fst st)) st"

text \<open>The plain macro with a caller's body: the positions are the links themselves.\<close>

definition list_for_each_raw ::
  "addr \<Rightarrow> (addr \<Rightarrow> heap \<times> 's \<Rightarrow> heap \<times> 's) \<Rightarrow> heap \<times> 's \<Rightarrow> (addr \<times> heap \<times> 's) option" where
  "list_for_each_raw head body st =
     c_for (\<lambda>pos st. if pos \<noteq> head then Some pos else None) (\<lambda>pos st. nxt (fst st pos)) body (nxt (fst st head)) st"

text \<open>The safe variants keep the position to go on from in \<open>n\<close>, read before the body runs.\<close>

definition list_for_each_safe ::
  "addr \<Rightarrow> (addr \<Rightarrow> heap \<times> 's \<Rightarrow> heap \<times> 's) \<Rightarrow> heap \<times> 's \<Rightarrow> ((addr \<times> addr) \<times> heap \<times> 's) option" where
  "list_for_each_safe head body st =
     (let pos = nxt (fst st head)
      in c_for (\<lambda>(pos, n) st. if pos \<noteq> head then Some (pos, n) else None)
           (\<lambda>(pos, n) st. (n, nxt (fst st n))) (\<lambda>(pos, n). body pos) (pos, nxt (fst st pos)) st)"

definition list_for_each_entry_safe ::
  "addr \<Rightarrow> nat \<Rightarrow> (int \<Rightarrow> heap \<times> 's \<Rightarrow> heap \<times> 's) \<Rightarrow> heap \<times> 's \<Rightarrow> ((int \<times> int) \<times> heap \<times> 's) option" where
  "list_for_each_entry_safe head member body st =
     (let pos = list_entry (nxt (fst st head)) member
      in c_for (\<lambda>(pos, n) st. map_option (\<lambda>p. (p, n)) (until_head member head pos st))
           (\<lambda>(pos, n) st. (n, next_entry member n (fst st))) (\<lambda>(pos, n). body pos)
           (pos, next_entry member pos (fst st)) st)"

definition list_for_each_entry_safe_continue ::
  "int \<Rightarrow> addr \<Rightarrow> nat \<Rightarrow> (int \<Rightarrow> heap \<times> 's \<Rightarrow> heap \<times> 's) \<Rightarrow> heap \<times> 's \<Rightarrow> ((int \<times> int) \<times> heap \<times> 's) option" where
  "list_for_each_entry_safe_continue pos head member body st =
     (let pos = next_entry member pos (fst st)
      in c_for (\<lambda>(pos, n) st. map_option (\<lambda>p. (p, n)) (until_head member head pos st))
           (\<lambda>(pos, n) st. (n, next_entry member n (fst st))) (\<lambda>(pos, n). body pos)
           (pos, next_entry member pos (fst st)) st)"

definition list_for_each_entry_safe_reverse ::
  "addr \<Rightarrow> nat \<Rightarrow> (int \<Rightarrow> heap \<times> 's \<Rightarrow> heap \<times> 's) \<Rightarrow> heap \<times> 's \<Rightarrow> ((int \<times> int) \<times> heap \<times> 's) option" where
  "list_for_each_entry_safe_reverse head member body st =
     (let pos = list_entry (prv (fst st head)) member
      in c_for (\<lambda>(pos, n) st. map_option (\<lambda>p. (p, n)) (until_head member head pos st))
           (\<lambda>(pos, n) st. (n, prev_entry member n (fst st))) (\<lambda>(pos, n). body pos)
           (pos, prev_entry member pos (fst st)) st)"

section \<open>What they visit\<close>

lemma dlist_middle:
  assumes "dlist h l (as @ x # bs)"
  shows "nxt (h x) = hd (bs @ [l])" and "prv (h x) = last (l # as)" and "x \<noteq> l" and "l \<notin> set as" and "l \<notin> set bs"
proof -
  have r: "l # as @ x # bs = (l # as) @ x # bs" by simp
  show "nxt (h x) = hd (bs @ [l])" by (rule dlist_split_next(1)[OF assms r])
  have "l # as @ x # bs = butlast (l # as) @ last (l # as) # x # bs"
    using append_butlast_last_id[of "l # as"] by (metis append.assoc append_Cons append_Nil list.discI)
  from dlist_split_next(2)[OF assms this] show "prv (h x) = last (l # as)" by simp
  show "x \<noteq> l" "l \<notin> set as" "l \<notin> set bs" using assms by (auto simp: dlist_def)
qed

text \<open>A body that keeps the list: the entries are visited once, in order.\<close>

definition keeps_list :: "addr \<Rightarrow> addr list \<Rightarrow> ('p \<Rightarrow> heap \<times> 's \<Rightarrow> heap \<times> 's) \<Rightarrow> bool" where
  "keeps_list l xs body \<longleftrightarrow> (\<forall>pos st. dlist (fst st) l xs \<longrightarrow> dlist (fst (body pos st)) l xs)"

text \<open>For positions of any kind: \<open>entry\<close> is the position of a link, \<open>link\<close> the link at a position.\<close>

lemma visits_rest:
  fixes body :: "'p \<Rightarrow> heap \<times> 's \<Rightarrow> heap \<times> 's" and entry :: "addr \<Rightarrow> 'p"
  assumes e: "\<And>p. link (entry p) = p" and d: "dlist (fst st) l (as @ bs)" and k: "keeps_list l (as @ bs) body"
  shows "\<exists>st'. c_for (\<lambda>pos st. if link pos \<noteq> l then Some pos else None) (\<lambda>pos st. entry (nxt (fst st (link pos)))) body
      (entry (hd (bs @ [l]))) st = Some (entry l, st')
    \<and> st' = fold (\<lambda>x. body (entry x)) bs st \<and> dlist (fst st') l (as @ bs)"
proof -
  let ?f = "\<lambda>x. body (entry x)" and ?test = "\<lambda>pos (st :: heap \<times> 's). if link pos \<noteq> l then Some pos else None"
  let ?incr = "\<lambda>pos (st :: heap \<times> 's). entry (nxt (fst st (link pos)))"
  let ?I = "\<lambda>ys v s. \<exists>zs. bs = zs @ ys \<and> v = entry (hd (ys @ [l])) \<and> s = fold ?f zs st \<and> dlist (fst s) l (as @ bs)"
  have "\<exists>v' st'. c_for ?test ?incr body (entry (hd (bs @ [l]))) st = Some (v', st') \<and> ?I [] v' st'"
  proof (rule c_for_rule[where I = ?I])
    fix x ys v s assume "?I (x # ys) v s"
    then obtain zs where z: "bs = zs @ x # ys" "v = entry x" "s = fold ?f zs st" "dlist (fst s) l ((as @ zs) @ x # ys)"
      by auto
    have x: "x \<noteq> l" by (rule dlist_middle(3)[OF z(4)])
    have d': "dlist (fst (body v s)) l ((as @ zs) @ x # ys)"
      using k[unfolded keeps_list_def, rule_format, of s v] z(1,4) by simp
    have "?I ys (?incr v (body v s)) (body v s)"
      using d' z dlist_middle(1)[OF d'] by (intro exI[of _ "zs @ [x]"]) (simp add: e)
    then show "\<exists>w. ?test v s = Some w \<and> ?I ys (?incr w (body w s)) (body w s)"
      using x z(2) by (intro exI[of _ v]) (simp add: e)
  next
    fix v s assume "?I [] v s"
    then show "?test v s = None" by (auto simp: e)
  next
    show "?I bs (entry (hd (bs @ [l]))) st" using d by (intro exI[of _ "[]"]) simp
  qed
  then show ?thesis by auto
qed

lemma list_for_each_raw_visits:
  assumes "dlist h l xs" and "keeps_list l xs body"
  shows "\<exists>st'. list_for_each_raw l body (h, s) = Some (l, st') \<and> st' = fold body xs (h, s) \<and> dlist (fst st') l xs"
  using visits_rest[of id id "(h, s)" l "[]" xs body] assms dlist_sel(1)[OF assms(1)]
  by (simp add: list_for_each_raw_def)

lemma until_head_test: "until_head off l = (\<lambda>pos st. if link_of pos off \<noteq> l then Some pos else None)"
  by (simp add: until_head_def fun_eq_iff)

lemmas for_entries = until_head_test next_entry_def

lemma list_for_each_entry_visits:
  assumes "dlist h l xs" and "keeps_list l xs body"
  shows "\<exists>st'. list_for_each_entry l off body (h, s) = Some (list_entry l off, st')
    \<and> st' = fold (\<lambda>x. body (list_entry x off)) xs (h, s) \<and> dlist (fst st') l xs"
  using visits_rest[of "\<lambda>e. link_of e off" "\<lambda>p. list_entry p off" "(h, s)" l "[]" xs body] assms dlist_sel(1)[OF assms(1)]
  by (simp add: list_for_each_entry_def for_entries)

text \<open>\<^verbatim>\<open>_continue\<close> goes on behind the entry it is given, from the head it visits them all.\<close>

lemma list_for_each_entry_continue_visits:
  assumes "dlist h l (as @ x # bs)" and "keeps_list l (as @ x # bs) body"
  shows "\<exists>st'. list_for_each_entry_continue (list_entry x off) l off body (h, s) = Some (list_entry l off, st')
    \<and> st' = fold (\<lambda>x. body (list_entry x off)) bs (h, s) \<and> dlist (fst st') l (as @ x # bs)"
  using visits_rest[of "\<lambda>e. link_of e off" "\<lambda>p. list_entry p off" "(h, s)" l "as @ [x]" bs body] assms
    dlist_middle(1)[OF assms(1)]
  by (simp add: list_for_each_entry_continue_def for_entries)

lemma list_for_each_entry_prepared:
  "list_for_each_entry_continue (list_prepare_entry None l off) l off body (h, s)
    = list_for_each_entry l off body (h, s)"
  by (simp add: list_prepare_entry_def list_for_each_entry_continue_def list_for_each_entry_def next_entry_def)

text \<open>The same from the other end.\<close>

lemma list_for_each_entry_reverse_visits:
  fixes body :: "int \<Rightarrow> heap \<times> 's \<Rightarrow> heap \<times> 's"
  assumes d: "dlist h l xs" and k: "keeps_list l xs body"
  shows "\<exists>st'. list_for_each_entry_reverse l off body (h, s) = Some (list_entry l off, st')
    \<and> st' = fold (\<lambda>x. body (list_entry x off)) (rev xs) (h, s) \<and> dlist (fst st') l xs"
proof -
  let ?f = "\<lambda>x. body (list_entry x off)" and ?st = "(h, s)"
  let ?I = "\<lambda>ys v s. \<exists>zs. xs = rev ys @ zs \<and> v = list_entry (last (l # rev ys)) off \<and> s = fold ?f (rev zs) ?st \<and> dlist (fst s) l xs"
  have "\<exists>v' st'. c_for (until_head off l) (\<lambda>pos st. prev_entry off pos (fst st)) body (list_entry (last (l # xs)) off) ?st
      = Some (v', st') \<and> ?I [] v' st'"
  proof (rule c_for_rule[where I = ?I and xs = "rev xs"])
    fix x ys v s assume "?I (x # ys) v s"
    then obtain zs where z: "xs = rev ys @ x # zs" "v = list_entry x off" "s = fold ?f (rev zs) ?st" "dlist (fst s) l (rev ys @ x # zs)"
      by auto
    have x: "x \<noteq> l" by (rule dlist_middle(3)[OF z(4)])
    have d': "dlist (fst (body v s)) l (rev ys @ x # zs)"
      using k[unfolded keeps_list_def, rule_format, of s v] z(1,4) by simp
    have "?I ys (prev_entry off v (fst (body v s))) (body v s)"
      using d' z dlist_middle(2)[OF d'] by (intro exI[of _ "x # zs"]) (simp add: prev_entry_def)
    then show "\<exists>w. until_head off l v s = Some w \<and> ?I ys (prev_entry off w (fst (body w s))) (body w s)"
      using x z(2) by (intro exI[of _ v]) (simp add: until_head_def)
  next
    fix v s assume "?I [] v s"
    then show "until_head off l v s = None" by (auto simp: until_head_def)
  next
    show "?I (rev xs) (list_entry (last (l # xs)) off) ?st" using d by (intro exI[of _ "[]"]) simp
  qed
  then show ?thesis using dlist_sel(2)[OF d] by (auto simp: list_for_each_entry_reverse_def)
qed

section \<open>Deleting while going through\<close>

text \<open>A body that takes the entries out of the list that satisfy \<open>P\<close>, and does \<open>f\<close> besides.\<close>

definition delete_if :: "('p \<Rightarrow> bool) \<Rightarrow> ('p \<Rightarrow> addr) \<Rightarrow> ('p \<Rightarrow> 's \<Rightarrow> 's) \<Rightarrow> 'p \<Rightarrow> heap \<times> 's \<Rightarrow> heap \<times> 's" where
  "delete_if P link f pos st = (if P pos then list_del (link pos) (fst st) else fst st, f pos (snd st))"

lemma delete_if_dlist:
  assumes "dlist (fst st) l (as @ x # bs)" and "link (entry x) = x"
  shows "dlist (fst (delete_if P link f (entry x) st)) l (as @ filter (\<lambda>x. \<not> P (entry x)) [x] @ bs)"
  using assms dlist_list_del[OF assms(1)] by (simp add: delete_if_def)

text \<open>For positions of any kind: \<open>entry\<close> is the position of a link, \<open>link\<close> the link at a position.\<close>

lemma deletes_rest:
  fixes entry :: "addr \<Rightarrow> 'p" and st :: "heap \<times> 's"
  assumes e: "\<And>p. link (entry p) = p" and d: "dlist (fst st) l (as @ bs)" and n: "bs \<noteq> [] \<Longrightarrow> n = entry (hd (tl bs @ [l]))"
  shows "\<exists>n' h'. c_for (\<lambda>(pos, n) st. if link pos \<noteq> l then Some (pos, n) else None)
        (\<lambda>(pos, n) st. (n, entry (nxt (fst st (link n))))) (\<lambda>(pos, n). delete_if P link f pos) (entry (hd (bs @ [l])), n) st
      = Some ((entry l, n'), h', fold (\<lambda>x. f (entry x)) bs (snd st))
    \<and> dlist h' l (as @ filter (\<lambda>x. \<not> P (entry x)) bs)"
proof -
  let ?f = "\<lambda>x. f (entry x)" and ?keep = "filter (\<lambda>x. \<not> P (entry x))"
  let ?test = "\<lambda>(pos, n) (st :: heap \<times> 's). if link pos \<noteq> l then Some (pos, n) else None"
  let ?incr = "\<lambda>(pos :: 'p, n) (st :: heap \<times> 's). (n, entry (nxt (fst st (link n))))"
  let ?body = "\<lambda>(pos, n :: 'p). delete_if P link f pos"
  let ?I = "\<lambda>ys v s. \<exists>zs. bs = zs @ ys \<and> fst v = entry (hd (ys @ [l]))
    \<and> (ys \<noteq> [] \<longrightarrow> snd v = entry (hd (tl ys @ [l]))) \<and> snd s = fold ?f zs (snd st) \<and> dlist (fst s) l (as @ ?keep zs @ ys)"
  have "\<exists>v' st'. c_for ?test ?incr ?body (entry (hd (bs @ [l])), n) st = Some (v', st') \<and> ?I [] v' st'"
  proof (rule c_for_rule[where I = ?I])
    fix x ys v s assume "?I (x # ys) v s"
    then obtain zs where z: "bs = zs @ x # ys" "v = (entry x, entry (hd (ys @ [l])))"
      "snd s = fold ?f zs (snd st)" "dlist (fst s) l ((as @ ?keep zs) @ x # ys)"
      by (cases v) auto
    have x: "x \<noteq> l" by (rule dlist_middle(3)[OF z(4)])
    let ?s = "delete_if P link f (entry x) s"
    have d': "dlist (fst ?s) l (as @ ?keep (zs @ [x]) @ ys)" using delete_if_dlist[of s l _ x ys link entry P f, OF z(4) e] by simp
    have "nxt (fst ?s (hd (ys @ [l]))) = hd (tl ys @ [l])" if "ys \<noteq> []"
    proof -
      have eq: "as @ ?keep (zs @ [x]) @ ys = (as @ ?keep (zs @ [x])) @ hd ys # tl ys" using that by simp
      show ?thesis using dlist_middle(1)[OF d'[unfolded eq]] that by simp
    qed
    then have "?I ys (?incr v (?body v s)) (?body v s)"
      using d' z by (intro exI[of _ "zs @ [x]"]) (simp add: delete_if_def e)
    then show "\<exists>w. ?test v s = Some w \<and> ?I ys (?incr w (?body w s)) (?body w s)"
      using x z(2) by (intro exI[of _ v]) (simp add: e)
  next
    fix v s assume "?I [] v s"
    then show "?test v s = None" by (cases v) (auto simp: e)
  next
    show "?I bs (entry (hd (bs @ [l])), n) st" using d n by (intro exI[of _ "[]"]) simp
  qed
  then obtain v' st' where r: "c_for ?test ?incr ?body (entry (hd (bs @ [l])), n) st = Some (v', st')" "?I [] v' st'"
    by blast
  then show ?thesis by (intro exI[of _ "snd v'"] exI[of _ "fst st'"]) (cases v'; cases st'; simp)
qed

lemma list_for_each_safe_deletes:
  assumes "dlist h l xs"
  shows "\<exists>n h'. list_for_each_safe l (delete_if P id f) (h, s) = Some ((l, n), h', fold f xs s)
    \<and> dlist h' l (filter (\<lambda>x. \<not> P x) xs)"
proof -
  have "nxt (h (hd (xs @ [l]))) = hd (tl xs @ [l])" if "xs \<noteq> []"
    using dlist_middle(1)[of h l "[]" "hd xs" "tl xs"] assms that by simp
  then show ?thesis
    using deletes_rest[of id id "(h, s)" l "[]" xs "nxt (h (hd (xs @ [l])))" P f] assms dlist_sel(1)[OF assms]
    by (simp add: list_for_each_safe_def Let_def)
qed

lemma safe_test: "(\<lambda>(pos, n) st. map_option (\<lambda>p. (p, n)) (until_head off l pos st))
    = (\<lambda>(pos, n) st. if link_of pos off \<noteq> l then Some (pos, n) else None)"
  by (auto simp: until_head_def fun_eq_iff)

lemma list_for_each_entry_safe_deletes:
  assumes "dlist h l xs"
  shows "\<exists>n h'. list_for_each_entry_safe l off (delete_if P (\<lambda>e. link_of e off) f) (h, s)
      = Some ((list_entry l off, n), h', fold (\<lambda>x. f (list_entry x off)) xs s)
    \<and> dlist h' l (filter (\<lambda>x. \<not> P (list_entry x off)) xs)"
proof -
  have "next_entry off (list_entry (hd (xs @ [l])) off) h = list_entry (hd (tl xs @ [l])) off" if "xs \<noteq> []"
    using dlist_middle(1)[of h l "[]" "hd xs" "tl xs"] assms that by (simp add: next_entry_def)
  from deletes_rest[of "\<lambda>e. link_of e off" "\<lambda>p. list_entry p off" "(h, s)" l "[]" xs, OF _ _ this] show ?thesis
    using assms dlist_sel(1)[OF assms] by (simp add: list_for_each_entry_safe_def next_entry_def safe_test Let_def)
qed

lemma list_for_each_entry_safe_continue_deletes:
  assumes "dlist h l (as @ x # bs)"
  shows "\<exists>n h'. list_for_each_entry_safe_continue (list_entry x off) l off (delete_if P (\<lambda>e. link_of e off) f) (h, s)
      = Some ((list_entry l off, n), h', fold (\<lambda>x. f (list_entry x off)) bs s)
    \<and> dlist h' l (as @ x # filter (\<lambda>x. \<not> P (list_entry x off)) bs)"
proof -
  have "next_entry off (list_entry (hd (bs @ [l])) off) h = list_entry (hd (tl bs @ [l])) off" if "bs \<noteq> []"
    using dlist_middle(1)[of h l "as @ [x]" "hd bs" "tl bs"] assms that by (simp add: next_entry_def)
  from deletes_rest[of "\<lambda>e. link_of e off" "\<lambda>p. list_entry p off" "(h, s)" l "as @ [x]" bs, OF _ _ this] show ?thesis
    using assms dlist_middle(1)[OF assms] by (simp add: list_for_each_entry_safe_continue_def next_entry_def safe_test Let_def)
qed

lemma list_for_each_entry_safe_reverse_deletes:
  assumes d: "dlist h l xs"
  shows "\<exists>n h'. list_for_each_entry_safe_reverse l off (delete_if P (\<lambda>e. link_of e off) f) (h, s)
      = Some ((list_entry l off, n), h', fold (\<lambda>x. f (list_entry x off)) (rev xs) s)
    \<and> dlist h' l (filter (\<lambda>x. \<not> P (list_entry x off)) xs)"
proof -
  let ?f = "\<lambda>x. f (list_entry x off)" and ?keep = "filter (\<lambda>x. \<not> P (list_entry x off))"
  let ?test = "\<lambda>(pos, n) st. map_option (\<lambda>p. (p, n)) (until_head off l pos st)"
  let ?incr = "\<lambda>(pos, n) st. (n, prev_entry off n (fst st))" and ?body = "\<lambda>(pos, n). delete_if P (\<lambda>e. link_of e off) f pos"
  let ?I = "\<lambda>ys v s'. \<exists>zs. xs = rev ys @ zs \<and> fst v = list_entry (last (l # rev ys)) off
    \<and> (ys \<noteq> [] \<longrightarrow> snd v = list_entry (last (l # rev (tl ys))) off) \<and> snd s' = fold ?f (rev zs) s \<and> dlist (fst s') l (rev ys @ ?keep zs)"
  have prev: "prev_entry off (list_entry (last (l # rev ys)) off) h' = list_entry (last (l # rev (tl ys))) off"
    if "dlist h' l (rev ys @ zs)" "ys \<noteq> []" for h' ys zs
  proof (cases ys)
    case (Cons y ys')
    then show ?thesis using dlist_middle(2)[of h' l "rev ys'" y zs] that(1) by (simp add: prev_entry_def)
  qed (use that in simp)
  have "\<exists>v' st'. c_for ?test ?incr ?body (list_entry (last (l # xs)) off, prev_entry off (list_entry (last (l # xs)) off) h) (h, s)
      = Some (v', st') \<and> ?I [] v' st'"
  proof (rule c_for_rule[where I = ?I and xs = "rev xs"])
    fix x ys v s' assume "?I (x # ys) v s'"
    then obtain zs where z: "xs = rev ys @ x # zs" "v = (list_entry x off, list_entry (last (l # rev ys)) off)"
      "snd s' = fold ?f (rev zs) s" "dlist (fst s') l (rev ys @ x # ?keep zs)"
      by (cases v) auto
    have x: "x \<noteq> l" by (rule dlist_middle(3)[OF z(4)])
    let ?s = "delete_if P (\<lambda>e. link_of e off) f (list_entry x off) s'"
    have d': "dlist (fst ?s) l (rev ys @ ?keep (x # zs))"
      using delete_if_dlist[of s' l _ x "?keep zs" "\<lambda>e. link_of e off" "\<lambda>p. list_entry p off" P f, OF z(4)] by (cases "P (list_entry x off)") simp_all
    have "?I ys (?incr v (?body v s')) (?body v s')"
      using d' z prev[OF d'] by (intro exI[of _ "x # zs"]) (simp add: delete_if_def)
    then show "\<exists>w. ?test v s' = Some w \<and> ?I ys (?incr w (?body w s')) (?body w s')"
      using x z(2) by (intro exI[of _ v]) (simp add: until_head_def)
  next
    fix v s' assume "?I [] v s'"
    then show "?test v s' = None" by (cases v) (auto simp: until_head_def)
  next
    show "?I (rev xs) (list_entry (last (l # xs)) off, prev_entry off (list_entry (last (l # xs)) off) h) (h, s)"
      using d prev[of h "rev xs" "[]"] by (intro exI[of _ "[]"]) simp
  qed
  then obtain v' st' where r: "list_for_each_entry_safe_reverse l off (delete_if P (\<lambda>e. link_of e off) f) (h, s) = Some (v', st')" "?I [] v' st'"
    using dlist_sel(2)[OF d] by (auto simp: list_for_each_entry_safe_reverse_def Let_def)
  then show ?thesis by (intro exI[of _ "snd v'"] exI[of _ "fst st'"]) (cases v'; cases st'; simp)
qed

section \<open>The macros for hash lists\<close>

text \<open>
  A cursor is null behind the last entry, which ends the loop, as a fault of the body does.
\<close>

definition hlist_entry :: "addr \<Rightarrow> nat \<Rightarrow> int" where
  "hlist_entry ptr member = container_of ptr member"

definition at_node :: "addr option \<Rightarrow> (hheap \<times> 's) res \<Rightarrow> addr option option" where
  "at_node pos st = (case st of Inl e \<Rightarrow> None | Inr _ \<Rightarrow> map_option Some pos)"

definition hnext_of :: "addr option \<Rightarrow> (hheap \<times> 's) res \<Rightarrow> addr option" where
  "hnext_of pos st = (case st of Inl e \<Rightarrow> None | Inr (h, s) \<Rightarrow> hnext (hnode h (the pos)))"

definition at_entry :: "nat \<Rightarrow> (int \<Rightarrow> hheap \<times> 's \<Rightarrow> (hheap \<times> 's) res) \<Rightarrow> addr option \<Rightarrow> (hheap \<times> 's) res \<Rightarrow> (hheap \<times> 's) res" where
  "at_entry member body pos st = bindr st (body (hlist_entry (the pos) member))"

definition hlist_for_each_entry ::
  "addr \<Rightarrow> nat \<Rightarrow> (int \<Rightarrow> hheap \<times> 's \<Rightarrow> (hheap \<times> 's) res) \<Rightarrow> hheap \<times> 's \<Rightarrow> (addr option \<times> (hheap \<times> 's) res) option" where
  "hlist_for_each_entry head member body st =
     c_for at_node hnext_of (at_entry member body) (hfirst (fst st) head) (Inr st)"

definition hlist_for_each_entry_from ::
  "addr option \<Rightarrow> nat \<Rightarrow> (int \<Rightarrow> hheap \<times> 's \<Rightarrow> (hheap \<times> 's) res) \<Rightarrow> hheap \<times> 's \<Rightarrow> (addr option \<times> (hheap \<times> 's) res) option" where
  "hlist_for_each_entry_from pos member body st = c_for at_node hnext_of (at_entry member body) pos (Inr st)"

definition hlist_for_each_entry_continue ::
  "addr option \<Rightarrow> nat \<Rightarrow> (int \<Rightarrow> hheap \<times> 's \<Rightarrow> (hheap \<times> 's) res) \<Rightarrow> hheap \<times> 's \<Rightarrow> (addr option \<times> (hheap \<times> 's) res) option" where
  "hlist_for_each_entry_continue pos member body st =
     c_for at_node hnext_of (at_entry member body) (hnext_of pos (Inr st)) (Inr st)"

text \<open>The safe variants read the next position in the test, before the body runs.\<close>

definition hlist_for_each_safe ::
  "addr \<Rightarrow> (addr \<Rightarrow> hheap \<times> 's \<Rightarrow> (hheap \<times> 's) res) \<Rightarrow> addr option \<Rightarrow> hheap \<times> 's
    \<Rightarrow> ((addr option \<times> addr option) \<times> (hheap \<times> 's) res) option" where
  "hlist_for_each_safe head body n st =
     c_for (\<lambda>(pos, n) st. map_option (\<lambda>p. (p, hnext_of p st)) (at_node pos st)) (\<lambda>(pos, n) st. (n, n))
       (\<lambda>(pos, n) st. bindr st (body (the pos))) (hfirst (fst st) head, n) (Inr st)"

definition hlist_for_each_entry_safe ::
  "addr \<Rightarrow> nat \<Rightarrow> (int \<Rightarrow> hheap \<times> 's \<Rightarrow> (hheap \<times> 's) res) \<Rightarrow> addr option \<Rightarrow> hheap \<times> 's
    \<Rightarrow> ((addr option \<times> addr option) \<times> (hheap \<times> 's) res) option" where
  "hlist_for_each_entry_safe head member body n st =
     c_for (\<lambda>(pos, n) st. map_option (\<lambda>p. (p, hnext_of p st)) (at_node pos st)) (\<lambda>(pos, n) st. (n, n))
       (\<lambda>(pos, n). at_entry member body pos) (hfirst (fst st) head, n) (Inr st)"

section \<open>What they do\<close>

definition head_of :: "addr list \<Rightarrow> addr option" where
  "head_of xs = (if xs = [] then None else Some (hd xs))"

lemma head_of_simps [simp]: "head_of [] = None" "head_of (x # xs) = Some x"
  by (simp_all add: head_of_def)

lemma chain_next: "chain h p (as @ x # bs) \<Longrightarrow> hnext (hnode h x) = head_of bs"
proof (induction as arbitrary: p)
  case Nil
  then show ?case by (cases bs) auto
qed auto

lemma hlist_next: "hlist h l (as @ x # bs) \<Longrightarrow> hnext (hnode h x) = head_of bs"
  unfolding hlist_def by (elim conjE) (rule chain_next)

lemma hlist_first: "hlist h l xs \<Longrightarrow> hfirst h l = head_of xs"
  by (cases xs) (auto simp: hlist_def)

definition keeps_hlist :: "addr \<Rightarrow> addr list \<Rightarrow> (int \<Rightarrow> hheap \<times> 's \<Rightarrow> (hheap \<times> 's) res) \<Rightarrow> bool" where
  "keeps_hlist l xs body \<longleftrightarrow> (\<forall>e st. hlist (fst st) l xs \<longrightarrow> (\<exists>st'. body e st = Inr st' \<and> hlist (fst st') l xs))"

lemma hvisits_rest:
  fixes body :: "int \<Rightarrow> hheap \<times> 's \<Rightarrow> (hheap \<times> 's) res"
  assumes d: "hlist (fst st) l (as @ bs)" and k: "keeps_hlist l (as @ bs) body"
  shows "\<exists>st'. c_for at_node hnext_of (at_entry off body) (head_of bs) (Inr st) = Some (None, Inr st')
    \<and> fold (\<lambda>x st. bindr st (body (hlist_entry x off))) bs (Inr st) = Inr st' \<and> hlist (fst st') l (as @ bs)"
proof -
  let ?f = "\<lambda>x st. bindr st (body (hlist_entry x off))"
  let ?I = "\<lambda>ys v s. \<exists>zs s0. bs = zs @ ys \<and> v = head_of ys \<and> s = fold ?f zs (Inr st) \<and> s = Inr s0 \<and> hlist (fst s0) l (as @ bs)"
  have "\<exists>v' st'. c_for at_node hnext_of (at_entry off body) (head_of bs) (Inr st) = Some (v', st') \<and> ?I [] v' st'"
  proof (rule c_for_rule[where I = ?I])
    fix x ys v s assume "?I (x # ys) v s"
    then obtain zs s0 where z: "bs = zs @ x # ys" "v = Some x" "s = fold ?f zs (Inr st)" "s = Inr s0" "hlist (fst s0) l (as @ bs)"
      by auto
    obtain s1 where s1: "body (hlist_entry x off) s0 = Inr s1" "hlist (fst s1) l ((as @ zs) @ x # ys)"
      using k[unfolded keeps_hlist_def, rule_format, of s0 "hlist_entry x off"] z(1,5) by auto
    have "?I ys (hnext_of v (at_entry off body v s)) (at_entry off body v s)"
      using z s1 hlist_next[OF s1(2)] by (intro exI[of _ "zs @ [x]"] exI[of _ s1])
        (cases s1; simp add: at_entry_def hnext_of_def flip: z(3))
    then show "\<exists>w. at_node v s = Some w \<and> ?I ys (hnext_of w (at_entry off body w s)) (at_entry off body w s)"
      using z(2,4) by (intro exI[of _ v]) (simp add: at_node_def)
  next
    fix v s assume "?I [] v s"
    then show "at_node v s = None" by (auto simp: at_node_def)
  next
    show "?I bs (head_of bs) (Inr st)" using d by (intro exI[of _ "[]"]) simp
  qed
  then show ?thesis by force
qed

lemma hlist_for_each_entry_visits:
  assumes "hlist h l xs" and "keeps_hlist l xs body"
  shows "\<exists>st'. hlist_for_each_entry l off body (h, s) = Some (None, Inr st')
    \<and> fold (\<lambda>x st. bindr st (body (hlist_entry x off))) xs (Inr (h, s)) = Inr st' \<and> hlist (fst st') l xs"
  using hvisits_rest[of "(h, s)" l "[]" xs body off] assms hlist_first[OF assms(1)] by (simp add: hlist_for_each_entry_def)

text \<open>\<^verbatim>\<open>_from\<close> starts at the entry it is given, \<^verbatim>\<open>_continue\<close> behind it.\<close>

lemma hlist_for_each_entry_from_visits:
  assumes "hlist h l (as @ x # bs)" and "keeps_hlist l (as @ x # bs) body"
  shows "\<exists>st'. hlist_for_each_entry_from (Some x) off body (h, s) = Some (None, Inr st')
    \<and> fold (\<lambda>x st. bindr st (body (hlist_entry x off))) (x # bs) (Inr (h, s)) = Inr st' \<and> hlist (fst st') l (as @ x # bs)"
  using hvisits_rest[of "(h, s)" l as "x # bs" body off] assms by (simp add: hlist_for_each_entry_from_def)

lemma hlist_for_each_entry_continue_visits:
  assumes "hlist h l (as @ x # bs)" and "keeps_hlist l (as @ x # bs) body"
  shows "\<exists>st'. hlist_for_each_entry_continue (Some x) off body (h, s) = Some (None, Inr st')
    \<and> fold (\<lambda>x st. bindr st (body (hlist_entry x off))) bs (Inr (h, s)) = Inr st' \<and> hlist (fst st') l (as @ x # bs)"
  using hvisits_rest[of "(h, s)" l "as @ [x]" bs body off] assms hlist_next[OF assms(1)]
  by (simp add: hlist_for_each_entry_continue_def hnext_of_def)

text \<open>The safe variants may delete the entry they are at.\<close>

definition hdelete_if :: "(addr \<Rightarrow> bool) \<Rightarrow> (addr \<Rightarrow> 's \<Rightarrow> 's) \<Rightarrow> addr \<Rightarrow> hheap \<times> 's \<Rightarrow> (hheap \<times> 's) res" where
  "hdelete_if P f pos st =
     bindr (if P pos then hlist_del pos (fst st) else Inr (fst st)) (\<lambda>h. Inr (h, f pos (snd st)))"

lemma hdeletes_all:
  fixes f :: "addr \<Rightarrow> 's \<Rightarrow> 's"
  assumes d: "hlist h l xs"
  shows "\<exists>n' h'. hlist_for_each_safe l (hdelete_if P f) n (h, s) = Some ((None, n'), Inr (h', fold f xs s))
    \<and> hlist h' l (filter (\<lambda>x. \<not> P x) xs)"
proof -
  let ?keep = "filter (\<lambda>x. \<not> P x)"
  let ?test = "\<lambda>(pos, n) (st :: (hheap \<times> 's) res). map_option (\<lambda>p. (p, hnext_of p st)) (at_node pos st)"
  let ?incr = "\<lambda>(pos, n) (st :: (hheap \<times> 's) res). (n, n)" and ?body = "\<lambda>(pos, n) st. bindr st (hdelete_if P f (the pos))"
  let ?I = "\<lambda>ys v (st :: (hheap \<times> 's) res). \<exists>zs h1. xs = zs @ ys \<and> fst v = head_of ys \<and> st = Inr (h1, fold f zs s) \<and> hlist h1 l (?keep zs @ ys)"
  have "\<exists>v' st'. c_for ?test ?incr ?body (head_of xs, n) (Inr (h, s)) = Some (v', st') \<and> ?I [] v' st'"
  proof (rule c_for_rule[where I = ?I])
    fix x ys v st assume "?I (x # ys) v st"
    then obtain zs h1 where z: "xs = zs @ x # ys" "fst v = Some x" "st = Inr (h1, fold f zs s)" "hlist h1 l (?keep zs @ x # ys)"
      by auto
    obtain h2 where h2: "(if P x then hlist_del x h1 else Inr h1) = Inr h2" "hlist h2 l (?keep (zs @ [x]) @ ys)"
      using hlist_del_ok[OF z(4)] z(4) by (cases "P x") auto
    have "hnext_of (Some x) st = head_of ys" using hlist_next[OF z(4)] z(3) by (simp add: hnext_of_def)
    then have "?test v st = Some (Some x, head_of ys)" using z(2,3) by (cases v) (simp add: at_node_def)
    moreover have "?body (Some x, head_of ys) st = Inr (h2, fold f (zs @ [x]) s)" using z(3) h2(1) by (cases "P x") (simp_all add: hdelete_if_def)
    then have "?I ys (?incr (Some x, head_of ys) (?body (Some x, head_of ys) st)) (?body (Some x, head_of ys) st)"
      using z(1) h2(2) by (intro exI[of _ "zs @ [x]"] exI[of _ h2]) simp
    ultimately show "\<exists>w. ?test v st = Some w \<and> ?I ys (?incr w (?body w st)) (?body w st)" by blast
  next
    fix v st assume "?I [] v st"
    then show "?test v st = None" by (cases v) (auto simp: at_node_def)
  next
    show "?I xs (head_of xs, n) (Inr (h, s))" using d by (intro exI[of _ "[]"]) simp
  qed
  then obtain v' st' where "c_for ?test ?incr ?body (head_of xs, n) (Inr (h, s)) = Some (v', st')" "?I [] v' st'" by blast
  then show ?thesis
    using hlist_first[OF d] by (cases v') (auto simp: hlist_for_each_safe_def)
qed

lemma hlist_for_each_entry_safe_deletes:
  assumes "hlist h l xs"
  shows "\<exists>n' h'. hlist_for_each_entry_safe l off (\<lambda>e. hdelete_if (\<lambda>p. P (hlist_entry p off)) (\<lambda>p. f (hlist_entry p off)) (link_of e off)) n (h, s)
      = Some ((None, n'), Inr (h', fold (\<lambda>x. f (hlist_entry x off)) xs s))
    \<and> hlist h' l (filter (\<lambda>x. \<not> P (hlist_entry x off)) xs)"
proof -
  have e: "link_of (hlist_entry p off) off = p" for p by (simp add: link_of_def hlist_entry_def container_of_def)
  show ?thesis
    using hdeletes_all[OF assms, of "\<lambda>p. P (hlist_entry p off)" "\<lambda>p. f (hlist_entry p off)" n s]
    by (simp add: hlist_for_each_safe_def hlist_for_each_entry_safe_def at_entry_def[abs_def] e)
qed

end
