(* ===== verification/Interleave.thy ===== *)
theory Interleave
  imports Races Delivery
begin

text \<open>
  The loop of \<^verbatim>\<open>deliver_msg_to_all_clients\<close> with the other threads running between its passes.
  In \<open>Steps\<close> a delivery is part of one transition. Here every pass is a transition of its own, and
  in between the writing thread may flush clients and log them out, and the listening thread may
  accept new ones. Unless a client is logged out that the loop has still to visit (the race of
  theory \<open>Races\<close>), the outcome is that of the uninterrupted loop: every receiver gets the message
  once and in one piece, whether its bytes are still in the writing buffer or already sent.
\<close>

section \<open>The transitions\<close>

record delivering =
  todo :: "nat option list"
  sent_count :: int
  dsrv :: server

datatype turn =
  Pass
| Flush_turn nat
| Logout_turn nat
| Accept_turn peer int

inductive dstep :: "(nat \<Rightarrow> string \<Rightarrow> nat \<Rightarrow> string option) \<Rightarrow> msg \<Rightarrow> bool \<Rightarrow> turn \<Rightarrow> delivering \<Rightarrow> delivering \<Rightarrow> bool"
  for inet_ntop msg to_all where
  passed: "todo d = x # xs \<Longrightarrow> deliver_loop msg to_all [x] (sent_count d) (dsrv d) = Inr (n, s)
    \<Longrightarrow> dstep inet_ntop msg to_all Pass d \<lparr>todo = xs, sent_count = n, dsrv = s\<rparr>"
| flush_turn: "flush_clients [Some i] (dsrv d) = Inr s \<Longrightarrow> dstep inet_ntop msg to_all (Flush_turn i) d (d\<lparr>dsrv := s\<rparr>)"
| logout_turn: "logout_clients [Some i] (dsrv d) = Inr s \<Longrightarrow> dstep inet_ntop msg to_all (Logout_turn i) d (d\<lparr>dsrv := s\<rparr>)"
| accept_turn: "handle_listen_round inet_ntop peer (0, 0) sock (dsrv d) = Inr s
    \<Longrightarrow> dstep inet_ntop msg to_all (Accept_turn peer sock) d (d\<lparr>dsrv := s\<rparr>)"

inductive dcrash :: "(nat \<Rightarrow> string \<Rightarrow> nat \<Rightarrow> string option) \<Rightarrow> msg \<Rightarrow> bool \<Rightarrow> turn \<Rightarrow> delivering \<Rightarrow> fault \<Rightarrow> bool"
  for inet_ntop msg to_all where
  "todo d = x # xs \<Longrightarrow> deliver_loop msg to_all [x] (sent_count d) (dsrv d) = Inl e \<Longrightarrow> dcrash inet_ntop msg to_all Pass d e"
| "flush_clients [Some i] (dsrv d) = Inl e \<Longrightarrow> dcrash inet_ntop msg to_all (Flush_turn i) d e"
| "logout_clients [Some i] (dsrv d) = Inl e \<Longrightarrow> dcrash inet_ntop msg to_all (Logout_turn i) d e"
| "handle_listen_round inet_ntop peer (0, 0) sock (dsrv d) = Inl e \<Longrightarrow> dcrash inet_ntop msg to_all (Accept_turn peer sock) d e"

text \<open>The schedule: no client is logged out that the loop has still to visit.\<close>

definition dallowed :: "turn \<Rightarrow> delivering \<Rightarrow> bool" where
  "dallowed t d = (case t of
       Pass \<Rightarrow> True
     | Flush_turn i \<Rightarrow> i \<in> set (clients (dsrv d)) \<and> healthy (dsrv d)
     | Logout_turn i \<Rightarrow> i \<in> set (clients (dsrv d)) \<and> Some i \<notin> set (todo d)
     | Accept_turn peer sock \<Rightarrow> 0 \<le> sock \<longrightarrow> sock \<notin> set (sockets (infos (dsrv d)) (clients (dsrv d))))"

section \<open>What a client has been told\<close>

text \<open>The bytes on the way to a client: those its socket took, then those that wait.\<close>

definition bytes_to :: "server \<Rightarrow> aclient \<Rightarrow> string" where
  "bytes_to s a = sent_by s (a_socket a) @ a_out a"

definition same_who :: "aclient \<Rightarrow> aclient \<Rightarrow> bool" where
  "same_who a b \<longleftrightarrow> a_socket b = a_socket a \<and> a_name b = a_name a \<and> a_pub b = a_pub a"

lemma same_who_refl [simp]: "same_who a a"
  and same_who_trans: "same_who a b \<Longrightarrow> same_who b c \<Longrightarrow> same_who a c"
  and same_who_receives: "same_who a b \<Longrightarrow> receives tgt ex b \<longleftrightarrow> receives tgt ex a"
  by (simp_all add: same_who_def receives_def)

definition notices :: "string \<Rightarrow> bool" where
  "notices t \<longleftrightarrow> (\<exists>ws. t = concat (map (\<lambda>w. sys_text (w @ '' '' @ MSG_LOGOUT_SUFFIX)) ws))"

lemma notices_simps [intro]: "notices []" "notices (sys_text (w @ '' '' @ MSG_LOGOUT_SUFFIX))"
  and notices_append [intro]: "notices t \<Longrightarrow> notices u \<Longrightarrow> notices (t @ u)"
proof -
  show "notices []" unfolding notices_def by (rule exI[of _ "[]"]) simp
  show "notices (sys_text (w @ '' '' @ MSG_LOGOUT_SUFFIX))" unfolding notices_def by (rule exI[of _ "[w]"]) simp
  assume "notices t" "notices u"
  then obtain ws us where "t = concat (map (\<lambda>w. sys_text (w @ '' '' @ MSG_LOGOUT_SUFFIX)) ws)"
    "u = concat (map (\<lambda>w. sys_text (w @ '' '' @ MSG_LOGOUT_SUFFIX)) us)" unfolding notices_def by blast
  then show "notices (t @ u)" unfolding notices_def by (intro exI[of _ "ws @ us"]) simp
qed

text \<open>Client \<open>j\<close> is the same, and was told something that satisfies \<open>told\<close>.\<close>

definition grows :: "nat \<Rightarrow> (string \<Rightarrow> bool) \<Rightarrow> server \<Rightarrow> server \<Rightarrow> bool" where
  "grows j told s s' \<longleftrightarrow> (\<forall>a. abs_srv s ! j = Some a \<longrightarrow>
     (\<exists>a' t. abs_srv s' ! j = Some a' \<and> same_who a a' \<and> told t \<and> bytes_to s' a' = bytes_to s a @ t))"

lemma grows_same: "abs_srv s' ! j = abs_srv s ! j \<Longrightarrow> sent_by s' = sent_by s \<Longrightarrow> told [] \<Longrightarrow> grows j told s s'"
  unfolding grows_def bytes_to_def by (metis append.right_neutral same_who_refl)

lemma online_at:
  assumes "server_ok held s" and "i \<in> set (clients s)"
  obtains a where "i < length (infos s)" "abs_srv s ! i = Some a"
  using online_nth[OF assms] that by blast

lemma sockets_differ:
  assumes ok: "server_ok held s" and ij: "i \<in> set (clients s)" "j \<in> set (clients s)" "i \<noteq> j"
    and "abs_srv s ! i = Some a" "abs_srv s ! j = Some b"
  shows "a_socket a \<noteq> a_socket b"
proof -
  have on: "\<forall>i \<in> set (clients s). i < length (infos s) \<and> infos s ! i \<noteq> None" "distinct (sockets (infos s) (clients s))"
    using ok by (auto simp: server_ok_def online_ok_def)
  then have "inj_on (socket_at (abs_srv s)) (set (clients s))" using sockets_abs[OF on(1)] by (metis distinct_map)
  then show ?thesis using ij assms(5,6) by (auto simp: inj_on_def socket_at_def)
qed

section \<open>The turns\<close>

lemma flush_turn_ok:
  assumes ok: "server_ok held s" and h: "healthy s" and i: "i \<in> set (clients s)"
  shows "\<exists>s'. flush_clients [Some i] s = Inr s' \<and> server_ok held s' \<and> clients s' = clients s
    \<and> length (infos s') = length (infos s) \<and> (\<forall>j \<in> set (clients s). grows j (\<lambda>t. t = []) s s')"
proof -
  obtain a where a: "i < length (infos s)" "abs_srv s ! i = Some a" by (rule online_at[OF ok i])
  have "\<forall>k \<in> set [i]. k < length (infos s) \<and> infos s ! k \<noteq> None" using a by auto
  then obtain s' where s': "flush_clients [Some i] s = Inr s'" "server_ok held s'" "same_list s s'"
    "(abs_srv s', sent_by s') = a_flush i (abs_srv s, sent_by s)"
    using flush_clients_ok[OF ok h, of "[i]"] by auto
  have "grows j (\<lambda>t. t = []) s s'" if j: "j \<in> set (clients s)" for j
  proof (cases "a_pub a = FAIL")
    case True
    then show ?thesis using s'(4) a_flush_at[OF a(2)] by (intro grows_same) simp_all
  next
    case False
    then have f: "abs_srv s' = (abs_srv s)[i := Some (a\<lparr>a_out := []\<rparr>)]"
      "sent_by s' = (sent_by s)(a_socket a := sent_by s (a_socket a) @ a_out a)"
      using s'(4) a_flush_at[OF a(2)] by simp_all
    show ?thesis
    proof (cases "j = i")
      case True
      then have "abs_srv s' ! j = Some (a\<lparr>a_out := []\<rparr>)" "abs_srv s ! j = Some a" using f(1) a by simp_all
      then show ?thesis using f(2) by (simp add: grows_def bytes_to_def same_who_def)
    next
      case False
      then have "abs_srv s' ! j = abs_srv s ! j" "b' \<noteq> a_socket a" if "abs_srv s ! j = Some b" "b' = a_socket b" for b b'
        using f(1) sockets_differ[OF ok i j _ a(2) that(1)] that(2) by auto
      then show ?thesis using f(2) by (auto simp: grows_def bytes_to_def)
    qed
  qed
  then show ?thesis using s' by (auto simp: same_list_def)
qed

lemma logout_turn_ok:
  assumes ok: "server_ok held s" and i: "i \<in> set (clients s)"
  shows "\<exists>s'. logout_clients [Some i] s = Inr s' \<and> server_ok held s' \<and> set (clients s) - {i} \<subseteq> set (clients s')
    \<and> set (clients s') \<subseteq> set (clients s) \<and> length (infos s') = length (infos s) \<and> (\<forall>j \<in> set (clients s'). grows j notices s s')"
proof -
  obtain a where a: "i < length (infos s)" "abs_srv s ! i = Some a" by (rule online_at[OF ok i])
  have d: "distinct (clients s)" using ok by (simp add: server_ok_def online_ok_def)
  obtain s' where s': "logout_clients [Some i] s = Inr s'" "server_ok held s'" "outs s' = outs s"
    "length (infos s') = length (infos s)" "(clients s', abs_srv s') = a_logout i (clients s, abs_srv s)"
    using logout_clients_ok[OF ok, of "[i]"] i by auto
  have sb: "sent_by s' = sent_by s" using s'(3) by (simp add: sent_by_def)
  show ?thesis
  proof (cases "a_pub a = FAIL")
    case False
    then have "clients s' = clients s" "abs_srv s' = abs_srv s" using s'(5) a by (simp_all add: a_logout_def)
    then show ?thesis using s' sb grows_same[of s' _ s notices] by auto
  next
    case True
    let ?cs = "remove1 i (clients s)" and ?t = "sys_text (a_name a @ '' '' @ MSG_LOGOUT_SUFFIX)"
    have e: "clients s' = ?cs" "abs_srv s' = (a_deliver ?cs CMD_TO_ALL (a_name a) ?t (abs_srv s))[i := None]"
      using s'(5) a True by (simp_all add: a_logout_def)
    have cs: "distinct ?cs" "\<forall>k \<in> set ?cs. k < length (abs_srv s)" "i \<notin> set ?cs"
      using d ok notin_set_remove1 by (auto simp: server_ok_def online_ok_def)
    have "grows j notices s s'" if j: "j \<in> set ?cs" for j
      unfolding grows_def
    proof (intro allI impI)
      fix b assume b: "abs_srv s ! j = Some b"
      have "abs_srv s' ! j = a_send CMD_TO_ALL (a_name a) ?t (Some b)"
        using j cs a_deliver_nth[OF cs(1,2)] b e(2) by (metis nth_list_update_neq)
      then show "\<exists>b' t. abs_srv s' ! j = Some b' \<and> same_who b b' \<and> notices t \<and> bytes_to s' b' = bytes_to s b @ t"
        unfolding send_out using sb notices_simps(2)[of "a_name a"] by (auto simp: same_who_def bytes_to_def)
    qed
    then show ?thesis using s' e(1) d by auto
  qed
qed

lemma accept_turn_ok:
  assumes ok: "server_ok held s" and sock: "0 \<le> sock \<longrightarrow> sock \<notin> set (sockets (infos s) (clients s))"
  shows "\<exists>s'. handle_listen_round inet_ntop peer (0, 0) sock s = Inr s' \<and> server_ok held s'
    \<and> set (clients s) \<subseteq> set (clients s') \<and> set (clients s') \<subseteq> insert (length (infos s)) (set (clients s))
    \<and> length (infos s) \<le> length (infos s') \<and> (\<forall>j \<in> set (clients s). grows j (\<lambda>t. t = []) s s')"
proof (cases "0 \<le> sock")
  case True
  then obtain s' where s': "handle_listen_round inet_ntop peer (0, 0) sock s = Inr s'" "server_ok held s'"
    "clients s' = clients s @ [length (infos s)]" "outs s' = outs s"
    "abs_srv s' = abs_srv s @ [Some \<lparr>a_socket = sock, a_name = UNKNOWN_CLIENT, a_pub = 0, a_in = [], a_out = []\<rparr>]"
    using handle_listen_round_ok[OF ok True] sock by blast
  have "abs_srv s' ! j = abs_srv s ! j" if "j \<in> set (clients s)" for j
    using online_nth[OF ok that] s'(5) by (simp add: nth_append)
  moreover have "length (infos s') = Suc (length (infos s))" using arg_cong[OF s'(5), of length] by simp
  ultimately show ?thesis using s'(1-4) by (auto simp: sent_by_def intro!: grows_same)
next
  case False
  then have "handle_listen_round inet_ntop peer (0, 0) sock s = Inr s"
    using ok by (auto simp: handle_listen_round_def deref_def server_ok_def online_ok_def)
  then show ?thesis using ok grows_same[of s _ s] by auto
qed

text \<open>A pass of the loop: the client it is at gets the line if it is a receiver.\<close>

definition line_of :: "msg \<Rightarrow> string" where
  "line_of msg = take (msg_size msg) (content msg)"

definition msg_ok :: "msg \<Rightarrow> string \<Rightarrow> string \<Rightarrow> bool" where
  "msg_ok msg tgt ex \<longleftrightarrow> target msg = Some tgt \<and> exclude msg = Some ex \<and> 0 < msg_size msg
     \<and> msg_size msg \<le> length (content msg) \<and> msg_size msg < int_max"

lemma pass_ok:
  assumes ok: "server_ok held s" and i: "i \<in> set (clients s)" and m: "msg_ok msg tgt ex" and a: "abs_srv s ! i = Some a"
  shows "\<exists>s'. deliver_loop msg (tgt = CMD_TO_ALL) [Some i] n s = Inr (n + (if receives tgt ex a then 1 else 0), s')
    \<and> server_ok held s' \<and> clients s' = clients s \<and> length (infos s') = length (infos s)
    \<and> grows i (\<lambda>t. t = (if receives tgt ex a then line_of msg else [])) s s'
    \<and> (\<forall>j \<in> set (clients s) - {i}. grows j (\<lambda>t. t = []) s s')"
proof -
  have il: "\<forall>k \<in> set [i]. k < length (infos s) \<and> infos s ! k \<noteq> None" "distinct [i]"
    using ok i by (auto simp: server_ok_def online_ok_def)
  obtain s' where s': "deliver_loop msg (tgt = CMD_TO_ALL) [Some i] n s = Inr (n + int (a_count [i] tgt ex (abs_srv s)), s')"
    "server_ok held s'" "same_online s s'" "abs_srv s' = a_deliver [i] tgt ex (line_of msg) (abs_srv s)"
    using deliver_loop_ok[OF ok il, where msg = msg and tgt = tgt and ex = ex and n = n] m
    by (auto simp: msg_ok_def line_of_def)
  have sb: "sent_by s' = sent_by s" "clients s' = clients s" "length (infos s') = length (infos s)"
    using s'(3) by (simp_all add: same_online_def sent_by_def)
  have il': "\<forall>k \<in> set [i]. k < length (abs_srv s)" using il(1) by simp
  note w = a_deliver_nth[OF il(2) il', of tgt ex "line_of msg"]
  have "abs_srv s' ! i = Some (a\<lparr>a_out := a_out a @ (if receives tgt ex a then line_of msg else [])\<rparr>)"
    using w a s'(4) send_out by simp
  then have "grows i (\<lambda>t. t = (if receives tgt ex a then line_of msg else [])) s s'"
    unfolding grows_def using a sb(1) by (simp add: same_who_def bytes_to_def)
  moreover have "grows j (\<lambda>t. t = []) s s'" if "j \<in> set (clients s) - {i}" for j
    by (rule grows_same) (use w that s'(4) sb(1) in auto)
  moreover have "int (a_count [i] tgt ex (abs_srv s)) = (if receives tgt ex a then 1 else 0)"
    using a by (simp add: a_count_def)
  ultimately show ?thesis using s'(1,2) sb by auto
qed

section \<open>The invariant\<close>

text \<open>
  Client \<open>j\<close> of the copy, compared with the start: what it was told is the line, if it has had its
  turn and is a receiver, between notices of other threads.
\<close>

definition told_line :: "server \<Rightarrow> string \<Rightarrow> string \<Rightarrow> string \<Rightarrow> bool \<Rightarrow> nat \<Rightarrow> server \<Rightarrow> bool" where
  "told_line s0 tgt ex line had j s \<longleftrightarrow> (\<forall>a0. abs_srv s0 ! j = Some a0 \<longrightarrow>
     (\<exists>a t1 t2. abs_srv s ! j = Some a \<and> same_who a0 a \<and> notices t1 \<and> notices t2
       \<and> bytes_to s a = bytes_to s0 a0 @ t1 @ (if had \<and> receives tgt ex a0 then line else []) @ t2))"

lemma told_refl: "told_line s tgt ex line False j s"
proof -
  have "bytes_to s a = bytes_to s a @ [] @ (if False \<and> receives tgt ex a then line else []) @ []" for a by simp
  then show ?thesis unfolding told_line_def using same_who_refl notices_simps(1) by blast
qed

lemma told_more:
  assumes t: "told_line s0 tgt ex line had j s" and g: "grows j notices s s'"
  shows "told_line s0 tgt ex line had j s'"
  unfolding told_line_def
proof (intro allI impI)
  fix a0 assume "abs_srv s0 ! j = Some a0"
  then obtain a t1 t2 where a: "abs_srv s ! j = Some a" "same_who a0 a" "notices t1" "notices t2"
    "bytes_to s a = bytes_to s0 a0 @ t1 @ (if had \<and> receives tgt ex a0 then line else []) @ t2"
    using t unfolding told_line_def by blast
  obtain a' u where u: "abs_srv s' ! j = Some a'" "same_who a a'" "notices u" "bytes_to s' a' = bytes_to s a @ u"
    using g a(1) unfolding grows_def by blast
  show "\<exists>a t1 t2. abs_srv s' ! j = Some a \<and> same_who a0 a \<and> notices t1 \<and> notices t2
       \<and> bytes_to s' a = bytes_to s0 a0 @ t1 @ (if had \<and> receives tgt ex a0 then line else []) @ t2"
    by (rule exI[of _ a'], rule exI[of _ t1], rule exI[of _ "t2 @ u"])
      (use a u same_who_trans[OF a(2) u(2)] notices_append in simp)
qed

lemma grows_mono: "grows j told s s' \<Longrightarrow> (\<And>t. told t \<Longrightarrow> told' t) \<Longrightarrow> grows j told' s s'"
  unfolding grows_def by blast

lemma grows_silent: "grows j (\<lambda>t. t = []) s s' \<Longrightarrow> grows j notices s s'"
  by (erule grows_mono) (auto intro: notices_simps(1))

text \<open>The pass at \<open>j\<close> itself.\<close>

lemma told_now:
  assumes t: "told_line s0 tgt ex line False j s" and a: "abs_srv s ! j = Some a"
    and g: "grows j (\<lambda>t. t = (if receives tgt ex a then line else [])) s s'" and a0: "abs_srv s0 ! j = Some a0"
  shows "told_line s0 tgt ex line True j s'" and "receives tgt ex a = receives tgt ex a0"
proof -
  obtain t1 t2 where w: "same_who a0 a" "notices t1" "notices t2" "bytes_to s a = bytes_to s0 a0 @ t1 @ t2"
    using t a a0 unfolding told_line_def by auto
  show r: "receives tgt ex a = receives tgt ex a0" by (rule same_who_receives[OF w(1)])
  obtain a' where u: "abs_srv s' ! j = Some a'" "same_who a a'" "bytes_to s' a' = bytes_to s a @ (if receives tgt ex a0 then line else [])"
    using g a r unfolding grows_def by auto
  have "\<exists>b t1 t2. abs_srv s' ! j = Some b \<and> same_who a0 b \<and> notices t1 \<and> notices t2
      \<and> bytes_to s' b = bytes_to s0 a0 @ t1 @ (if True \<and> receives tgt ex a0 then line else []) @ t2"
    by (rule exI[of _ a'], rule exI[of _ "t1 @ t2"], rule exI[of _ "[]"])
      (use u w same_who_trans[OF w(1) u(2)] notices_append notices_simps(1) in simp)
  then show "told_line s0 tgt ex line True j s'" using a0 unfolding told_line_def by simp
qed

definition dok :: "nat list \<Rightarrow> server \<Rightarrow> string \<Rightarrow> string \<Rightarrow> string \<Rightarrow> delivering \<Rightarrow> bool" where
  "dok held s0 tgt ex line d \<longleftrightarrow> server_ok held (dsrv d) \<and> length (infos s0) \<le> length (infos (dsrv d))
     \<and> (\<exists>past rest. clients s0 = past @ rest \<and> todo d = map Some rest \<and> set rest \<subseteq> set (clients (dsrv d))
       \<and> sent_count d = int (a_count past tgt ex (abs_srv s0))
       \<and> (\<forall>j \<in> set (clients s0) \<inter> set (clients (dsrv d)). told_line s0 tgt ex line (j \<in> set past) j (dsrv d)))"

lemma dokD:
  assumes "dok held s0 tgt ex line d"
  obtains past rest where "server_ok held (dsrv d)" "length (infos s0) \<le> length (infos (dsrv d))"
    "clients s0 = past @ rest" "todo d = map Some rest" "set rest \<subseteq> set (clients (dsrv d))"
    "sent_count d = int (a_count past tgt ex (abs_srv s0))"
    "\<And>j. j \<in> set (clients s0) \<Longrightarrow> j \<in> set (clients (dsrv d)) \<Longrightarrow> told_line s0 tgt ex line (j \<in> set past) j (dsrv d)"
  using assms unfolding dok_def by blast

text \<open>What the other threads do: they leave the clients to visit online and only send notices.\<close>

lemma dok_other:
  assumes d: "dok held s0 tgt ex line d" and s0: "server_ok held0 s0" and ok: "server_ok held s'"
    and l: "length (infos (dsrv d)) \<le> length (infos s')"
    and stay: "\<And>i. i \<in> set (clients (dsrv d)) \<Longrightarrow> Some i \<in> set (todo d) \<Longrightarrow> i \<in> set (clients s')"
    and new: "\<And>i. i \<in> set (clients s') \<Longrightarrow> i < length (infos s0) \<Longrightarrow> i \<in> set (clients (dsrv d))"
    and g: "\<And>j. j \<in> set (clients (dsrv d)) \<Longrightarrow> j \<in> set (clients s') \<Longrightarrow> grows j notices (dsrv d) s'"
  shows "dok held s0 tgt ex line (d\<lparr>dsrv := s'\<rparr>)"
proof -
  obtain past rest where p: "server_ok held (dsrv d)" "length (infos s0) \<le> length (infos (dsrv d))"
    "clients s0 = past @ rest" "todo d = map Some rest" "set rest \<subseteq> set (clients (dsrv d))"
    "sent_count d = int (a_count past tgt ex (abs_srv s0))"
    "\<And>j. j \<in> set (clients s0) \<Longrightarrow> j \<in> set (clients (dsrv d)) \<Longrightarrow> told_line s0 tgt ex line (j \<in> set past) j (dsrv d)"
    using dokD[OF d] by metis
  have "set rest \<subseteq> set (clients s')" using p(4,5) stay by auto
  moreover have "told_line s0 tgt ex line (j \<in> set past) j s'" if j: "j \<in> set (clients s0)" "j \<in> set (clients s')" for j
  proof -
    have "j < length (infos s0)" using online_nth[OF s0 j(1)] by blast
    then have "j \<in> set (clients (dsrv d))" using new j(2) by blast
    then show ?thesis using told_more[OF p(7)[OF j(1)] g] j(2) by blast
  qed
  ultimately show ?thesis using ok l p(2-4,6) unfolding dok_def by auto
qed

text \<open>Every turn that the schedule allows comes back, to a state that satisfies the invariant.\<close>

lemma dok_pass:
  assumes d: "dok held s0 tgt ex (line_of msg) d" and s0: "server_ok held0 s0" and m: "msg_ok msg tgt ex" and x: "todo d = x # xs"
  shows "\<exists>n s. deliver_loop msg (tgt = CMD_TO_ALL) [x] (sent_count d) (dsrv d) = Inr (n, s)
    \<and> dok held s0 tgt ex (line_of msg) \<lparr>todo = xs, sent_count = n, dsrv = s\<rparr>"
proof -
  obtain past rest where p: "server_ok held (dsrv d)" "length (infos s0) \<le> length (infos (dsrv d))"
    "clients s0 = past @ rest" "todo d = map Some rest" "set rest \<subseteq> set (clients (dsrv d))"
    "sent_count d = int (a_count past tgt ex (abs_srv s0))"
    "\<And>j. j \<in> set (clients s0) \<Longrightarrow> j \<in> set (clients (dsrv d)) \<Longrightarrow> told_line s0 tgt ex (line_of msg) (j \<in> set past) j (dsrv d)"
    using dokD[OF d] by metis
  obtain i ks where i: "rest = i # ks" "x = Some i" "xs = map Some ks" using p(4) x by (auto simp: Cons_eq_map_conv)
  have i0: "i \<in> set (clients s0)" "i \<in> set (clients (dsrv d))" using p(3,5) i(1) by auto
  have dis: "distinct (past @ i # ks)" using s0 p(3) i(1) by (simp add: server_ok_def online_ok_def)
  obtain a where a: "abs_srv (dsrv d) ! i = Some a" using online_nth[OF p(1) i0(2)] by blast
  obtain a0 where a0: "abs_srv s0 ! i = Some a0" using online_nth[OF s0 i0(1)] by blast
  obtain s where s: "deliver_loop msg (tgt = CMD_TO_ALL) [Some i] (sent_count d) (dsrv d)
      = Inr (sent_count d + (if receives tgt ex a then 1 else 0), s)" "server_ok held s" "clients s = clients (dsrv d)"
    "length (infos s) = length (infos (dsrv d))" "grows i (\<lambda>t. t = (if receives tgt ex a then line_of msg else [])) (dsrv d) s"
    "\<forall>j \<in> set (clients (dsrv d)) - {i}. grows j (\<lambda>t. t = []) (dsrv d) s"
    using pass_ok[OF p(1) i0(2) m a] by blast
  have tl: "told_line s0 tgt ex (line_of msg) False i (dsrv d)" using p(7)[OF i0] dis by simp
  note now = told_now[OF tl a s(5) a0]
  have "told_line s0 tgt ex (line_of msg) (j \<in> set (past @ [i])) j s" if j: "j \<in> set (clients s0)" "j \<in> set (clients s)" for j
  proof (cases "j = i")
    case True
    then show ?thesis using now(1) by simp
  next
    case False
    then have jd: "j \<in> set (clients (dsrv d)) - {i}" "j \<in> set (clients (dsrv d))" using j(2) s(3) by simp_all
    have "grows j notices (dsrv d) s" by (rule grows_silent[OF bspec[OF s(6) jd(1)]])
    from told_more[OF p(7)[OF j(1) jd(2)] this] show ?thesis using False by simp
  qed
  moreover have "sent_count d + (if receives tgt ex a then 1 else 0) = int (a_count (past @ [i]) tgt ex (abs_srv s0))"
    using p(6) now(2) a0 by (simp add: a_count_def)
  moreover have "set ks \<subseteq> set (clients s)" "clients s0 = (past @ [i]) @ ks" using p(3,5) i(1) s(3) by auto
  ultimately have e: "\<exists>past rest. clients s0 = past @ rest \<and> xs = map Some rest \<and> set rest \<subseteq> set (clients s)
       \<and> sent_count d + (if receives tgt ex a then 1 else 0) = int (a_count past tgt ex (abs_srv s0))
       \<and> (\<forall>j \<in> set (clients s0) \<inter> set (clients s). told_line s0 tgt ex (line_of msg) (j \<in> set past) j s)"
    using i(3) by (intro exI[of _ "past @ [i]"] exI[of _ ks]) blast
  have "dok held s0 tgt ex (line_of msg) \<lparr>todo = xs, sent_count = sent_count d + (if receives tgt ex a then 1 else 0), dsrv = s\<rparr>"
    unfolding dok_def delivering.select_convs by (rule conjI[OF s(2) conjI[OF _ e]]) (use s(4) p(2) in simp)
  then show ?thesis using s(1) unfolding i(2) by blast
qed

lemma dok_flush:
  assumes d: "dok held s0 tgt ex line d" and s0: "server_ok held0 s0" and al: "dallowed (Flush_turn i) d"
  shows "\<exists>s. flush_clients [Some i] (dsrv d) = Inr s \<and> dok held s0 tgt ex line (d\<lparr>dsrv := s\<rparr>)"
proof -
  have ok: "server_ok held (dsrv d)" by (rule dokD[OF d])
  obtain s where s: "flush_clients [Some i] (dsrv d) = Inr s" "server_ok held s" "clients s = clients (dsrv d)"
    "length (infos s) = length (infos (dsrv d))" "\<forall>j \<in> set (clients (dsrv d)). grows j (\<lambda>t. t = []) (dsrv d) s"
    using flush_turn_ok[OF ok, of i] al unfolding dallowed_def turn.case by blast
  have "dok held s0 tgt ex line (d\<lparr>dsrv := s\<rparr>)"
    by (rule dok_other[OF d s0 s(2)]) (use s grows_silent in auto)
  then show ?thesis using s(1) by blast
qed

lemma dok_logout:
  assumes d: "dok held s0 tgt ex line d" and s0: "server_ok held0 s0" and al: "dallowed (Logout_turn i) d"
  shows "\<exists>s. logout_clients [Some i] (dsrv d) = Inr s \<and> dok held s0 tgt ex line (d\<lparr>dsrv := s\<rparr>)"
proof -
  have ok: "server_ok held (dsrv d)" by (rule dokD[OF d])
  obtain s where s: "logout_clients [Some i] (dsrv d) = Inr s" "server_ok held s" "set (clients (dsrv d)) - {i} \<subseteq> set (clients s)"
    "set (clients s) \<subseteq> set (clients (dsrv d))" "length (infos s) = length (infos (dsrv d))" "\<forall>j \<in> set (clients s). grows j notices (dsrv d) s"
    using logout_turn_ok[OF ok, of i] al unfolding dallowed_def turn.case by blast
  have "dok held s0 tgt ex line (d\<lparr>dsrv := s\<rparr>)"
    by (rule dok_other[OF d s0 s(2)]) (use s al in \<open>auto simp: dallowed_def\<close>)
  then show ?thesis using s(1) by blast
qed

lemma dok_accept:
  assumes d: "dok held s0 tgt ex line d" and s0: "server_ok held0 s0" and al: "dallowed (Accept_turn peer sock) d"
  shows "\<exists>s. handle_listen_round inet_ntop peer (0, 0) sock (dsrv d) = Inr s \<and> dok held s0 tgt ex line (d\<lparr>dsrv := s\<rparr>)"
proof -
  have ok: "server_ok held (dsrv d)" and l: "length (infos s0) \<le> length (infos (dsrv d))" by (rule dokD[OF d]; assumption)+
  obtain s where s: "handle_listen_round inet_ntop peer (0, 0) sock (dsrv d) = Inr s" "server_ok held s"
    "set (clients (dsrv d)) \<subseteq> set (clients s)" "set (clients s) \<subseteq> insert (length (infos (dsrv d))) (set (clients (dsrv d)))"
    "length (infos (dsrv d)) \<le> length (infos s)" "\<forall>j \<in> set (clients (dsrv d)). grows j (\<lambda>t. t = []) (dsrv d) s"
    using accept_turn_ok[OF ok, of sock inet_ntop peer] al by (auto simp: dallowed_def)
  have "dok held s0 tgt ex line (d\<lparr>dsrv := s\<rparr>)"
    by (rule dok_other[OF d s0 s(2)]) (use s l grows_silent in auto)
  then show ?thesis using s(1) by blast
qed

lemmas loop_calls = deliver_loop.simps flush_clients.simps logout_clients.simps

lemma dstep_ok:
  assumes d: "dok held s0 tgt ex (line_of msg) d" and s0: "server_ok held0 s0" and m: "msg_ok msg tgt ex"
    and al: "dallowed t d" and st: "dstep ntop msg (tgt = CMD_TO_ALL) t d d'"
  shows "dok held s0 tgt ex (line_of msg) d'"
  using st
proof cases
  case (passed x xs n s)
  then show ?thesis using dok_pass[OF d s0 m passed(3)] by (auto simp del: loop_calls)
next
  case (flush_turn i s)
  then show ?thesis using dok_flush[OF d s0, of i] al by (auto simp del: loop_calls)
next
  case (logout_turn i s)
  then show ?thesis using dok_logout[OF d s0, of i] al by (auto simp del: loop_calls)
next
  case (accept_turn peer sock s)
  then show ?thesis using dok_accept[OF d s0, of peer sock ntop] al by (auto simp del: loop_calls)
qed

lemma dcrash_not:
  assumes d: "dok held s0 tgt ex (line_of msg) d" and s0: "server_ok held0 s0" and m: "msg_ok msg tgt ex" and al: "dallowed t d"
  shows "\<not> dcrash ntop msg (tgt = CMD_TO_ALL) t d e"
proof
  assume "dcrash ntop msg (tgt = CMD_TO_ALL) t d e"
  then show False
  proof cases
    case (1 x xs)
    then show ?thesis using dok_pass[OF d s0 m 1(2)] by (auto simp del: loop_calls)
  next
    case (2 i)
    then show ?thesis using dok_flush[OF d s0, of i] al by (auto simp del: loop_calls)
  next
    case (3 i)
    then show ?thesis using dok_logout[OF d s0, of i] al by (auto simp del: loop_calls)
  next
    case (4 peer sock)
    then show ?thesis using dok_accept[OF d s0, of peer sock ntop] al by auto
  qed
qed

interpretation dv: safe_system "dstep ntop msg (tgt = CMD_TO_ALL)" dallowed
    "\<lambda>d. server_ok held0 s0 \<and> msg_ok msg tgt ex \<and> dok held s0 tgt ex (line_of msg) d" "dcrash ntop msg (tgt = CMD_TO_ALL)"
  for ntop msg tgt ex held held0 s0
  by unfold_locales (use dstep_ok dcrash_not in blast)+

section \<open>The outcome\<close>

definition begin_delivery :: "server \<Rightarrow> delivering" where
  "begin_delivery s = \<lparr>todo = map Some (clients s), sent_count = 0, dsrv = s\<rparr>"

lemma dok_begin: "server_ok held s \<Longrightarrow> dok held s tgt ex line (begin_delivery s)"
  unfolding dok_def begin_delivery_def delivering.select_convs
  by (intro conjI exI[of _ "[]"] exI[of _ "clients s"]) (simp_all add: a_count_def told_refl)

lemma delivery_runs_ok:
  assumes s: "server_ok held s" and m: "msg_ok msg tgt ex"
    and r: "runs (dstep ntop msg (tgt = CMD_TO_ALL)) dallowed (begin_delivery s) k d"
  shows "dok held s tgt ex (line_of msg) d" and "dallowed t d \<Longrightarrow> \<not> dcrash ntop msg (tgt = CMD_TO_ALL) t d e"
  using dv.runs_ok[OF r] dv.runs_safe[OF r] s m dok_begin[OF s] by blast+

text \<open>The next pass is always possible, and after the last one the outcome is that of the plain loop.\<close>

lemma delivery_goes_on:
  assumes d: "dok held s0 tgt ex (line_of msg) d" and s0: "server_ok held0 s0" and m: "msg_ok msg tgt ex" and t: "todo d \<noteq> []"
  shows "\<exists>d'. dstep ntop msg (tgt = CMD_TO_ALL) Pass d d' \<and> Suc (length (todo d')) = length (todo d)"
proof -
  obtain x xs where x: "todo d = x # xs" using t by (cases "todo d") auto
  obtain n s where "deliver_loop msg (tgt = CMD_TO_ALL) [x] (sent_count d) (dsrv d) = Inr (n, s)"
    using dok_pass[OF d s0 m x] by blast
  then show ?thesis using passed[OF x] x by fastforce
qed

lemma delivery_done:
  assumes d: "dok held s0 tgt ex line d" and t: "todo d = []"
  shows "sent_count d = int (a_count (clients s0) tgt ex (abs_srv s0))"
    and "j \<in> set (clients s0) \<Longrightarrow> j \<in> set (clients (dsrv d)) \<Longrightarrow> told_line s0 tgt ex line True j (dsrv d)"
proof -
  obtain past rest where p: "clients s0 = past @ rest" "todo d = map Some rest" "sent_count d = int (a_count past tgt ex (abs_srv s0))"
    "\<And>j. j \<in> set (clients s0) \<Longrightarrow> j \<in> set (clients (dsrv d)) \<Longrightarrow> told_line s0 tgt ex line (j \<in> set past) j (dsrv d)"
    using dokD[OF d] by metis
  have "past = clients s0" using p(1,2) t by simp
  then show "sent_count d = int (a_count (clients s0) tgt ex (abs_srv s0))"
    "j \<in> set (clients s0) \<Longrightarrow> j \<in> set (clients (dsrv d)) \<Longrightarrow> told_line s0 tgt ex line True j (dsrv d)"
    using p(3,4) by auto
qed

text \<open>The loop that nobody interrupts is one of the runs.\<close>

lemma passes_run:
  "deliver_loop msg to_all xs n s = Inr (n', s') \<Longrightarrow>
   \<exists>k. runs (dstep ntop msg to_all) dallowed \<lparr>todo = xs @ ys, sent_count = n, dsrv = s\<rparr> k \<lparr>todo = ys, sent_count = n', dsrv = s'\<rparr>"
proof (induction xs arbitrary: ys n' s' rule: rev_induct)
  case Nil
  then show ?case by (auto intro: runs_refl)
next
  case (snoc x xs)
  obtain n1 s1 where 1: "deliver_loop msg to_all xs n s = Inr (n1, s1)" "deliver_loop msg to_all [x] n1 s1 = Inr (n', s')"
    using snoc.prems unfolding deliver_loop_append by (cases "deliver_loop msg to_all xs n s") (auto simp del: loop_calls)
  let ?d = "\<lparr>todo = x # ys, sent_count = n1, dsrv = s1\<rparr>"
  obtain k where k: "runs (dstep ntop msg to_all) dallowed \<lparr>todo = (xs @ [x]) @ ys, sent_count = n, dsrv = s\<rparr> k ?d"
    using snoc.IH[OF 1(1), of "x # ys"] by auto
  have "dstep ntop msg to_all Pass ?d \<lparr>todo = ys, sent_count = n', dsrv = s'\<rparr>"
    by (rule passed[where x = x]) (use 1(2) in \<open>simp_all del: loop_calls\<close>)
  moreover have "dallowed Pass ?d" by (simp add: dallowed_def)
  ultimately show ?case using runs_move[OF k] by auto
qed

text \<open>A run in which the writing thread flushes a client before the loop goes through the list.\<close>

lemma flushed_delivery_runs:
  assumes ok: "server_ok held s" and h: "healthy s" and i: "i \<in> set (clients s)" and m: "msg_ok msg tgt ex"
  shows "\<exists>k d. runs (dstep ntop msg (tgt = CMD_TO_ALL)) dallowed (begin_delivery s) (Suc k) d \<and> todo d = []
    \<and> clients (dsrv d) = clients s"
proof -
  obtain s1 where s1: "flush_clients [Some i] s = Inr s1" "server_ok held s1" "clients s1 = clients s"
    using flush_turn_ok[OF ok h i] by blast
  let ?b = "begin_delivery s" and ?d1 = "\<lparr>todo = map Some (clients s), sent_count = 0, dsrv = s1\<rparr>"
  have st: "dstep ntop msg (tgt = CMD_TO_ALL) (Flush_turn i) ?b ?d1"
    using flush_turn[of i ?b s1] s1(1) by (simp add: begin_delivery_def del: loop_calls)
  have al: "dallowed (Flush_turn i) ?b" using h i by (simp add: dallowed_def begin_delivery_def)
  have on: "\<forall>k \<in> set (clients s1). k < length (infos s1) \<and> infos s1 ! k \<noteq> None" "distinct (clients s1)"
    using s1(2) by (auto simp: server_ok_def online_ok_def)
  obtain n s' where s': "deliver_loop msg (tgt = CMD_TO_ALL) (map Some (clients s)) 0 s1 = Inr (n, s')" "same_online s1 s'"
    using deliver_loop_ok[OF s1(2) on, where msg = msg and tgt = tgt and ex = ex and n = 0] m s1(3)
    by (auto simp: msg_ok_def simp del: loop_calls)
  obtain k where k: "runs (dstep ntop msg (tgt = CMD_TO_ALL)) dallowed ?d1 k \<lparr>todo = [], sent_count = n, dsrv = s'\<rparr>"
    using passes_run[OF s'(1), where ys = "[]"] by auto
  from runs_first[OF k al st] show ?thesis using s'(2) s1(3) by (fastforce simp: same_online_def)
qed

end
