(* ===== verification/Logging.thy ===== *)
theory Logging
  imports NetUtil
begin

text \<open>
  The logging macros of \<^verbatim>\<open>include/common.h\<close>: what a log line looks like, and what becomes of it
  when the clock or \<^verbatim>\<open>printf\<close> fails. The macros are chains of \<^verbatim>\<open>&&\<close>: a call that returns
  0 ends the line there, while a failure of \<^verbatim>\<open>printf\<close>, which returns a negative number, does not.
  The other theories leave the log out, except where composing a line dereferences memory.
\<close>

section \<open>Clock and streams\<close>

record tm =
  tm_mon :: int
  tm_mday :: int
  tm_hour :: int
  tm_min :: int
  tm_sec :: int

text \<open>What \<^verbatim>\<open>time\<close> returns and what \<^verbatim>\<open>localtime\<close> answers (\<open>None\<close>: null).\<close>

record clock =
  time_ret :: int
  localtime :: "tm option"

text \<open>The two streams, and the outcomes of the coming calls of \<^verbatim>\<open>printf\<close> (by default it works).\<close>

record console =
  stdout :: string
  stderr :: string
  prints :: "bool list"

definition printf :: "string \<Rightarrow> console \<Rightarrow> int \<times> console" where
  "printf text con = (case prints con of
       False # bs \<Rightarrow> (- 1, con\<lparr>prints := bs\<rparr>)
     | bs \<Rightarrow> (int (length text), con\<lparr>prints := tl bs, stdout := stdout con @ text\<rparr>))"

definition fprintf_stderr :: "string \<Rightarrow> console \<Rightarrow> console" where
  "fprintf_stderr text con = con\<lparr>stderr := stderr con @ text\<rparr>"

text \<open>\<^verbatim>\<open>%02d\<close> and \<^verbatim>\<open>%-15s\<close>\<close>

definition format_02d :: "int \<Rightarrow> string" where
  "format_02d i = (if i < 0 then ''-'' @ decimal (nat (- i))
     else replicate (2 - length (decimal (nat i))) (CHR ''0'') @ decimal (nat i))"

definition format_15s :: "string \<Rightarrow> string" where
  "format_15s s = s @ replicate (15 - length s) (CHR '' '')"

section \<open>The macros\<close>

text \<open>\<open>x && y\<close> with side effects on the console.\<close>

definition and_then :: "bool \<times> console \<Rightarrow> (console \<Rightarrow> bool \<times> console) \<Rightarrow> bool \<times> console" where
  "and_then x y = (if fst x then y (snd x) else x)"

definition prints_text :: "string \<Rightarrow> console \<Rightarrow> bool \<times> console" where
  "prints_text text con = (let (n, con') = printf text con in (n \<noteq> 0, con'))"

definition time_text :: "tm \<Rightarrow> string" where
  "time_text c = format_02d (tm_mon c + 1) @ ''-'' @ format_02d (tm_mday c) @ '' '' @ format_02d (tm_hour c)
     @ '':'' @ format_02d (tm_min c) @ '':'' @ format_02d (tm_sec c) @ ''  ''"

definition TIME :: "clock \<Rightarrow> console \<Rightarrow> bool \<times> console" where
  "TIME clk con =
     and_then (time_ret clk \<noteq> 0, con) (\<lambda>con. case localtime clk of
       None \<Rightarrow> (False, con)
     | Some c \<Rightarrow> prints_text (time_text c) con)"

definition LOG_PREFIX :: "string \<Rightarrow> string \<Rightarrow> clock \<Rightarrow> console \<Rightarrow> bool \<times> console" where
  "LOG_PREFIX l t clk con = and_then (TIME clk con) (prints_text (l @ '' '' @ format_15s t))"

definition log_line :: "string \<Rightarrow> string \<Rightarrow> string \<Rightarrow> clock \<Rightarrow> console \<Rightarrow> bool \<times> console" where
  "log_line l t msg clk con =
     and_then (and_then (LOG_PREFIX l t clk con) (prints_text msg)) (prints_text [CHR 0x0A])"

definition log_D :: "string \<Rightarrow> string \<Rightarrow> clock \<Rightarrow> console \<Rightarrow> bool \<times> console" where
  "log_D t msg = log_line ''D'' t msg"

definition log_I :: "string \<Rightarrow> string \<Rightarrow> clock \<Rightarrow> console \<Rightarrow> bool \<times> console" where
  "log_I t msg = log_line ''I'' t msg"

definition log_E :: "string \<Rightarrow> string \<Rightarrow> clock \<Rightarrow> console \<Rightarrow> bool \<times> console" where
  "log_E t msg = log_line ''E'' t msg"

text \<open>\<^verbatim>\<open>err_sys\<close> ends the process: the exit status, and what is on the streams then.\<close>

definition err_sys :: "string \<Rightarrow> string \<Rightarrow> clock \<Rightarrow> console \<Rightarrow> int \<times> console" where
  "err_sys t msg clk con =
     (let con1 = snd (log_E t msg clk con)
      in (1, fprintf_stderr [CHR 0x0A] (fprintf_stderr msg con1)))"

section \<open>Log lines\<close>

lemma decimal_width: "n < 100 \<Longrightarrow> length (decimal n) = (if n < 10 then 1 else 2)"
  by (subst decimal.simps) (auto simp: decimal.simps[of "n div 10"])

lemma format_02d_width: "0 \<le> i \<Longrightarrow> i < 100 \<Longrightarrow> length (format_02d i) = 2"
  by (simp add: format_02d_def decimal_width nat_less_iff)

text \<open>A two-digit field is the number it stands for, whatever its size.\<close>

lemma format_02d_value: "0 \<le> i \<Longrightarrow> digits_value 0 (format_02d i) = i"
proof -
  have z: "\<forall>c \<in> set (replicate n (CHR ''0'')). is_digit c" "digits_value 0 (replicate n (CHR ''0'')) = 0" for n
    by (induction n) (auto simp: is_digit_def)
  assume "0 \<le> i"
  then show ?thesis using decimal_digits[of "nat i"] by (simp add: format_02d_def digits_value_append[OF z(1)] z(2))
qed

definition calendar_time :: "tm \<Rightarrow> bool" where
  "calendar_time c \<longleftrightarrow> tm_mon c \<in> {0..11} \<and> tm_mday c \<in> {1..31} \<and> tm_hour c \<in> {0..23} \<and> tm_min c \<in> {0..59} \<and> tm_sec c \<in> {0..60}"

lemma time_text_width: "calendar_time c \<Longrightarrow> length (time_text c) = 16"
  by (simp add: calendar_time_def time_text_def format_02d_width)

lemma prints_text_ok:
  "prints con = [] \<Longrightarrow> prints_text text con = (text \<noteq> [], con\<lparr>stdout := stdout con @ text\<rparr>)"
  by (simp add: prints_text_def printf_def)

text \<open>A failed \<^verbatim>\<open>printf\<close> counts as true: the rest of the line is still written.\<close>

lemma prints_text_failed: "prints con = False # bs \<Longrightarrow> prints_text text con = (True, con\<lparr>prints := bs\<rparr>)"
  by (simp add: prints_text_def printf_def)

lemma time_text_nonempty: "time_text c \<noteq> []"
  by (simp add: time_text_def)

lemma LOG_PREFIX_ok:
  assumes "time_ret clk \<noteq> 0" and "localtime clk = Some c" and "prints con = []"
  shows "LOG_PREFIX l t clk con = (True, con\<lparr>stdout := stdout con @ time_text c @ l @ '' '' @ format_15s t\<rparr>)"
  using assms by (simp add: LOG_PREFIX_def TIME_def and_then_def prints_text_ok time_text_nonempty)

text \<open>One line for a message with some text; an empty message comes without its end of line.\<close>

lemma log_line_text:
  assumes "time_ret clk \<noteq> 0" and "localtime clk = Some c" and "prints con = []"
  shows "log_line l t msg clk con = (msg \<noteq> [], con\<lparr>stdout := stdout con @ time_text c @ l @ '' '' @ format_15s t
    @ msg @ (if msg = [] then [] else [CHR 0x0A])\<rparr>)"
  using LOG_PREFIX_ok[OF assms] assms(3) by (simp add: log_line_def and_then_def prints_text_ok)

text \<open>Without a time there is no log line at all.\<close>

lemma log_line_no_time: "time_ret clk = 0 \<or> localtime clk = None \<Longrightarrow> log_line l t msg clk con = (False, con)"
  by (auto simp: log_line_def LOG_PREFIX_def TIME_def and_then_def)

text \<open>Every kind of log line can fail without changing the message on \<^verbatim>\<open>stderr\<close> or the exit status.\<close>

lemma log_line_stderr: "stderr (snd (log_line l t msg clk con)) = stderr con"
proof -
  have p: "stderr (snd (prints_text u con)) = stderr con" for u con
    by (auto simp: prints_text_def printf_def split: list.splits bool.splits prod.splits)
  have a: "(\<And>c. stderr (snd (f c)) = stderr c) \<Longrightarrow> stderr (snd (and_then x f)) = stderr (snd x)" for f x
    by (simp add: and_then_def)
  have t: "stderr (snd (TIME clk con)) = stderr con"
    unfolding TIME_def by (subst a) (auto simp: p split: option.splits)
  show ?thesis unfolding log_line_def LOG_PREFIX_def by (simp only: a p t)
qed

lemma err_sys_exits: "fst (err_sys t msg clk con) = 1"
  and err_sys_stderr: "stderr (snd (err_sys t msg clk con)) = stderr con @ msg @ [CHR 0x0A]"
  by (simp_all add: err_sys_def Let_def fprintf_stderr_def log_E_def log_line_stderr)

end
