(* ===== verification/MsgHeap.thy ===== *)
theory MsgHeap
  imports Message
begin

text \<open>
  The two blocks of a message in \<^verbatim>\<open>entity/message.c\<close>: what \<^verbatim>\<open>create_new_msg\<close> takes from
  \<^verbatim>\<open>malloc\<close> and \<^verbatim>\<open>release_msg\<close> gives back. In theory Message a message is a value; here it
  is a block that points to the block of its content. The lemmas show that both views agree, that a
  creation that fails keeps nothing, and that a message released by its owner leaves nothing behind
  and must not be released again.
\<close>

section \<open>Blocks\<close>

text \<open>A block that was freed is \<open>None\<close>; its place is not used again.\<close>

record msg_heap =
  content_blocks :: "string option list"
  msg_blocks :: "(size_t \<times> nat) option list"

definition read_block :: "nat \<Rightarrow> 'a option list \<Rightarrow> 'a res" where
  "read_block i bs = (if i < length bs then (case bs ! i of None \<Rightarrow> Inl Use_after_free | Some b \<Rightarrow> Inr b) else Inl Out_of_bounds)"

definition free_block :: "nat \<Rightarrow> 'a option list \<Rightarrow> 'a option list res" where
  "free_block i bs = bindr (read_block i bs) (\<lambda>_. Inr (bs[i := None]))"

definition in_use :: "'a option list \<Rightarrow> nat set" where
  "in_use bs = {i. i < length bs \<and> bs ! i \<noteq> None}"

definition same_use :: "msg_heap \<Rightarrow> msg_heap \<Rightarrow> bool" where
  "same_use h h' \<longleftrightarrow> in_use (content_blocks h') = in_use (content_blocks h) \<and> in_use (msg_blocks h') = in_use (msg_blocks h)"

section \<open>Creation and release\<close>

definition create_new_msg_at :: "size_t \<Rightarrow> 'a sys_scheme \<Rightarrow> msg_heap \<Rightarrow> nat option \<times> 'a sys_scheme \<times> msg_heap" where
  "create_new_msg_at sz s h =
     (case malloc s of
        (False, s1) \<Rightarrow> (None, s1, h)
      | (True, s1) \<Rightarrow>
          let c = length (content_blocks h);
              h1 = h\<lparr>content_blocks := content_blocks h @ [Some (replicate sz NUL)]\<rparr>
          in (case malloc s1 of
                (False, s2) \<Rightarrow> (None, s2, h1\<lparr>content_blocks := (content_blocks h1)[c := None]\<rparr>)
              | (True, s2) \<Rightarrow> (Some (length (msg_blocks h1)), s2, h1\<lparr>msg_blocks := msg_blocks h1 @ [Some (sz, c)]\<rparr>)))"

definition release_msg :: "nat option \<Rightarrow> msg_heap \<Rightarrow> msg_heap res" where
  "release_msg msg h =
     (case msg of
        None \<Rightarrow> Inr h
      | Some p \<Rightarrow>
          bindr (read_block p (msg_blocks h)) (\<lambda>(_, c).
          bindr (free_block c (content_blocks h)) (\<lambda>cs.
          bindr (free_block p (msg_blocks h)) (\<lambda>ms. Inr \<lparr>content_blocks = cs, msg_blocks = ms\<rparr>))))"

text \<open>The value of the message in a block that nobody has written a name to.\<close>

definition msg_at :: "nat \<Rightarrow> msg_heap \<Rightarrow> msg res" where
  "msg_at p h =
     bindr (read_block p (msg_blocks h)) (\<lambda>(sz, c).
     bindr (read_block c (content_blocks h)) (\<lambda>text.
       Inr \<lparr>target = None, exclude = None, msg_size = sz, content = text\<rparr>))"

section \<open>Properties\<close>

lemma in_use_freed: "in_use (bs @ [None]) = in_use bs"
  by (auto simp: in_use_def nth_append less_Suc_eq)

text \<open>The blocks hold the message that the function is in theory Message.\<close>

lemma create_new_msg_agrees:
  assumes "create_new_msg_at sz s h = (r, s', h')"
  shows "create_new_msg sz s = ((case r of None \<Rightarrow> None | Some p \<Rightarrow> Some (projr (msg_at p h'))), s')"
    and "r = Some p \<Longrightarrow> \<exists>m. msg_at p h' = Inr m"
  using assms
  by (auto simp: create_new_msg_at_def create_new_msg_def msg_at_def read_block_def Let_def
      split: prod.splits bool.splits)

text \<open>A creation that fails, at either call of \<^verbatim>\<open>malloc\<close>, keeps no block.\<close>

lemma failed_creation_keeps_nothing:
  "create_new_msg_at sz s h = (None, s', h') \<Longrightarrow> same_use h h'"
  by (auto simp: create_new_msg_at_def same_use_def in_use_freed Let_def split: prod.splits bool.splits)

text \<open>The owner releases the message: everything is as before, and a second release is a fault.\<close>

lemma created_and_released:
  assumes "create_new_msg_at sz s h = (Some p, s', h')"
  shows "\<exists>h2. release_msg (Some p) h' = Inr h2 \<and> same_use h h2 \<and> release_msg (Some p) h2 = Inl Use_after_free"
proof -
  let ?c = "length (content_blocks h)"
  have h': "p = length (msg_blocks h)" "h' = \<lparr>content_blocks = content_blocks h @ [Some (replicate sz NUL)],
      msg_blocks = msg_blocks h @ [Some (sz, ?c)]\<rparr>"
    using assms by (auto simp: create_new_msg_at_def Let_def split: prod.splits bool.splits)
  let ?h2 = "\<lparr>content_blocks = (content_blocks h @ [Some (replicate sz NUL)])[?c := None],
      msg_blocks = (msg_blocks h @ [Some (sz, ?c)])[p := None]\<rparr>"
  have "release_msg (Some p) h' = Inr ?h2"
    unfolding h' release_msg_def by (simp add: read_block_def free_block_def)
  moreover have "same_use h ?h2" unfolding h'(1) same_use_def by (simp add: in_use_freed)
  moreover have "release_msg (Some p) ?h2 = Inl Use_after_free"
    unfolding h'(1) release_msg_def by (simp add: read_block_def)
  ultimately show ?thesis by blast
qed

lemma release_null [simp]: "release_msg None h = Inr h"
  by (simp add: release_msg_def)

end
