(* ===== verification/Spec2Isabelle.thy ===== *)
theory Spec2Isabelle
  imports Samples Iterators Interleave Logging MsgHeap
begin

text \<open>
  A verification of the chat program of this repository: the server \<^verbatim>\<open>IMServer\<close> and the
  client \<^verbatim>\<open>IMClient\<close>, C programs for Linux.

  \<^bold>\<open>The program.\<close> Clients connect over TCP and send lines: \<^verbatim>\<open>LOGIN: name\<close>,
  \<^verbatim>\<open>TO-ALL: text\<close> and \<^verbatim>\<open>TO-C-name: text\<close>. The server has three threads. The listening
  thread accepts connections and puts a record for each at the end of a list. The reading thread
  polls the sockets, appends what arrives to the client's reading buffer, takes complete lines
  out of it, makes messages of them and appends these to the writing buffers of the receivers. The
  writing thread sends the writing buffers and logs out the clients that the reading thread has
  marked. A buffer is a list of 512-byte blocks; the blocks come from a pool that keeps what is
  given back, by size; every list is the doubly linked list of \<^verbatim>\<open>list.h\<close>.

  \<^bold>\<open>The theories\<close>, each with the part of \<^verbatim>\<open>src/\<close> it models:
  \<^item> \<open>Prelude\<close>: outcomes of C code (\<open>fault + 'a\<close>: a fault stands for undefined behaviour, a
    deadlock or a loop without end), \<^verbatim>\<open>int\<close> and \<^verbatim>\<open>size_t\<close> conversions with their
    wrap-around, \<^verbatim>\<open>string.h\<close> and \<^verbatim>\<open>sprintf\<close> on memory regions, the outcomes of \<^verbatim>\<open>malloc\<close>.
  \<^item> \<open>ListH\<close>: \<^verbatim>\<open>collections/list.h\<close> on a heap of pointers. The locale \<open>list_contract\<close> says
    what the clients rely on; its interpretation on the pointer operations is why the other
    theories may model a \<^verbatim>\<open>ListHead\<close> by the list of its entries.
  \<^item> \<open>HListH\<close>: the hash lists of the same header, which nothing in the program uses: each
    operation does to the list of entries what its name says.
  \<^item> \<open>Iterators\<close>: the traversal macros of that header, for both kinds of list, as loops with the
    caller's body as an argument (\<open>c_for\<close>): which entries they visit, in which order, and that
    the variants with a second cursor may delete what they visit.
  \<^item> \<open>Logging\<close>: the logging macros of \<^verbatim>\<open>common.h\<close> and \<^verbatim>\<open>err_sys\<close>: the text of a log line,
    and what is left of it when the clock or \<^verbatim>\<open>printf\<close> fails.
  \<^item> \<open>CacheMod\<close>: \<^verbatim>\<open>io/cache.c\<close>; locale \<open>block_pool\<close> (a held block is private to its holder).
  \<^item> \<open>Buffer\<close>: \<^verbatim>\<open>io/buffer.c\<close>; locale \<open>byte_queue\<close> (first in, first out).
  \<^item> \<open>Message\<close>, \<open>NetUtil\<close>, \<open>ClientInfo\<close>: \<^verbatim>\<open>entity/message.c\<close>, \<^verbatim>\<open>net_util.c\<close> and
    \<^verbatim>\<open>entity/client_info.c\<close> with the constants of their headers. \<open>MsgHeap\<close>: the blocks of a
    message from its creation to \<^verbatim>\<open>release_msg\<close>; elsewhere a message is a value.
  \<^item> \<open>Server\<close>: \<^verbatim>\<open>IMServer.c\<close>, every handler and one round of each thread, in the code's order.
    \<open>server\<close> is \<^verbatim>\<open>ServerInfo\<close> with the heap of client records, the pool and the sockets.
  \<^item> \<open>ServerSpec\<close>, \<open>Dispatch\<close>, \<open>Rounds\<close>, \<open>Events\<close>: the abstract server (a list of clients, each
    with socket, name, mark, waiting input and waiting output), the invariant \<open>server_ok\<close>, and
    for every operation the lemma that it returns, keeps the invariant and does to the
    abstract server what its specification (\<open>a_deliver\<close>, \<open>a_handle\<close>, \<open>a_flush\<close>, \<open>a_logout\<close>)
    says.
  \<^item> \<open>Systems\<close>: runs of a transition system in an environment; the locales \<open>guarded_system\<close> (an
    invariant), \<open>safe_system\<close> (no faults) and \<open>stopping_system\<close> (a bound on the moves left),
    which \<open>Steps\<close> and \<open>Threads\<close> interpret.
  \<^item> \<open>Steps\<close>: the three threads as a transition system (\<open>step\<close>, \<open>crash\<close>); a transition is one
    event, one client to flush or log out, one snapshot. Its invariant \<open>sys_ok\<close>, safety under
    \<open>allowed\<close> transitions, and the whole rounds of \<open>Server\<close> as runs (\<open>comes_to\<close>).
  \<^item> \<open>Races\<close>: the two schedules in which the reading thread reads a record that the writing
    thread has freed.
  \<^item> \<open>Threads\<close>: the life of the threads around \<open>Steps\<close> (\<open>alive\<close>): their creation after the first
    client, the tests of \<^verbatim>\<open>is_running\<close> at the end of their loops, the joins; the invariant
    \<open>prog_ok\<close>, the measure \<open>moves_left\<close> that bounds the moves of a server that stops, and what a
    handle that a failed \<^verbatim>\<open>pthread_create\<close> has overwritten leads to (\<open>doomed\<close>).
  \<^item> \<open>Delivery\<close>: a line from the socket of its sender to the sockets of its receivers.
  \<^item> \<open>Interleave\<close>: a delivery with the passes of its loop as transitions (\<open>dstep\<close>), between which
    the writing thread flushes and logs out clients and the listening thread accepts new ones; its
    invariant \<open>dok\<close> compares what every client has been told with the start (\<open>told_line\<close>).
  \<^item> \<open>Client\<close>: \<^verbatim>\<open>IMClient.c\<close>, the login line, the framing of typed lines, the poll loop, and
    what the server reads out of the frames.
  \<^item> \<open>Chat\<close>: a typed line from the keyboard of one client to the screens of the others, what the
    server makes of a login and of a typed line, and the lines that are too long for it
    (\<open>never_read\<close>).
  \<^item> \<open>Mains\<close>: both \<^verbatim>\<open>main\<close> functions with the outcomes of their system calls as arguments, up
    to the start of the listening thread and of the poll loop, and the end of the server's.
  \<^item> \<open>Samples\<close>: the concrete states of the witnesses.

  \<^bold>\<open>The properties\<close> C1 to C40 below follow this order: the program from end to end,
  the server and its threads, the buffers, the pool, the lists, messages and addresses, the client.

  \<^bold>\<open>What is assumed where.\<close> \<open>plenty m\<close>: \<^verbatim>\<open>malloc\<close> succeeds (C24 says what happens
  when it does not). \<open>held_ok\<close>, and with it every invariant, says which blocks are in use and which wait
  in the pool, but not that there are no others: a block may be lost (C18 shows where the code loses
  one), and that none is lost is stated where blocks are given back (C14, C30). \<open>benign_free\<close>, part of \<open>held_ok\<close>: a freed list
  node can still be read, as \<^verbatim>\<open>get_new_cache\<close> does; \<open>NUL \<in> set (slack m)\<close>: there is a zero
  byte somewhere behind a heap block, which the string functions run into, because received lines
  are not terminated. \<open>good_line\<close>: a line of at most 512 characters without a zero, and with a
  name of at most 29 characters and some text in a private message; the error properties show what
  other lines do. Loops that depend on the outside world (\<^verbatim>\<open>read\<close>, \<^verbatim>\<open>write\<close>, the lines of a
  buffer) are partial functions and the properties prove that they return; no fuel is used. A call of
  \<^verbatim>\<open>pthread_create\<close> that fails may leave the handle as it was or overwrite it (\<open>creation\<close>); both
  are modelled, and a join of a handle that no thread has is undefined (\<open>joins_nothing\<close>).
  \<^verbatim>\<open>read\<close> and \<^verbatim>\<open>write\<close> follow scripts of outcomes (\<open>read_result\<close>, \<open>write_result\<close>) that
  the properties quantify over. \<^verbatim>\<open>inet_ntop\<close> and \<^verbatim>\<open>inet_pton\<close> are parameters.

  \<^bold>\<open>Not modelled.\<close> The calls of the logging macros, except where they dereference memory;
  bare \<^verbatim>\<open>free\<close>s of values nobody can reach any more. \<^verbatim>\<open>client_count\<close> and
  \<^verbatim>\<open>sign_to_flush_msg\<close> are unbounded: that the second one, which is raised again and again and never
  taken back (C21), overflows after 2147483647 times is outside the model. A transition
  of \<open>Steps\<close> is not interrupted: the handling of one event, with its deliveries, and the
  logout of one client. For the deliveries, the longest of these parts, \<open>Interleave\<close> shows that
  the interruption makes no difference unless a client is logged out that the loop has still to
  visit, which is the race C7. Between the remaining parts (reading, taking a line, making a
  message) the thread only works on the reading buffer and the record of its own client and on
  the pool, under the lock of the pool; the data races on \<^verbatim>\<open>pub\<close> and on names are outside the
  model.
\<close>

section \<open>Properties of the server\<close>

text \<open>
  C1: what a user types appears on the screen of everyone it is meant for: the client frames the
  line, the reading thread of a calm server handles what arrives, the next round of the writing
  thread sends it, and the client that receives it writes \<^verbatim>\<open>FROM <sender>: <text>\<close>, with exactly
  the text that was typed, to its standard output.
\<close>

theorem typed_text_is_shown:
  assumes "typed_for l tgt body" and "outcomes (to_server me) = []"
    and "server_ok held s" and "calm s" and "fresh_entry p s" "info_ptr p \<in> set (clients s)"
    and "abs_srv s ! info_ptr p = Some a" "a_in a = []"
    and "j \<in> set (clients s)" "j \<noteq> info_ptr p" "abs_srv s ! j = Some b" "a_out b = []" "receives tgt (a_name a) b"
    and "outcomes (to_stdout you) = []"
  shows "\<exists>data s1 s2 shown.
      handle_stdin behind [Read_data (l @ [LF])] me = Inr (me\<lparr>to_server := (to_server me)\<lparr>sent := sent (to_server me) @ data\<rparr>\<rparr>)
    \<and> handle_event p \<lparr>revents = 1, byte_available = Some (int (length data)), incoming = [Read_data data]\<rparr> s = Inr s1
    \<and> write_sockets_round raised s1 = Inr (Some s2, s2) \<and> server_ok held s2
    \<and> sent_by s2 (a_socket b) = sent_by s (a_socket b) @ shown
    \<and> handle_socket [Read_data shown] you
        = (False, you\<lparr>to_stdout := (to_stdout you)\<lparr>sent := sent (to_stdout you) @ p2p_text (a_name a) body\<rparr>\<rparr>)"
  by (rule typed_text_arrives[OF assms])

theorem typed_text_is_shown_witness:
  "\<exists>data s1 s2 shown.
      handle_stdin [] [Read_data (''TO-C-Bob: hi'' @ [LF])] online_client
        = Inr (online_client\<lparr>to_server := (to_server online_client)\<lparr>sent := sent (to_server online_client) @ data\<rparr>\<rparr>)
    \<and> handle_event ann_entry \<lparr>revents = 1, byte_available = Some (int (length data)), incoming = [Read_data data]\<rparr> idle_server = Inr s1
    \<and> write_sockets_round 0 s1 = Inr (Some s2, s2) \<and> server_ok [] s2
    \<and> sent_by s2 5 = sent_by idle_server 5 @ shown
    \<and> handle_socket [Read_data shown] online_client = (False, online_client\<lparr>to_stdout :=
        (to_stdout online_client)\<lparr>sent := sent (to_stdout online_client) @ p2p_text ''Ann'' ''hi''\<rparr>\<rparr>)"
proof -
  have "typed_for ''TO-C-Bob: hi'' ''Bob'' ''hi''" by (simp add: typed_for_def line_text_def wire)
  then show ?thesis
    by (rule typed_text_is_shown[OF _ _ idle_server_ok idle_calm ann_fresh, where j = 2
          and a = "\<lparr>a_socket = 4, a_name = ''Ann'', a_pub = 0, a_in = [], a_out = []\<rparr>"
          and b = "\<lparr>a_socket = 5, a_name = ''Bob'', a_pub = 0, a_in = [], a_out = []\<rparr>", unfolded aclient.select_convs])
      (unfold idle_abs, simp_all add: ann_entry_def idle_server_def sample_with_def sample_abs_def online_client_def
        receives_def UNKNOWN_CLIENT_def)
qed

text \<open>
  C2: a whole line that arrives on the idle connection of one client is handled by the reading
  thread, and the next round of the writing thread puts on the socket of every other unmarked
  client what was waiting for it and then the message, when the client is one of the receivers
  (everybody but the sender for \<^verbatim>\<open>TO-ALL\<close>, the named client for \<^verbatim>\<open>TO-C-\<close>); nobody
  else gets any of it.
\<close>

theorem line_reaches_receivers:
  assumes "server_ok held s" and "calm s" and "fresh_entry p s" "info_ptr p \<in> set (clients s)"
    and "abs_srv s ! info_ptr p = Some a" "a_in a = []" and "good_line l" "length l < 512"
    and "odd (revents ev)" "byte_available ev = Some (int (Suc (length l)))" "incoming ev = [Read_data (l @ [LF])]"
  shows "\<exists>s1 s2. handle_event p ev s = Inr s1 \<and> write_sockets_round raised s1 = Inr (Some s2, s2) \<and> server_ok held s2
    \<and> (\<forall>j \<in> set (clients s). \<forall>b. j \<noteq> info_ptr p \<longrightarrow> abs_srv s ! j = Some b \<longrightarrow> a_pub b \<noteq> FAIL \<longrightarrow>
        sent_by s2 (a_socket b) = sent_by s (a_socket b) @ a_out b @
          (case line_msg (a_name a) l of None \<Rightarrow> [] | Some (tgt, ex, t) \<Rightarrow> if receives tgt ex b then t else []))"
  by (rule line_arrives[OF assms])

definition hi_event :: event where
  "hi_event = \<lparr>revents = 1, byte_available = Some 11, incoming = [Read_data (''TO-ALL: hi'' @ [LF])]\<rparr>"

theorem line_reaches_receivers_witness:
  "\<exists>s1 s2. handle_event ann_entry hi_event idle_server = Inr s1 \<and> write_sockets_round 0 s1 = Inr (Some s2, s2)
    \<and> server_ok [] s2 \<and> (\<forall>j \<in> set (clients idle_server). \<forall>b. j \<noteq> info_ptr ann_entry \<longrightarrow> abs_srv idle_server ! j = Some b
        \<longrightarrow> a_pub b \<noteq> FAIL \<longrightarrow> sent_by s2 (a_socket b) = sent_by idle_server (a_socket b) @ a_out b @
          (case line_msg (a_name \<lparr>a_socket = 4, a_name = ''Ann'', a_pub = 0, a_in = [], a_out = []\<rparr>) ''TO-ALL: hi''
           of None \<Rightarrow> [] | Some (tgt, ex, t) \<Rightarrow> if receives tgt ex b then t else []))"
  by (rule line_reaches_receivers[OF idle_server_ok idle_calm ann_fresh])
    (unfold idle_abs, simp_all add: ann_entry_def idle_server_def sample_with_def sample_abs_def hi_event_def good_hi)

text \<open>
  C3: \<^verbatim>\<open>try_to_handle_msg\<close> returns, whatever the number of lines, and does to the server what
  the specification \<open>a_handle\<close> says for every complete line that the search finds, in their
  order; the sign for the writing thread is raised exactly if somebody was sent something.
\<close>

theorem try_to_handle_msg_refines:
  assumes "server_ok held s" and "i < length (infos s)" "abs_srv s ! i = Some a"
    and "length (concat (a_in a)) < int_max" and "\<forall>l \<in> set (fst (drain_lines (a_in a))). good_line l"
    and "a_handle_all (clients s) i (fst (drain_lines (a_in a))) (abs_srv s) = (n, v)"
  shows "\<exists>s'. try_to_handle_msg i s = Inr s' \<and> server_ok held s'
    \<and> abs_srv s' = set_in i (snd (drain_lines (a_in a))) v
    \<and> same_online (s\<lparr>sign_to_flush_msg := sign_to_flush_msg s + (if n = 0 then 0 else 1)\<rparr>) s'"
  by (rule try_to_handle_msg_ok[OF assms])

theorem try_to_handle_msg_refines_witness:
  "\<exists>s'. try_to_handle_msg 1 busy_server = Inr s' \<and> server_ok [] s'
    \<and> abs_srv s' = set_in 1 [] (snd (a_handle_all [1, 2, 3] 1 [''TO-ALL: hi''] (sample_abs [''TO-ALL: hi'' @ [LF]])))
    \<and> same_online (busy_server\<lparr>sign_to_flush_msg := sign_to_flush_msg busy_server +
        (if fst (a_handle_all [1, 2, 3] 1 [''TO-ALL: hi''] (sample_abs [''TO-ALL: hi'' @ [LF]])) = 0 then 0 else 1)\<rparr>) s'"
  by (rule try_to_handle_msg_refines[OF busy_server_ok,
        where a = "\<lparr>a_socket = 4, a_name = ''Ann'', a_pub = 0, a_in = [''TO-ALL: hi'' @ [LF]], a_out = []\<rparr>",
        unfolded aclient.select_convs busy_lines fst_conv snd_conv])
    (unfold busy_abs, simp_all add: busy_server_def sample_with_def sample_abs_def int_max_def good_hi)

text \<open>
  C4: every state the three threads can reach by allowed transitions, in any order, is good:
  the invariant of the pool, of every client's buffers, of the list of clients and of the
  reading thread's snapshot holds.
\<close>

theorem reachable_states_ok:
  assumes "reach ntop y n y'" and "sys_ok held y"
  shows "sys_ok held y'"
  by (rule sv.runs_ok[OF assms])

theorem reachable_states_ok_witness:
  "\<exists>y. step (\<lambda>_ _ _. None) List_clients (start idle_server) y \<and> sys_ok [] y"
proof -
  obtain data s where "get_polling_and_client_list (srv (start idle_server)) = Inr (Some data, s)"
    using list_step[OF idle_system_ok] by blast
  then have st: "step (\<lambda>_ _ _. None) List_clients (start idle_server) ((start idle_server)\<lparr>srv := s, reader := Listed data\<rparr>)"
    by (intro listed) (simp_all add: start_def)
  have "reach (\<lambda>_ _ _. None) (start idle_server) 1 ((start idle_server)\<lparr>srv := s, reader := Listed data\<rparr>)"
    using runs_move[OF runs_refl, of allowed List_clients _ "step (\<lambda>_ _ _. None)"] st by (simp add: allowed_def)
  from reachable_states_ok[OF this idle_system_ok] st show ?thesis by blast
qed

text \<open>
  C5: in no state that the threads reach does an allowed transition run into undefined behaviour, a
  deadlock or a loop without end.
\<close>

theorem no_crash:
  assumes "reach ntop y n y'" and "sys_ok held y" and "allowed act y'"
  shows "\<not> crash ntop act y' e"
  by (rule sv.runs_safe[OF assms])

theorem no_crash_witness: "\<forall>e. \<not> crash (\<lambda>_ _ _. None) (Accept Peer_error (0, 0) 7) (start idle_server) e"
  by (rule allI, rule no_crash[OF runs_refl idle_system_ok])
    (simp add: allowed_def start_def idle_server_def sample_with_def sample_client_def sockets_def)

text \<open>
  C6: the schedule that \<open>allowed\<close> leaves out is a real one: with a marked client in the list,
  a snapshot, then a round of the writing thread, and the reading thread's \<^verbatim>\<open>DEBUG_BLOCK\<close>
  reads a record that has been freed.
\<close>

theorem debug_block_race:
  assumes "sys_ok held y" and "reader y = Between" "writer y = Resting" and "healthy (srv y)"
    and "i \<in> set (clients (srv y))" "abs_srv (srv y) ! i = Some a" "a_pub a = FAIL"
  shows "\<exists>y1 acts y2. step ntop List_clients y y1 \<and> run ntop acts y1 y2 \<and> (\<forall>act \<in> set acts. writing_action act)
    \<and> crash ntop Log_list y2 Use_after_free"
  by (rule freed_is_logged[OF assms])

theorem debug_block_race_witness:
  "\<exists>y1 acts y2. step (\<lambda>_ _ _. None) List_clients (start idle_server) y1 \<and> run (\<lambda>_ _ _. None) acts y1 y2
    \<and> (\<forall>act \<in> set acts. writing_action act) \<and> crash (\<lambda>_ _ _. None) Log_list y2 Use_after_free"
  by (rule debug_block_race[OF idle_system_ok, where i = 3
        and a = "\<lparr>a_socket = 6, a_name = ''Cid'', a_pub = FAIL, a_in = [], a_out = []\<rparr>"])
    (simp_all only: start_def system.select_convs idle_abs idle_healthy, simp_all add: idle_server_def sample_with_def sample_abs_def)

text \<open>
  C7: a second race is in every build: \<^verbatim>\<open>deliver_msg_to_all_clients\<close> works on a copy of the list,
  and a client that the writing thread logs out between the copy and the loop is read after it
  was freed.
\<close>

theorem delivery_race:
  assumes "server_ok held s" and "i \<in> set (clients s)" "abs_srv s ! i = Some a"
    and "target msg = Some tgt" "exclude msg = Some ex"
    and "0 < msg_size msg" "msg_size msg \<le> length (content msg)" "msg_size msg < int_max"
  shows "\<exists>arr sz s1 s2. get_client_list s = Inr (Some arr, sz, s1) \<and> user_logout i s1 = Inr s2 \<and> server_ok held s2
    \<and> deliver_loop msg (tgt = CMD_TO_ALL) (take (nat sz) arr) 0 s2 = Inl Use_after_free"
  by (rule freed_is_delivered_to[OF assms])

theorem delivery_race_witness:
  "\<exists>arr sz s1 s2. get_client_list idle_server = Inr (Some arr, sz, s1) \<and> user_logout 3 s1 = Inr s2 \<and> server_ok [] s2
    \<and> deliver_loop \<lparr>target = Some ''Bob'', exclude = Some ''Ann'', msg_size = 2, content = ''hi''\<rparr> (''Bob'' = CMD_TO_ALL)
        (take (nat sz) arr) 0 s2 = Inl Use_after_free"
  by (rule delivery_race[OF idle_server_ok,
        where a = "\<lparr>a_socket = 6, a_name = ''Cid'', a_pub = FAIL, a_in = [], a_out = []\<rparr>" and ex = "''Ann''"])
    (unfold idle_abs, simp_all add: idle_server_def sample_with_def sample_abs_def int_max_def)

text \<open>
  C8: from its first client on the server has its two working threads: as long as the listening
  thread is in its loop, a client in the list has a running reading and a running writing thread
  to serve it, and no allowed transition of any thread is a fault.
\<close>

theorem clients_are_served:
  assumes "server_ok held s" and "is_running s \<noteq> 0" and "clients s = []" and "serves ntop (launch s) n p"
  shows "(listening p = Accepting \<and> clients (srv (core p)) \<noteq> [] \<longrightarrow> reading p = Running \<and> writing p = Running)
    \<and> (allowed act (core p) \<longrightarrow> \<not> crash ntop act (core p) e)"
proof -
  have "prog_ok held p" by (rule pg.runs_ok[OF assms(4) launch_ok[OF assms(1-3)]])
  then show ?thesis using allowed_no_crash by (auto simp: prog_ok_def)
qed

theorem clients_are_served_witness:
  "\<exists>n p. serves (\<lambda>_ _ _. None) (launch empty_server) n p \<and> listening p = Accepting \<and> clients (srv (core p)) \<noteq> []
    \<and> reading p = Running \<and> writing p = Running"
proof -
  obtain y where y: "serves (\<lambda>_ _ _. None) (launch empty_server) 1 (after_accept started started y (launch empty_server))"
    "length (clients (srv y)) = 1" "client_count (srv y) \<noteq> client_count empty_server" by (rule first_client)
  let ?p = "after_accept started started y (launch empty_server)"
  have "listening ?p = Accepting" "clients (srv (core ?p)) \<noteq> []"
    using y(2,3) by (auto simp: after_accept_def create_threads_def handle_after_def started_def launch_def start_def)
  then show ?thesis using clients_are_served[OF empty_server_ok y(1)] y(1) by blast
qed

text \<open>
  C9: when a working thread cannot be created the server stops: in every state it comes to from its
  launch with \<^verbatim>\<open>is_running\<close> 0, its threads together make at most \<open>moves_left\<close> more allowed
  moves (the rounds that have begun, one more round each at most, and the joins), and as long as
  sockets take what is written to them and clients send good lines nothing blocks: either some
  thread can move, or the listening thread has returned, or it has come to the join of a handle
  that a failed \<^verbatim>\<open>pthread_create\<close> has overwritten, which is undefined.
\<close>

theorem server_stops:
  assumes "server_ok held s" and "is_running s \<noteq> 0" and "clients s = []" and "serves ntop (launch s) n p"
    and "is_running (srv (core p)) = 0" and "healthy (srv (core p))" and "allowed Handle (core p)"
  shows "(serves ntop p k p' \<longrightarrow> k \<le> moves_left p)
    \<and> (finished p \<or> joins_nothing p \<or> (\<exists>mv p1. allowed_move mv p \<and> alive ntop mv p p1))"
proof -
  have ok: "prog_ok held p" by (rule pg.runs_ok[OF assms(4) launch_ok[OF assms(1-3)]])
  show ?thesis using pg.runs_bounded[OF _ ok assms(5)] stopping_progress[OF ok assms(5) _ _ assms(6,7)] by blast
qed

theorem server_stops_witness:
  "\<exists>n p. serves (\<lambda>_ _ _. None) (launch empty_server) n p \<and> reading p = Running \<and> listening p = Join_reading
    \<and> (\<forall>p'. \<not> serves (\<lambda>_ _ _. None) p 8 p') \<and> (\<exists>mv p1. allowed_move mv p \<and> alive (\<lambda>_ _ _. None) mv p p1)"
proof -
  obtain y where y: "serves (\<lambda>_ _ _. None) (launch empty_server) 1 (after_accept started (refused False) y (launch empty_server))"
    "length (clients (srv y)) = 1" "client_count (srv y) \<noteq> client_count empty_server" "reader y = Between" "healthy (srv y)"
    by (rule first_client)
  let ?p = "after_accept started (refused False) y (launch empty_server)"
  have p: "core ?p = y\<lparr>srv := (srv y)\<lparr>is_running := 0\<rparr>\<rparr>" "listening ?p = Join_reading" "reading ?p = Running" "writing ?p = Not_created"
    using y(3) by (simp_all add: after_accept_def create_threads_def handle_after_def started_def refused_def leave_loop_def
        launch_def start_def)
  have "moves_left ?p = 7" using p y(2,4) by (simp add: moves_left_def reads_left_def)
  moreover have "healthy (srv (core ?p))" "allowed Handle (core ?p)" "is_running (srv (core ?p)) = 0"
    using p(1) y(4,5) by (simp_all add: healthy_def allowed_def)
  moreover have "\<not> finished ?p" "\<not> joins_nothing ?p" using p by (simp_all add: finished_def joins_nothing_def)
  ultimately have "serves (\<lambda>_ _ _. None) ?p 8 p' \<longrightarrow> (8::nat) \<le> 7"
      "\<exists>mv p1. allowed_move mv ?p \<and> alive (\<lambda>_ _ _. None) mv ?p p1" for p'
    using server_stops[OF empty_server_ok y(1), of 8 p'] server_stops[OF empty_server_ok y(1)] by auto
  then show ?thesis using y(1) p(2,3) by (intro exI[of _ 1] exI[of _ ?p]) simp
qed

text \<open>
  C10: when the listening thread has returned, every thread that was created has ended and no
  thread of the server can move any more, so that what \<^verbatim>\<open>main\<close> then releases is used by nobody,
  and the release comes back.
\<close>

theorem stopped_server_is_released:
  assumes "server_ok held s" and "is_running s \<noteq> 0" and "clients s = []" and "serves ntop (launch s) n p" and "finished p"
  shows "reading p \<in> {Not_created, Ended} \<and> writing p \<in> {Not_created, Ended} \<and> (\<nexists>mv p'. alive ntop mv p p')
    \<and> (\<exists>m. server_end (srv (core p)) = Inr m)"
proof -
  have ok: "prog_ok held p" by (rule pg.runs_ok[OF assms(4) launch_ok[OF assms(1-3)]])
  then have "\<not> alive ntop mv p p'" for mv p' using assms(5) by (auto simp: prog_ok_def finished_def elim!: alive.cases)
  moreover obtain m where "release_server_info (srv (core p)) = Inr m"
    using release_server_ok[of held] ok by (auto simp: prog_ok_def sys_ok_def)
  ultimately show ?thesis using ok assms(5) by (simp add: server_end_def prog_ok_def finished_def)
qed

theorem stopped_server_is_released_witness:
  "\<exists>n p. serves (\<lambda>_ _ _. None) (launch empty_server) n p \<and> finished p \<and> clients (srv (core p)) \<noteq> []
    \<and> (\<nexists>mv p'. alive (\<lambda>_ _ _. None) mv p p') \<and> (\<exists>m. server_end (srv (core p)) = Inr m)"
proof -
  obtain y where y: "serves (\<lambda>_ _ _. None) (launch empty_server) 1 (after_accept (refused False) started y (launch empty_server))"
    "length (clients (srv y)) = 1" "client_count (srv y) \<noteq> client_count empty_server" by (rule first_client)
  let ?p = "after_accept (refused False) started y (launch empty_server)"
  let ?q = "?p\<lparr>listening := Join_writing\<rparr>\<lparr>listening := Listener_ended\<rparr>"
  have p: "listening ?p = Join_reading" "reading ?p = Not_created" "writing ?p = Not_created" "clients (srv (core ?p)) \<noteq> []"
    using y(2,3) by (auto simp: after_accept_def create_threads_def handle_after_def refused_def leave_loop_def launch_def start_def)
  have "serves (\<lambda>_ _ _. None) (launch empty_server) (Suc 1) (?p\<lparr>listening := Join_writing\<rparr>)"
    by (rule runs_move[OF y(1), of Join]) (use p in \<open>auto simp: allowed_move_def intro: join_reading\<close>)
  then have q: "serves (\<lambda>_ _ _. None) (launch empty_server) (Suc (Suc 1)) ?q"
    by (rule runs_move[of _ _ _ _ _ Join])
      (use p join_writing[of "?p\<lparr>listening := Join_writing\<rparr>"] in \<open>simp_all add: allowed_move_def\<close>)
  moreover have "finished ?q" "clients (srv (core ?q)) \<noteq> []" using p(4) by (simp_all add: finished_def)
  ultimately show ?thesis using stopped_server_is_released[OF empty_server_ok q] by blast
qed



text \<open>
  C12: \<^verbatim>\<open>deliver_msg_to_all_clients\<close> appends the message to the writing buffer of exactly the
  online clients that are neither marked, nor the excluded one, nor without a name, and that
  the message is meant for, and returns their number.
\<close>

theorem deliver_refines:
  assumes "server_ok held s" and "target msg = Some tgt" "exclude msg = Some ex"
    and "0 < msg_size msg" "msg_size msg \<le> length (content msg)" "msg_size msg < int_max"
  shows "\<exists>s'. deliver_msg_to_all_clients s msg = Inr (int (a_count (clients s) tgt ex (abs_srv s)), s')
    \<and> server_ok held s' \<and> same_online s s'
    \<and> abs_srv s' = a_deliver (clients s) tgt ex (take (msg_size msg) (content msg)) (abs_srv s)"
  by (rule deliver_ok[OF assms]) blast

theorem deliver_refines_witness:
  "\<exists>s'. deliver_msg_to_all_clients idle_server \<lparr>target = Some ''Bob'', exclude = Some ''Ann'', msg_size = 2, content = ''hi''\<rparr>
      = Inr (int (a_count (clients idle_server) ''Bob'' ''Ann'' (abs_srv idle_server)), s')
    \<and> server_ok [] s' \<and> same_online idle_server s'
    \<and> abs_srv s' = a_deliver (clients idle_server) ''Bob'' ''Ann'' (take 2 ''hi'') (abs_srv idle_server)"
  using deliver_refines[OF idle_server_ok, of "\<lparr>target = Some ''Bob'', exclude = Some ''Ann'', msg_size = 2, content = ''hi''\<rparr>"
      "''Bob''" "''Ann''"] by (simp add: int_max_def)

text \<open>
  C13: a delivery that other threads interrupt. Between two passes of the loop of
  \<^verbatim>\<open>deliver_msg_to_all_clients\<close> the writing thread may flush clients and log out those the loop
  does not visit any more, and the listening thread may accept new ones. Nothing is a fault, the next
  pass is always possible, and after the last one the count is that of the plain loop and every
  receiver that is still online has been told the message once and in one piece, with nothing but
  notices of logouts before and behind it, whether it was sent already or still waits.
\<close>

theorem delivery_interleaved:
  assumes "server_ok held s" and "msg_ok msg tgt ex"
    and "runs (dstep ntop msg (tgt = CMD_TO_ALL)) dallowed (begin_delivery s) k d"
  shows "server_ok held (dsrv d) \<and> (\<forall>t e. dallowed t d \<longrightarrow> \<not> dcrash ntop msg (tgt = CMD_TO_ALL) t d e)
    \<and> (todo d \<noteq> [] \<longrightarrow> (\<exists>d'. dstep ntop msg (tgt = CMD_TO_ALL) Pass d d' \<and> Suc (length (todo d')) = length (todo d)))
    \<and> (todo d = [] \<longrightarrow> sent_count d = int (a_count (clients s) tgt ex (abs_srv s))
        \<and> (\<forall>j \<in> set (clients s) \<inter> set (clients (dsrv d)). told_line s tgt ex (line_of msg) True j (dsrv d)))"
proof -
  note d = delivery_runs_ok[OF assms]
  have "server_ok held (dsrv d)" by (rule dokD[OF d(1)])
  then show ?thesis using d(2) delivery_goes_on[OF d(1) assms(1,2)] delivery_done[OF d(1)] by blast
qed

theorem delivery_interleaved_witness:
  "\<exists>k d. runs (dstep (\<lambda>_ _ _. None) hi_to_bob (''Bob'' = CMD_TO_ALL)) dallowed (begin_delivery idle_server) (Suc k) d
    \<and> todo d = [] \<and> sent_count d = int (a_count (clients idle_server) ''Bob'' ''Ann'' (abs_srv idle_server))
    \<and> (\<forall>j \<in> set (clients idle_server). told_line idle_server ''Bob'' ''Ann'' ''hi'' True j (dsrv d))"
proof -
  have m: "msg_ok hi_to_bob ''Bob'' ''Ann''" "line_of hi_to_bob = ''hi''"
    by (simp_all add: msg_ok_def line_of_def hi_to_bob_def int_max_def)
  have "1 \<in> set (clients idle_server)" by (simp add: idle_server_def sample_with_def)
  then obtain k d where r: "runs (dstep (\<lambda>_ _ _. None) hi_to_bob (''Bob'' = CMD_TO_ALL)) dallowed (begin_delivery idle_server) (Suc k) d"
    "todo d = []" "clients (dsrv d) = clients idle_server"
    using flushed_delivery_runs[OF idle_server_ok idle_healthy _ m(1)] by blast
  then show ?thesis using delivery_interleaved[OF idle_server_ok m(1) r(1)] by (auto simp: m(2))
qed

text \<open>
  C14: logging a client out takes it from the list, frees its record, gives every block of its
  reading and of its writing buffer back to the pool, where it waits with nothing but zeros, closes
  its socket and tells everybody else who receives messages (who has a name, which is not the one
  of the client, and is not marked).
\<close>

theorem user_logout_refines:
  assumes "server_ok held s" and "i \<in> set (clients s)" and "abs_srv s ! i = Some a"
  shows "\<exists>s' c. infos s ! i = Some c \<and> user_logout i s = Inr s' \<and> server_ok held s' \<and> clients s' = remove1 i (clients s)
    \<and> closed s' = a_socket a # closed s
    \<and> abs_srv s' = (a_deliver (remove1 i (clients s)) CMD_TO_ALL (a_name a)
         (sys_text (a_name a @ '' '' @ MSG_LOGOUT_SUFFIX)) (abs_srv s))[i := None]
    \<and> (\<forall>n \<in> set (reading_buffer c @ writing_buffer c). waits (mem s') (node_cache n))"
proof -
  have "i < length (infos s)" using assms(1,2) by (simp add: server_ok_def online_ok_def)
  then obtain c where "infos s ! i = Some c" using client_at[OF _ assms(3)] by blast
  then show ?thesis using user_logout_ok[OF assms] by blast
qed

theorem user_logout_refines_witness:
  "\<exists>s'. user_logout 1 busy_server = Inr s' \<and> server_ok [] s' \<and> clients s' = remove1 1 (clients busy_server)
    \<and> closed s' = 4 # closed busy_server
    \<and> abs_srv s' = (a_deliver (remove1 1 (clients busy_server)) CMD_TO_ALL ''Ann''
         (sys_text (''Ann'' @ '' '' @ MSG_LOGOUT_SUFFIX)) (abs_srv busy_server))[1 := None]
    \<and> waits (mem s') 0"
proof -
  have i: "1 \<in> set (clients busy_server)" and
    a: "abs_srv busy_server ! 1 = Some \<lparr>a_socket = 4, a_name = ''Ann'', a_pub = 0, a_in = [''TO-ALL: hi'' @ [LF]], a_out = []\<rparr>"
    by (simp add: busy_server_def sample_with_def) (unfold busy_abs, simp add: sample_abs_def)
  have c: "infos busy_server ! 1 = Some (sample_client 4 ''Ann'' 0 [\<lparr>w_offset = 11, r_offset = 0, node_cache = 0\<rparr>])"
    by (simp add: busy_server_def sample_with_def)
  from user_logout_refines[OF busy_server_ok i a] show ?thesis unfolding c aclient.select_convs
    by (simp only: option.inject) (auto simp: sample_client_def)
qed

text \<open>
  C15: a round of the writing thread sends everything that waits for unmarked clients
  (\<open>a_flush\<close>) and then logs out the marked ones (\<open>a_logout\<close>), each in the order of the
  list; it always comes back.
\<close>

theorem write_round_refines:
  assumes "server_ok held s" and "healthy s"
  shows "\<exists>s'. write_sockets_round raised s = Inr (Some s', s') \<and> server_ok held s'
    \<and> (case fold a_flush (clients s) (abs_srv s, sent_by s) of (v, sn) \<Rightarrow>
        sent_by s' = sn \<and> (clients s', abs_srv s') = fold a_logout (clients s) (clients s, v))"
  using write_sockets_round_ok[OF assms, of raised] by (elim exE conjE) (intro exI conjI)

theorem write_round_refines_witness:
  "\<exists>s'. write_sockets_round 0 idle_server = Inr (Some s', s') \<and> server_ok [] s'
    \<and> (case fold a_flush (clients idle_server) (abs_srv idle_server, sent_by idle_server) of (v, sn) \<Rightarrow>
        sent_by s' = sn \<and> (clients s', abs_srv s') = fold a_logout (clients idle_server) (clients idle_server, v))"
  by (rule write_round_refines[OF idle_server_ok idle_healthy])

text \<open>C16: a client that is marked as gone is logged out by the next round of the writing thread.\<close>

theorem marked_is_logged_out:
  assumes "server_ok held s" and "healthy s" and "i \<in> set (clients s)" "abs_srv s ! i = Some a" "a_pub a = FAIL"
  shows "\<exists>s'. write_sockets_round raised s = Inr (Some s', s') \<and> server_ok held s'
    \<and> abs_srv s' ! i = None \<and> i \<notin> set (clients s')"
  using write_logs_out[OF assms, of raised] by blast

theorem marked_is_logged_out_witness:
  "\<exists>s'. write_sockets_round 0 idle_server = Inr (Some s', s') \<and> server_ok [] s'
    \<and> abs_srv s' ! 3 = None \<and> 3 \<notin> set (clients s')"
  by (rule marked_is_logged_out[OF idle_server_ok idle_healthy,
        where a = "\<lparr>a_socket = 6, a_name = ''Cid'', a_pub = FAIL, a_in = [], a_out = []\<rparr>"])
    (unfold idle_abs, simp_all add: idle_server_def sample_with_def sample_abs_def)

text \<open>
  C17: a connection that is accepted becomes a client at the end of the list, without a name
  and with empty buffers, and nothing else changes for the clients there are.
\<close>

theorem accept_adds_client:
  assumes "server_ok held s" and "0 \<le> sock" "sock \<notin> set (sockets (infos s) (clients s))"
  shows "\<exists>s'. handle_listen_round inet_ntop peer (0, 0) sock s = Inr s' \<and> server_ok held s'
    \<and> clients s' = clients s @ [length (infos s)]
    \<and> abs_srv s' = abs_srv s @ [Some \<lparr>a_socket = sock, a_name = UNKNOWN_CLIENT, a_pub = 0, a_in = [], a_out = []\<rparr>]"
  using handle_listen_round_ok[OF assms, of inet_ntop peer] by blast

theorem accept_adds_client_witness:
  "\<exists>s'. handle_listen_round (\<lambda>_ _ _. Some ''10.0.0.7'') (Peer4 ''1234'' 5000) (0, 0) 9 idle_server = Inr s' \<and> server_ok [] s'
    \<and> clients s' = clients idle_server @ [length (infos idle_server)]
    \<and> abs_srv s' = abs_srv idle_server
        @ [Some \<lparr>a_socket = 9, a_name = UNKNOWN_CLIENT, a_pub = 0, a_in = [], a_out = []\<rparr>]"
  by (rule accept_adds_client[OF idle_server_ok])
    (simp_all add: idle_server_def sample_with_def sockets_def sample_client_def)

text \<open>
  C18: an event that is not data, or data of length 0 (the peer has closed the connection), marks the
  client. Nothing else of the server changes, with one exception: for data of length 0 on a reading
  buffer without room (an empty one, above all) \<^verbatim>\<open>read_into_buffer\<close> takes a block of 512
  bytes, which is lost: afterwards it is neither in the pool nor in a buffer of a client.
\<close>

theorem closed_connection_is_marked:
  assumes "server_ok held s" and "fresh_entry p s" and "infos s ! info_ptr p = Some c"
    and "revents ev \<noteq> 0" and "even (revents ev) \<or> byte_available ev = Some 0"
  shows "\<exists>m' s'. s' = (put_client (info_ptr p) (c\<lparr>pub := FAIL\<rparr>) s)\<lparr>mem := m'\<rparr>
    \<and> handle_event p ev s = Inr s' \<and> server_ok held s'
    \<and> abs_srv s' = (abs_srv s)[info_ptr p := Some ((abs_client (mem s) c)\<lparr>a_pub := FAIL\<rparr>)]
    \<and> (if odd (revents ev) \<and> no_room (reading_buffer c) then \<exists>b. lost s s' b else m' = mem s)"
proof -
  let ?mark = "put_client (info_ptr p) (c\<lparr>pub := FAIL\<rparr>) s"
  have "info_ptr p < length (infos s)" using assms(2) by (auto simp: fresh_entry_def)
  then have a: "abs_srv s ! info_ptr p = Some (abs_client (mem s) c)" using assms(3) by simp
  obtain s' where s': "handle_event p ev s = Inr s'" "server_ok held s'"
    "abs_srv s' = (abs_srv s)[info_ptr p := Some ((abs_client (mem s) c)\<lparr>a_pub := FAIL\<rparr>)]"
    using event_hangup[OF assms(1,2) a] event_closed[OF assms(1,2) a] assms(4,5) by blast
  have "\<exists>m'. s' = ?mark\<lparr>mem := m'\<rparr>
      \<and> (if odd (revents ev) \<and> no_room (reading_buffer c) then \<exists>b. lost s s' b else m' = mem s)"
  proof (cases "odd (revents ev)")
    case True
    then have n: "byte_available ev = Some 0" using assms(5) by simp
    show ?thesis
    proof (cases "no_room (reading_buffer c)")
      case room: True
      obtain b m' where "handle_event p ev s = Inr (?mark\<lparr>mem := m'\<rparr>)" "lost s (?mark\<lparr>mem := m'\<rparr>) b"
        by (rule event_closed_loses[OF assms(1-3) room True n])
      then show ?thesis using s'(1) room True by auto
    next
      case False
      then have "s' = ?mark\<lparr>mem := mem s\<rparr>"
        using event_closed_exact[OF assms(1-3) True n read_nothing] s'(1) by (simp add: no_room_def)
      then show ?thesis using False by auto
    qed
  next
    case False
    then have "s' = ?mark" using event_hangup_exact[OF assms(2-4)] s'(1) by simp
    then show ?thesis using False by (intro exI[of _ "mem s"]) (simp add: put_client_def)
  qed
  then show ?thesis using s' by blast
qed

theorem closed_connection_is_marked_witness:
  "\<exists>s' b. handle_event ann_entry \<lparr>revents = 1, byte_available = Some 0, incoming = []\<rparr> idle_server = Inr s'
    \<and> server_ok [] s' \<and> abs_srv s' ! 1 = Some \<lparr>a_socket = 4, a_name = ''Ann'', a_pub = FAIL, a_in = [], a_out = []\<rparr>
    \<and> lost idle_server s' b"
proof -
  have c: "infos idle_server ! info_ptr ann_entry = Some (sample_client 4 ''Ann'' 0 [])"
    by (simp add: ann_entry_def idle_server_def sample_with_def)
  have "no_room (reading_buffer (sample_client 4 ''Ann'' 0 []))" by (simp add: no_room_def sample_client_def)
  then obtain s' b where "handle_event ann_entry \<lparr>revents = 1, byte_available = Some 0, incoming = []\<rparr> idle_server = Inr s'"
    "server_ok [] s'" "lost idle_server s' b" "abs_srv s' = (abs_srv idle_server)[info_ptr ann_entry :=
      Some ((abs_client (mem idle_server) (sample_client 4 ''Ann'' 0 []))\<lparr>a_pub := FAIL\<rparr>)]"
    using closed_connection_is_marked[OF idle_server_ok ann_fresh c, of "\<lparr>revents = 1, byte_available = Some 0, incoming = []\<rparr>"]
    by auto
  then show ?thesis unfolding idle_abs
    by (auto simp: ann_entry_def sample_abs_def abs_client_def sample_client_def chunks_def contents_chunks)
qed

text \<open>
  C19: data that arrives goes behind what is waiting; then the lines that the search finds, which
  are the first complete lines of all the bytes, are handled as \<open>a_handle\<close> says.
\<close>

theorem data_event_handled:
  assumes "server_ok held s" and "fresh_entry p s" and "abs_srv s ! info_ptr p = Some a"
    and "odd (revents ev)" "byte_available ev = Some (int (length d))" "incoming ev = [Read_data d]"
    and "d \<noteq> []" "length (concat (a_in a) @ d) < int_max"
    and "\<forall>l \<in> set (full_lines (concat (a_in a) @ d)). good_line l"
  shows "\<exists>s' chs ls n v. handle_event p ev s = Inr s' \<and> server_ok held s' \<and> concat chs = concat (a_in a) @ d
    \<and> full_lines (concat chs) = fst (drain_lines chs) @ ls
    \<and> a_handle_all (clients s) (info_ptr p) (fst (drain_lines chs)) (abs_srv s) = (n, v)
    \<and> abs_srv s' = set_in (info_ptr p) (snd (drain_lines chs)) v"
proof -
  have ids: "\<forall>j \<in> set (clients s). j < length (infos s)" using assms(1) by (simp add: server_ok_def online_ok_def)
  from event_data[OF assms(1-3) ids assms(4-9)] show ?thesis using drain_prefix by metis
qed

theorem data_event_handled_witness:
  "\<exists>s' chs ls n v. handle_event ann_entry hi_event idle_server = Inr s' \<and> server_ok [] s'
    \<and> concat chs = concat (a_in \<lparr>a_socket = 4, a_name = ''Ann'', a_pub = 0, a_in = [], a_out = []\<rparr>) @ ''TO-ALL: hi'' @ [LF]
    \<and> full_lines (concat chs) = fst (drain_lines chs) @ ls
    \<and> a_handle_all (clients idle_server) (info_ptr ann_entry) (fst (drain_lines chs)) (abs_srv idle_server) = (n, v)
    \<and> abs_srv s' = set_in (info_ptr ann_entry) (snd (drain_lines chs)) v"
proof (rule data_event_handled[OF idle_server_ok ann_fresh])
  show "\<forall>l \<in> set (full_lines (concat (a_in \<lparr>a_socket = 4, a_name = ''Ann'', a_pub = 0, a_in = [], a_out = []\<rparr>)
      @ ''TO-ALL: hi'' @ [LF])). good_line l"
    using full_lines_one[of "''TO-ALL: hi''"] good_hi by simp
qed (unfold idle_abs, simp_all add: ann_entry_def sample_abs_def hi_event_def int_max_def)

text \<open>
  C20: a \<^verbatim>\<open>read\<close> that fails on an idle connection makes the server write in front of the
  buffer's list head.
\<close>

theorem failed_read_on_idle_client:
  assumes "server_ok held s" and "fresh_entry p s" and "abs_srv s ! info_ptr p = Some a" "a_in a = []"
    and "odd (revents ev)" "byte_available ev = Some (int n)" "incoming ev = [Read_fail]" "0 < n" "n < int_max"
  shows "handle_event p ev s = Inl Out_of_bounds"
  by (rule event_fail_idle[OF assms])

theorem failed_read_on_idle_client_witness:
  "handle_event ann_entry \<lparr>revents = 1, byte_available = Some (int 5), incoming = [Read_fail]\<rparr> idle_server = Inl Out_of_bounds"
  by (rule failed_read_on_idle_client[OF idle_server_ok ann_fresh,
        where a = "\<lparr>a_socket = 4, a_name = ''Ann'', a_pub = 0, a_in = [], a_out = []\<rparr>" and n = 5])
    (unfold idle_abs, simp_all add: ann_entry_def sample_abs_def int_max_def)

text \<open>
  C21: the writing thread never takes back the sign that it has something to do: once raised, it
  is not lower after a round, so the thread does not wait again.
\<close>

theorem sign_stays_raised:
  assumes "server_ok held s" and "healthy s" and "0 < sign_to_flush_msg s"
  shows "\<exists>s'. write_sockets_round raised s = Inr (Some s', s') \<and> 0 < sign_to_flush_msg s'
    \<and> sign_to_flush_msg s \<le> sign_to_flush_msg s' \<and> wait_for_messages raised s' = Inr s'"
proof -
  obtain s' where "write_sockets_round raised s = Inr (Some s', s')" "server_ok held s'"
    "sign_to_flush_msg s \<le> sign_to_flush_msg s'"
    using write_sockets_round_ok[OF assms(1,2), of raised] by (elim exE conjE) (rule that)
  then show ?thesis using wait_for_messages_ok assms(3) by fastforce
qed

theorem sign_stays_raised_witness:
  "\<exists>s'. write_sockets_round 0 (idle_server\<lparr>sign_to_flush_msg := 1\<rparr>) = Inr (Some s', s') \<and> 0 < sign_to_flush_msg s'
    \<and> sign_to_flush_msg (idle_server\<lparr>sign_to_flush_msg := 1\<rparr>) \<le> sign_to_flush_msg s' \<and> wait_for_messages 0 s' = Inr s'"
proof (rule sign_stays_raised)
  show "server_ok [] (idle_server\<lparr>sign_to_flush_msg := 1\<rparr>)" using idle_server_ok by (simp add: server_ok_def online_ok_def)
  show "healthy (idle_server\<lparr>sign_to_flush_msg := 1\<rparr>)" using idle_healthy by (simp add: healthy_def)
qed simp

text \<open>
  a new server has its own record for the listening socket, no clients, and is a good
  state, so everything above holds for what the threads make of it.
\<close>

theorem new_server_ok:
  assumes "held_ok m held" and "plenty m" and "NUL \<in> set (slack m)"
  shows "\<exists>s m'. init_server_info ntop (0, 0) 0 0 sock socks m = Inr (Some s, m') \<and> sys_ok held (start s)
    \<and> clients s = [] \<and> outs s = socks
    \<and> abs_srv s = [Some \<lparr>a_socket = sock, a_name = ''IMServer'', a_pub = 0, a_in = [], a_out = []\<rparr>]"
proof -
  obtain s m' where "init_server_info ntop (0, 0) 0 0 sock socks m = Inr (Some s, m')" "server_ok held s"
    "clients s = []" "outs s = socks" "abs_srv s = [Some \<lparr>a_socket = sock, a_name = ''IMServer'', a_pub = 0, a_in = [], a_out = []\<rparr>]"
    using init_server_info_ok[OF assms, of ntop sock socks] by blast
  then show ?thesis by (auto simp: sys_ok_def start_def reader_ok_def writer_ok_def)
qed

theorem new_server_ok_witness:
  "\<exists>s m'. init_server_info (\<lambda>_ _ _. None) (0, 0) 0 0 3 (\<lambda>_. \<lparr>outcomes = [], sent = []\<rparr>) idle_pool = Inr (Some s, m')
    \<and> sys_ok [] (start s) \<and> clients s = [] \<and> outs s = (\<lambda>_. \<lparr>outcomes = [], sent = []\<rparr>)
    \<and> abs_srv s = [Some \<lparr>a_socket = 3, a_name = ''IMServer'', a_pub = 0, a_in = [], a_out = []\<rparr>]"
  by (rule new_server_ok[OF idle_pool_ok])

text \<open>
  C22: \<^verbatim>\<open>main\<close> of the server brings a program to life that satisfies the invariant, bound to the
  port modulo 65536, exactly if the value \<^verbatim>\<open>initialise_cache_module\<close> leaves in its result
  register happens to be 0; otherwise it gives up although nothing went wrong.
\<close>

theorem server_comes_up:
  assumes "0 < n" and "n < 2 ^ 31" and "ip = ANY_HOST \<or> inet_pton AF_INET ip \<noteq> None"
    and "all_succeed os" and "held_ok m held" and "plenty m" and "NUL \<in> set (slack m)"
  shows "\<exists>a s. server_setup ntop inet_pton [prog, ip, decimal n] os socks m
      = Inr (if garbage os = 0 then Serving \<lparr>sa_family = AF_INET, sin_port = n mod 65536, sin_addr = a\<rparr> (launch s) else Exited 1)
    \<and> prog_ok held (launch s) \<and> outs s = socks"
  using server_setup_ok[where inet_pton = inet_pton and n = n and ip = ip and os = os and m = m] assms by blast

theorem server_comes_up_witness:
  "\<exists>a s. server_setup (\<lambda>_ _ _. None) (\<lambda>_ _. None) [''IMServer'', ANY_HOST, decimal 70000] \<lparr>socket_ret = 3, bind_ret = 0,
      listen_ret = 0, garbage = 0, mutex_ret = 0, cond_ret = 0, spin_rets = (0, 0), create_ret = 0\<rparr> (\<lambda>_. \<lparr>outcomes = [], sent = []\<rparr>) idle_pool
      = Inr (Serving \<lparr>sa_family = AF_INET, sin_port = 4464, sin_addr = a\<rparr> (launch s))
    \<and> prog_ok [] (launch s) \<and> outs s = (\<lambda>_. \<lparr>outcomes = [], sent = []\<rparr>)"
proof -
  let ?os = "\<lparr>socket_ret = 3, bind_ret = 0, listen_ret = 0, garbage = 0, mutex_ret = 0, cond_ret = 0,
    spin_rets = (0, 0), create_ret = 0\<rparr>"
  have "all_succeed ?os" by (simp add: all_succeed_def)
  from server_comes_up[OF _ _ _ this idle_pool_ok, of 70000 ANY_HOST "\<lambda>_ _. None"] show ?thesis by simp
qed

section \<open>Properties of the buffers\<close>

text \<open>C23: bytes written to a buffer come out behind what it held, in order, and nothing is left.\<close>

theorem buffer_roundtrip:
  assumes "buffer_ok m others nodes" and "plenty m" and "d \<noteq> []" and "length (contents m nodes) + length d < int_max"
  shows "\<exists>n1 m1 n2 m2. write_into_buffer m nodes d (length d) = Inr (length d, n1, m1)
    \<and> read_from_buffer m1 n1 (length (contents m nodes) + length d)
        = Inr (length (contents m nodes) + length d, n2, contents m nodes @ d, m2)
    \<and> contents m2 n2 = [] \<and> buffer_ok m2 others n2"
proof -
  obtain n1 m1 where w: "write_into_buffer m nodes d (length d) = Inr (length d, n1, m1)" "buffer_ok m1 others n1"
    "contents m1 n1 = contents m nodes @ d" "plenty m1"
    using write_into_buffer_plenty[OF assms(1,2), of "length d" d] assms(3,4) by auto
  moreover have "length (contents m1 n1) < 2 ^ 64" "length (contents m nodes) + length d < 2 ^ 64"
    using assms(4) w(3) by (auto simp: int_max_def)
  ultimately show ?thesis using read_from_buffer_plenty[OF w(2,4)] by fastforce
qed

theorem buffer_roundtrip_witness:
  "\<exists>n1 m1 n2 m2. write_into_buffer sample_pool sample_buffer ''!!'' (length ''!!'') = Inr (length ''!!'', n1, m1)
    \<and> read_from_buffer m1 n1 (length ''hello'' + length ''!!'')
        = Inr (length ''hello'' + length ''!!'', n2, ''hello'' @ ''!!'', m2)
    \<and> contents m2 n2 = [] \<and> buffer_ok m2 [1] n2"
  by (rule buffer_roundtrip[OF sample_ok(1,2), unfolded sample_ok(3)]) (simp_all add: int_max_def)

text \<open>
  C24: whatever \<^verbatim>\<open>malloc\<close> answers, \<^verbatim>\<open>write_into_buffer\<close> comes to one of two ends: a call of
  \<^verbatim>\<open>malloc\<close> has failed and the pool, which does not check the result, follows the null pointer;
  or the call returns, leaves a well-formed buffer with a prefix of the bytes behind what it held
  (all of them, when memory is to be had) and answers their number, or -1 when there is none.
\<close>

theorem write_appends_prefix:
  assumes "buffer_ok m others nodes" and "0 < sz" "sz \<le> length src" "sz < int_max"
  shows "write_into_buffer m nodes src sz = Inl Null_deref \<and> \<not> plenty m
    \<or> (\<exists>v nodes' m'. \<exists>k \<le> sz. write_into_buffer m nodes src sz = Inr (v, nodes', m') \<and> buffer_ok m' others nodes'
        \<and> contents m' nodes' = contents m nodes @ take k src
        \<and> (v = k \<or> k = 0 \<and> v = to_size (- 1)) \<and> (plenty m \<longrightarrow> k = sz \<and> v = sz))"
proof (cases "write_into_buffer m nodes src sz")
  case (Inl e)
  then show ?thesis using write_into_buffer_Inl[OF assms Inl] by simp
next
  case (Inr q)
  then obtain v nodes' m' where "write_into_buffer m nodes src sz = Inr (v, nodes', m')" by (cases q) auto
  then show ?thesis using write_into_buffer_Inr[OF assms] by metis
qed

definition full_buffer :: buffer where
  "full_buffer = [\<lparr>w_offset = 512, r_offset = 0, node_cache = 0\<rparr>]"

lemma full_buffer_ok: "buffer_ok (sample_pool\<lparr>mallocs := ms\<rparr>) [1] full_buffer"
  by (simp add: buffer_ok_def held_ok_def pool_ok_def pool_parts_def free_ids_def benign_free_def cache_wf_def
      blank_def class_sizes_def specified_cache_size_def nodes_ok_def node_ok_def sample_pool_def full_buffer_def)

theorem write_appends_prefix_witness:
  "(\<exists>v nodes' m'. write_into_buffer sample_pool sample_buffer ''abc'' 2 = Inr (v, nodes', m')
      \<and> buffer_ok m' [1] nodes' \<and> contents m' nodes' = ''hello'' @ ''ab'')
    \<and> write_into_buffer (sample_pool\<lparr>mallocs := [True, False]\<rparr>) full_buffer ''abc'' 2 = Inl Null_deref"
proof
  show "\<exists>v nodes' m'. write_into_buffer sample_pool sample_buffer ''abc'' 2 = Inr (v, nodes', m')
      \<and> buffer_ok m' [1] nodes' \<and> contents m' nodes' = ''hello'' @ ''ab''"
    using write_appends_prefix[OF sample_ok(1), of 2 "''abc''"] sample_ok(2) unfolding sample_ok(3) by (auto simp: int_max_def)
  let ?m = "sample_pool\<lparr>mallocs := [True, False]\<rparr>"
  have "\<exists>e. write_into_buffer ?m full_buffer ''abc'' 2 = Inl e"
    by (simp add: write_into_buffer_def first_node_def full_buffer_def attach_cache_def malloc_def sample_pool_def
        get_new_cache_def acquire_def make_sure_cache_mm_def sizeof_specified_cache_size_def specified_cache_size_def
        malloc_unchecked_def upt_rec)
  then show "write_into_buffer ?m full_buffer ''abc'' 2 = Inl Null_deref"
    using write_appends_prefix[OF full_buffer_ok, of 2 "''abc''" "[True, False]"] by (auto simp: int_max_def)
qed

text \<open>
  C25: with memory to be had and a socket that does not fail, \<^verbatim>\<open>read_into_buffer\<close> returns, and
  the bytes it took from the socket are those it has put behind what the buffer held.
\<close>

theorem read_moves_bytes:
  assumes "buffer_ok m others nodes" and "plenty m" and "0 < sz" "sz < int_max" and "fails inp = 0"
  shows "\<exists>d nodes' inp' m'. read_into_buffer m inp nodes sz = Inr (length d, nodes', inp', m') \<and> length d \<le> sz
    \<and> stream inp = d @ stream inp' \<and> contents m' nodes' = contents m nodes @ d \<and> buffer_ok m' others nodes'"
proof (cases "read_into_buffer m inp nodes sz")
  case (Inl e)
  then show ?thesis using read_into_buffer_Inl[OF assms(1,3,4)] assms(2,5) by fastforce
next
  case (Inr q)
  then obtain v nodes' inp' m' where r: "read_into_buffer m inp nodes sz = Inr (v, nodes', inp', m')" by (cases q) auto
  from assms(1,3,4) r show ?thesis
    by (cases rule: read_into_buffer_Inr) (use r assms(2,5) in auto)
qed

theorem read_moves_bytes_witness:
  "\<exists>d nodes' inp' m'. read_into_buffer sample_pool [Read_data ''abc''] sample_buffer 2 = Inr (length d, nodes', inp', m')
    \<and> length d \<le> 2 \<and> stream [Read_data ''abc''] = d @ stream inp' \<and> contents m' nodes' = ''hello'' @ d
    \<and> buffer_ok m' [1] nodes'"
  by (rule read_moves_bytes[OF sample_ok(1,2), unfolded sample_ok(3)]) (simp_all add: int_max_def)

text \<open>
  C26: a \<^verbatim>\<open>read\<close> that fails when the last node is full returns -1 and sets that node's write
  offset to -1: all the bytes of the node are lost.
\<close>

theorem failed_read_damages:
  assumes b: "buffer_ok m others nodes" and pl: "plenty m" and n: "nodes \<noteq> []" "w_offset (last nodes) = CACHE_SIZE"
    and sz: "0 < sz"
  shows "\<exists>m'. read_into_buffer m (Read_fail # inp) nodes sz
    = Inr (to_size (- 1), butlast nodes @ [(last nodes)\<lparr>w_offset := - 1\<rparr>], inp, m')"
proof -
  obtain c m1 where a: "attach_cache m = Inr (Some c, m1)" using attach_total[OF buffer_ok_held[OF b] pl] by blast
  have h: "held_ok m1 ([c] @ map node_cache nodes @ others)" using attach_ok(4)[OF a buffer_ok_held[OF b]] by simp
  have "pool_frame m m1 (set others)" by (rule pool_frame_mono[OF attach_ok(1)[OF a buffer_ok_held[OF b]]]) auto
  then have "plenty m1" using pl by (rule pool_frame_env(2))
  then obtain m2 where "iter_res recycle_cache [c] m1 = Inr m2" using recycle_each_total[OF h] by blast
  moreover have "to_int (to_size (- 1)) = - 1" by (simp add: to_int_def)
  ultimately show ?thesis
    using a n sz
    by (simp add: read_into_buffer_def first_node_def returned_def read_loop.simps Let_def cur_node_def
        error_with_read_def new_node_def del: iter_res.simps)
qed

theorem failed_read_damages_witness:
  "\<exists>m'. read_into_buffer sample_pool (Read_fail # []) full_buffer 9
    = Inr (to_size (- 1), butlast full_buffer @ [(last full_buffer)\<lparr>w_offset := - 1\<rparr>], [], m')"
  by (rule failed_read_damages[OF _ sample_ok(2)])
    (use full_buffer_ok[of "[]"] in \<open>simp_all add: full_buffer_def sample_pool_def\<close>)

text \<open>
  C27: with a socket that does not fail, \<^verbatim>\<open>write_from_buffer\<close> returns, has sent the first
  \<open>sz\<close> bytes of the buffer, in order and however many the socket took at a time, and has
  taken just these out.
\<close>

theorem write_from_buffer_sends:
  assumes "buffer_ok m others nodes" and "plenty m" and "no_write_fail s" and "sz < 2 ^ 64"
  shows "\<exists>nodes' s' m'. write_from_buffer m s nodes sz = Inr (min sz (length (contents m nodes)), nodes', s', m')
    \<and> sent s' = sent s @ take sz (contents m nodes) \<and> contents m' nodes' = drop sz (contents m nodes)
    \<and> buffer_ok m' others nodes'"
proof (cases "write_from_buffer m s nodes sz")
  case (Inl e)
  then show ?thesis using write_from_buffer_run(1)[OF assms(1,3,4)] assms(2) by blast
next
  case (Inr q)
  then obtain v nodes' s' m' where r: "write_from_buffer m s nodes sz = Inr (v, nodes', s', m')" by (cases q) auto
  then have v: "v = min sz (length (contents m nodes))" and d: "drained m others nodes s v m' nodes' s'"
    using write_from_buffer_run(2)[OF assms(1,3,4)] by blast+
  have "take v (contents m nodes) = take sz (contents m nodes)" "drop v (contents m nodes) = drop sz (contents m nodes)"
    unfolding v by (simp_all add: min_def)
  then show ?thesis using r d v by (simp add: drained_def)
qed

theorem write_from_buffer_sends_witness:
  "\<exists>nodes' s' m'. write_from_buffer sample_pool \<lparr>outcomes = [Write_some 2], sent = []\<rparr> sample_buffer 4
      = Inr (min 4 (length ''hello''), nodes', s', m')
    \<and> sent s' = sent \<lparr>outcomes = [Write_some 2], sent = []\<rparr> @ take 4 ''hello'' \<and> contents m' nodes' = drop 4 ''hello''
    \<and> buffer_ok m' [1] nodes'"
  by (rule write_from_buffer_sends[OF sample_ok(1,2), unfolded sample_ok(3)]) (simp_all add: no_write_fail_def)

text \<open>
  C28: a \<^verbatim>\<open>write\<close> that fails at the first attempt moves the read offset of the first node
  back by one (to -1 if nothing had been read from it), and the call returns the number -1 as if
  so much had been written.
\<close>

theorem failed_write_moves_back:
  assumes "buffer_ok m others (n # rest)" and "outcomes s = Write_fail # ws" and "0 < sz" "sz < 2 ^ 64"
  shows "write_from_buffer m s (n # rest) sz
    = Inr (to_size (- 1), n\<lparr>r_offset := r_offset n - 1\<rparr> # rest, s\<lparr>outcomes := ws\<rparr>, m)"
  by (rule write_from_buffer_fail[OF assms])

theorem failed_write_moves_back_witness:
  "write_from_buffer sample_pool \<lparr>outcomes = [Write_fail], sent = []\<rparr> [\<lparr>w_offset = 5, r_offset = 0, node_cache = 0\<rparr>] 5
    = Inr (to_size (- 1), [\<lparr>w_offset = 5, r_offset = - 1, node_cache = 0\<rparr>], \<lparr>outcomes = [], sent = []\<rparr>, sample_pool)"
  using failed_write_moves_back[OF sample_ok(1)[unfolded sample_buffer_def],
      of "\<lparr>outcomes = [Write_fail], sent = []\<rparr>" "[]" 5] by simp

text \<open>C29: what is written first is read first, whatever the sizes of the pieces.\<close>

theorem buffer_is_fifo:
  assumes "buffer_ok m others nodes" and "plenty m" and "contents m nodes = []"
    and "d1 \<noteq> []" "d2 \<noteq> []" "length d1 + length d2 < int_max"
  shows "\<exists>n1 m1 n2 m2 n3 m3 n4 m4. write_into_buffer m nodes d1 (length d1) = Inr (length d1, n1, m1)
    \<and> write_into_buffer m1 n1 d2 (length d2) = Inr (length d2, n2, m2)
    \<and> read_from_buffer m2 n2 (length d1) = Inr (length d1, n3, d1, m3)
    \<and> read_from_buffer m3 n3 (length d2) = Inr (length d2, n4, d2, m4) \<and> contents m4 n4 = []"
proof -
  obtain n1 m1 where w1: "write_into_buffer m nodes d1 (length d1) = Inr (length d1, n1, m1)" "buffer_ok m1 others n1"
    "plenty m1" "contents m1 n1 = d1"
    using write_into_buffer_plenty[OF assms(1,2), of "length d1" d1] assms(3,4,6) by auto
  obtain n2 m2 where w2: "write_into_buffer m1 n1 d2 (length d2) = Inr (length d2, n2, m2)" "buffer_ok m2 others n2"
    "contents m2 n2 = d1 @ d2"
    using write_into_buffer_plenty[OF w1(2,3), of "length d2" d2] w1(4) assms(5,6) by auto
  obtain s q' m' where f: "bq.puts [d1, d2] (nodes, m) = Inr s" "bq.takes [length d1, length d2] s = Inr ([d1, d2], q', m')"
    "contents m' q' = []"
    using bq.first_in_first_out[of m others nodes "[d1, d2]"] assms by (auto simp: queue_ok_def)
  have "s = (n2, m2)" using f(1) w1(1) w2(1) by (simp add: put_bytes_def)
  then obtain v3 n3 m3 v4 m4 n4 where r: "read_from_buffer m2 n2 (length d1) = Inr (v3, n3, d1, m3)"
    "read_from_buffer m3 n3 (length d2) = Inr (v4, n4, d2, m4)" "n4 = q'" "m4 = m'"
    using f(2) by (auto simp: take_bytes_def bindr_Inr_iff)
  have len: "length d1 < 2 ^ 64" "length d2 < 2 ^ 64" "length (contents m2 n2) < 2 ^ 64"
    using w2(3) assms(6) by (simp_all add: int_max_def)
  note r1 = read_from_buffer_run(2)[OF w2(2) len(1,3) r(1)]
  have "contents m3 n3 = d2" using r1 w2(3) by simp
  then have "v4 = length d2" using read_from_buffer_run(2)[OF _ len(2) _ r(2), of others] r1 len(2) by simp
  moreover have "v3 = length d1" using r1 w2(3) by simp
  ultimately show ?thesis using w1(1) w2(1) r f(3) by blast
qed

theorem buffer_is_fifo_witness:
  "\<exists>n1 m1 n2 m2 n3 m3 n4 m4. write_into_buffer idle_pool [] ''ab'' (length ''ab'') = Inr (length ''ab'', n1, m1)
    \<and> write_into_buffer m1 n1 ''c'' (length ''c'') = Inr (length ''c'', n2, m2)
    \<and> read_from_buffer m2 n2 (length ''ab'') = Inr (length ''ab'', n3, ''ab'', m3)
    \<and> read_from_buffer m3 n3 (length ''c'') = Inr (length ''c'', n4, ''c'', m4) \<and> contents m4 n4 = []"
  by (rule buffer_is_fifo[of _ "[]"])
    (use idle_pool_ok in \<open>simp_all add: buffer_ok_def nodes_ok_def contents_chunks chunks_def int_max_def\<close>)

text \<open>
  C30: destroying a buffer gives every one of its blocks back to the pool, where it waits in the
  class of its size with nothing but zeros, gives back nothing else, and touches no block of
  anybody else.
\<close>

theorem destroy_gives_back:
  assumes "buffer_ok m others nodes" and "plenty m"
  shows "\<exists>m'. destroy_buffer m nodes = Inr (0, m') \<and> (\<forall>c. waits m' c \<longleftrightarrow> c \<in> node_cache ` set nodes \<or> waits m c)
    \<and> held_ok m' others \<and> (\<forall>e \<in> set others. block m' e = block m e)"
proof (cases "destroy_buffer m nodes")
  case (Inl e)
  then show ?thesis using destroy_buffer_run(1)[OF assms(1)] assms(2) by blast
next
  case (Inr q)
  then obtain v m' where r: "destroy_buffer m nodes = Inr (v, m')" by (cases q) auto
  note d = destroy_buffer_run(2)[OF assms(1) r]
  have "block m' e = block m e" if e: "e \<in> set others" for e
    using frame_block[OF conjunct2[OF conjunct2[OF d]]] held_lt[OF buffer_ok_held[OF assms(1)], of e] e by simp
  moreover have "waits m' c \<longleftrightarrow> c \<in> node_cache ` set nodes \<or> waits m c" for c
    using destroy_buffer_run(3)[OF assms(1) r] waits_iff d buffer_ok_held[OF assms(1)] by (metis Un_iff list.set_map)
  ultimately show ?thesis using r d by blast
qed

theorem destroy_gives_back_witness:
  "\<exists>m'. destroy_buffer sample_pool sample_buffer = Inr (0, m') \<and> waits m' 0 \<and> \<not> waits sample_pool 0
    \<and> held_ok m' [1] \<and> (\<forall>e \<in> set [1]. block m' e = block sample_pool e)"
proof -
  have "0 \<in> node_cache ` set sample_buffer" "\<not> waits sample_pool 0"
    by (simp_all add: sample_buffer_def sample_pool_def waits_def)
  then show ?thesis using destroy_gives_back[OF sample_ok(1,2)] by blast
qed

text \<open>
  \<^verbatim>\<open>find_in_buffer\<close> looks at the first node only, so a line that straddles two nodes is
  never found, and on an empty buffer it answers 0, an index, instead of -1.
\<close>

theorem search_stops_at_first_node:
  "find_in_buffer m (n # rest) 0 index arg = find_in_buffer m [n] 0 index arg \<and> find_in_buffer m [] start_index index arg = Inr 0"
  using find_in_buffer_one_node find_in_buffer_empty by blast

section \<open>Properties of the pool\<close>

text \<open>
  C31: a request of at most 2048 bytes is served by a zeroed block of the smallest class that
  is big enough, and nobody else holds that block.
\<close>

theorem get_new_cache_serves:
  assumes "held_ok m used" and "plenty m" and "0 \<le> n" "n \<le> 2048"
  shows "\<exists>c m'. get_new_cache n m = Inr (Some c, m') \<and> c \<notin> set used \<and> held_ok m' (c # used)
    \<and> store m' ! c = blank (class_for n) n \<and> n \<le> class_for n \<and> (\<forall>e \<in> set used. block m' e = block m e)"
proof -
  have h: "pool_ok m used" "benign_free m" using assms(1) by (simp_all add: held_ok_def)
  obtain c m' where g: "get_new_cache n m = Inr (Some c, m')" "handed_out n m m' used c"
    using get_new_cache_small[OF h assms(2-4)] by blast
  have fr: "pool_frame m m' (set used)" using g(2) by (simp add: handed_out_def)
  have "block m' e = block m e" if "e \<in> set used" for e
    using frame_block[OF fr that held_lt[OF assms(1) that]] .
  moreover have "benign_free m'" using pool_frame_env(1)[OF fr h(2)] .
  moreover have "n \<le> class_for n" using assms(4) by (simp add: class_for_def)
  ultimately show ?thesis using g assms(4) by (auto simp: handed_out_def held_ok_def)
qed

theorem get_new_cache_serves_witness:
  "\<exists>c m'. get_new_cache 100 idle_pool = Inr (Some c, m') \<and> c \<notin> set [] \<and> held_ok m' (c # [])
    \<and> store m' ! c = blank (class_for 100) 100 \<and> 100 \<le> class_for 100 \<and> (\<forall>e \<in> set []. block m' e = block idle_pool e)"
  by (rule get_new_cache_serves[OF idle_pool_ok(1,2)]) simp_all

text \<open>
  A block that is given back is zeroed and waits in the class of its size; the blocks of
  the others are untouched.
\<close>

theorem recycle_cache_waits:
  assumes "held_ok m used" and "plenty m" and "c \<in> set used"
  shows "\<exists>m'. recycle_cache c m = Inr (0, m') \<and> held_ok m' (remove1 c used)
    \<and> waits m' c
    \<and> (\<forall>e \<in> set used - {c}. block m' e = block m e)"
proof -
  have h: "pool_ok m used" "benign_free m" using assms(1) by (simp_all add: held_ok_def)
  obtain m' where r: "recycle_cache c m = Inr (0, m')" using recycle_cache_total[OF h(1) assms(3,2)] by blast
  note k = recycle_cache_ok[OF r h(1) assms(3)]
  have "held_ok m' (remove1 c used)" using k(2) pool_frame_env(1)[OF k(3) h(2)] by (simp add: held_ok_def)
  moreover have "block m' e = block m e" if "e \<in> set used - {c}" for e
    by (rule frame_block[OF k(3)]) (use that held_lt[OF assms(1)] in auto)
  ultimately show ?thesis using r k(4) waits_iff by blast
qed

theorem recycle_cache_waits_witness:
  "\<exists>m'. recycle_cache 0 sample_pool = Inr (0, m') \<and> held_ok m' (remove1 0 [0, 1])
    \<and> waits m' 0
    \<and> (\<forall>e \<in> set [0, 1] - {0}. block m' e = block sample_pool e)"
  by (rule recycle_cache_waits[OF _ sample_ok(2)]) (use sample_ok(1) in \<open>simp_all add: buffer_ok_def sample_buffer_def\<close>)

text \<open>C32: to take a block, write to it and give it back changes nobody else's bytes.\<close>

theorem borrowing_is_private:
  assumes "get_new_cache n m = Inr (Some c, m1)" and "cache_write c off b m1 = Inr m2"
    and "recycle_cache c m2 = Inr (r, m3)" and "held_ok m us"
  shows "held_ok m3 us \<and> (\<forall>e \<in> set us. block m3 e = block m e)"
  using bp.borrow[OF assms] by blast

theorem borrowing_is_private_witness:
  "\<exists>c m1 m2 r m3. get_new_cache 3 sample_pool = Inr (Some c, m1) \<and> cache_write c 0 ''abc'' m1 = Inr m2
    \<and> recycle_cache c m2 = Inr (r, m3) \<and> held_ok m3 [0, 1] \<and> (\<forall>e \<in> set [0, 1]. block m3 e = block sample_pool e)"
proof -
  have h: "held_ok sample_pool [0, 1]" using sample_ok(1) by (simp add: buffer_ok_def sample_buffer_def)
  then have p: "pool_ok sample_pool [0, 1]" "benign_free sample_pool" by (simp_all add: held_ok_def)
  obtain c m1 where g: "get_new_cache 3 sample_pool = Inr (Some c, m1)" "handed_out 3 sample_pool m1 [0, 1] c"
    using get_new_cache_small[OF p sample_ok(2), of 3] by auto
  have b: "store m1 ! c = blank 64 3" "pool_ok m1 (c # [0, 1])" "pool_frame sample_pool m1 (set [0, 1])"
    using g(2) by (auto simp: handed_out_def class_for_def)
  have env: "benign_free m1" "plenty m1" using pool_frame_env[OF b(3)] p(2) sample_ok(2) by blast+
  have h1: "held_ok m1 (c # [0, 1])" using b(2) env(1) by (simp add: held_ok_def)
  have "c < length (store m1)" using held_lt[OF h1] by simp
  then obtain m2 where w: "cache_write c 0 ''abc'' m1 = Inr m2" using b(1) by (auto simp: cache_write_def blank_def)
  then have "plenty m2" using env(2) by (auto simp: cache_write_def plenty_def split: if_splits)
  moreover have "held_ok m2 (c # [0, 1])" using bp.poke[OF w h1] by simp
  ultimately obtain m3 where r: "recycle_cache c m2 = Inr (0, m3)"
    using recycle_cache_total[of m2 "c # [0, 1]" c] by (auto simp: held_ok_def)
  from borrowing_is_private[OF g(1) w r h] show ?thesis using g(1) w r by blast
qed

text \<open>
  the table of classes gets 24 entries, not 6: the loop bound is the size of the array in
  bytes, and the sizes from the seventh on are whatever lies behind the array.
\<close>

theorem classes_past_the_table:
  assumes "make_sure_cache_mm m = Inr m'" and "available_cache_node m = []"
  shows "map allocated_cache_size (available_cache_node m') = [64, 128, 256, 512, 1024, 2048] @ map (past_table m) [6..<24]"
proof -
  obtain ms where "m' = m\<lparr>mallocs := ms, available_cache_node :=
      map (\<lambda>i. \<lparr>allocated_cache_size = table_entry m i, free_list = []\<rparr>) [0..<sizeof_specified_cache_size]\<rparr>"
    using make_classes_Inr[of _ m m'] assms by (auto simp: make_sure_cache_mm_def)
  then have "map allocated_cache_size (available_cache_node m') = map (table_entry m) [0..<sizeof_specified_cache_size]"
    by simp
  then show ?thesis unfolding table_entries by (simp add: class_sizes_def specified_cache_size_def)
qed

theorem classes_past_the_table_witness:
  "\<exists>m'. make_sure_cache_mm idle_pool = Inr m' \<and>
    map allocated_cache_size (available_cache_node m') = [64, 128, 256, 512, 1024, 2048] @ map (\<lambda>_. 0) [6..<24]"
proof -
  obtain m' where m: "make_sure_cache_mm idle_pool = Inr m'" using make_sure_plenty[OF idle_pool_ok(2)] by blast
  from classes_past_the_table[OF m] m show ?thesis by (simp add: idle_pool_def)
qed

section \<open>Properties of the lists\<close>

text \<open>\<^verbatim>\<open>list_add_tail\<close> puts an entry at the end of what \<^verbatim>\<open>list_for_each\<close> visits.\<close>

theorem add_tail_visits_last:
  assumes "dlist h l xs" and "n \<notin> set (l # xs)"
  shows "dlist (list_add_tail n l h) l (xs @ [n]) \<and> list_for_each l (list_add_tail n l h) = Some (xs @ [n])"
  using lh.add_tail[OF assms] list_for_each_dlist by blast

theorem add_tail_visits_last_witness:
  "dlist (list_add_tail 7 1 (INIT_LIST_HEAD 1 (\<lambda>_. \<lparr>nxt = 0, prv = 0\<rparr>))) 1 ([] @ [7])
    \<and> list_for_each 1 (list_add_tail 7 1 (INIT_LIST_HEAD 1 (\<lambda>_. \<lparr>nxt = 0, prv = 0\<rparr>))) = Some ([] @ [7])"
  by (rule add_tail_visits_last[OF INIT_LIST_HEAD_dlist]) simp

text \<open>\<^verbatim>\<open>list_del\<close> takes out exactly its entry, wherever it stands.\<close>

theorem del_takes_one_out:
  assumes "dlist h l (as @ e # bs)"
  shows "dlist (list_del e h) l (as @ bs) \<and> list_for_each l (list_del e h) = Some (as @ bs)
    \<and> list_for_each_prev l (list_del e h) = Some (rev (as @ bs))"
  using lh.del[OF assms] list_for_each_dlist list_for_each_prev_dlist by blast

definition two_entries :: heap where
  "two_entries = list_add_tail 8 1 (list_add_tail 7 1 (INIT_LIST_HEAD 1 (\<lambda>_. \<lparr>nxt = 0, prv = 0\<rparr>)))"

lemma two_entries_dlist: "dlist two_entries 1 [7, 8]"
proof -
  have "dlist (list_add_tail 7 1 (INIT_LIST_HEAD 1 h)) 1 ([] @ [7])" for h
    by (rule lh.add_tail[OF INIT_LIST_HEAD_dlist]) simp
  from lh.add_tail[OF this, of 8] show ?thesis by (simp add: two_entries_def)
qed

theorem del_takes_one_out_witness:
  "dlist (list_del 7 two_entries) 1 ([] @ [8]) \<and> list_for_each 1 (list_del 7 two_entries) = Some ([] @ [8])
    \<and> list_for_each_prev 1 (list_del 7 two_entries) = Some (rev ([] @ [8]))"
  by (rule del_takes_one_out[of _ _ "[]"]) (unfold append_Nil, rule two_entries_dlist)

text \<open>
  C33: the traversal with a second cursor, \<^verbatim>\<open>list_for_each_entry_safe\<close>, may delete the entries
  it visits: it ends, has handed every entry to the body once and in order, and leaves exactly the
  entries that the body kept, linked in both directions.
\<close>

theorem safe_traversal_deletes:
  assumes "dlist h l xs"
  shows "\<exists>n h'. list_for_each_entry_safe l off (delete_if P (\<lambda>e. link_of e off) f) (h, s)
      = Some ((list_entry l off, n), h', fold (\<lambda>x. f (list_entry x off)) xs s)
    \<and> list_for_each l h' = Some (filter (\<lambda>x. \<not> P (list_entry x off)) xs)
    \<and> list_for_each_prev l h' = Some (rev (filter (\<lambda>x. \<not> P (list_entry x off)) xs))"
  using list_for_each_entry_safe_deletes[OF assms, of off P f s] list_for_each_dlist list_for_each_prev_dlist by blast

theorem safe_traversal_deletes_witness:
  "\<exists>n h'. list_for_each_entry_safe 1 4 (delete_if (\<lambda>e. e = 3) (\<lambda>e. link_of e 4) (#)) (two_entries, [])
      = Some ((- 3, n), h', [4, 3]) \<and> list_for_each 1 h' = Some [8] \<and> list_for_each_prev 1 h' = Some [8]"
  using safe_traversal_deletes[OF two_entries_dlist, where off = 4 and P = "\<lambda>e. e = 3" and f = "(#)" and s = "[]"]
  by (simp add: list_entry_def container_of_def)

text \<open>
  \<^verbatim>\<open>list_splice_init\<close> moves all the entries of one list to the front of another and
  leaves the first one empty.
\<close>

theorem splice_init_moves_all:
  assumes "dlist h l xs" and "dlist h k ys" and "set (l # xs) \<inter> set (k # ys) = {}"
  shows "dlist (list_splice_init k l h) l (ys @ xs) \<and> dlist (list_splice_init k l h) k []
    \<and> list_empty k (list_splice_init k l h)"
  using dlist_list_splice_init[OF assms] lh.is_empty by blast

theorem splice_init_moves_all_witness:
  "dlist (list_splice_init 2 1 (INIT_LIST_HEAD 2 two_entries)) 1 ([] @ [7, 8])
    \<and> dlist (list_splice_init 2 1 (INIT_LIST_HEAD 2 two_entries)) 2 []
    \<and> list_empty 2 (list_splice_init 2 1 (INIT_LIST_HEAD 2 two_entries))"
  by (rule splice_init_moves_all[OF lh.init_other[OF two_entries_dlist] lh.init]) simp_all

text \<open>
  the loop of \<^verbatim>\<open>destroy_buffer\<close>, which takes the last entry out until the list is empty,
  ends, and has taken out every entry once, from the last to the first.
\<close>

theorem drain_last_ends:
  assumes "dlist h l xs"
  shows "\<exists>h'. drain_last l h = Some (rev xs, h') \<and> dlist h' l []"
  by (rule drain_last_dlist[OF assms])

theorem drain_last_ends_witness: "\<exists>h'. drain_last 1 two_entries = Some (rev [7, 8], h') \<and> dlist h' 1 []"
  by (rule drain_last_ends[OF two_entries_dlist])

section \<open>Properties of messages, names and addresses\<close>

text \<open>
  C34: the message made of a line is the text \<^verbatim>\<open>FROM <sender>: <line>\<close> with an end of line,
  of exactly its length, for the target and not for the sender.
\<close>

theorem peer_message_made:
  assumes "line_text body" and "length body < w" and "c_str t = Inr tgt" and "length tgt < 30" and "length sender < 30"
    and "length body + 39 < int_max" and "plenty s"
  shows "\<exists>ms. create_p2p_msg_base_on_content sender (Some t) (body @ LF # rest) w s = Inr (Some \<lparr>target = Some tgt,
      exclude = Some sender, msg_size = length (p2p_text sender body), content = p2p_text sender body @ [NUL]\<rparr>,
      s\<lparr>mallocs := ms\<rparr>)"
proof -
  have nul: "NUL \<notin> set body" using assms(1) by (simp add: line_text_def)
  show ?thesis
    using create_p2p_made[OF cut_line_LF[OF assms(1,2)] c_str_append[OF nul] assms(3-6), of s] assms(7)
    by (auto simp: made_def)
qed

theorem peer_message_made_witness:
  "\<exists>ms. create_p2p_msg_base_on_content ''Ann'' (Some (''Bob'' @ [NUL])) (''hi'' @ LF # []) 3 idle_pool
    = Inr (Some \<lparr>target = Some ''Bob'', exclude = Some ''Ann'', msg_size = length (p2p_text ''Ann'' ''hi''),
        content = p2p_text ''Ann'' ''hi'' @ [NUL]\<rparr>, idle_pool\<lparr>mallocs := ms\<rparr>)"
  by (rule peer_message_made) (simp_all add: line_text_def int_max_def idle_pool_ok)

text \<open>C35: a target of 30 characters or more overflows the field of the message it is copied to.\<close>

theorem long_target_overflows:
  assumes "cut_line s_content w = Inr p" and "c_str p = Inr body" and "c_str t = Inr tgt"
    and "30 \<le> length tgt" and "length sender < 30" and "length body + 39 < int_max" and "plenty s"
  shows "create_p2p_msg_base_on_content sender (Some t) s_content w s = Inl Out_of_bounds"
  by (rule create_p2p_overflow[OF assms])

theorem long_target_overflows_witness:
  "create_p2p_msg_base_on_content ''Ann'' (Some (replicate 30 (CHR ''x'') @ [NUL])) (''hi'' @ NUL # []) 3 idle_pool
    = Inl Out_of_bounds"
  by (rule long_target_overflows[OF cut_line_NUL c_str_append c_str_append])
    (simp_all add: line_text_def int_max_def idle_pool_ok)

text \<open>a client's name is the first 29 characters of what it logs in with.\<close>

theorem names_fit:
  assumes "update_client_name c (Some p) = Inr c'"
  shows "\<exists>s. c_str p = Inr s \<and> c' = c\<lparr>name := take 29 s\<rparr> \<and> length (name c') < CLIENT_NAME_MAXIMUM_SIZE"
  using update_client_name_Inr[OF assms] by (auto simp: name_text_def)

theorem names_fit_witness:
  "\<exists>c' s. update_client_name (sample_client 4 ''unknown'' 0 []) (Some (replicate 40 (CHR ''x'') @ [NUL])) = Inr c'
    \<and> c_str (replicate 40 (CHR ''x'') @ [NUL]) = Inr s
    \<and> c' = (sample_client 4 ''unknown'' 0 [])\<lparr>name := take 29 s\<rparr> \<and> length (name c') < CLIENT_NAME_MAXIMUM_SIZE"
proof -
  have "NUL \<notin> set (replicate 40 (CHR ''x''))" by simp
  then obtain c' where u: "update_client_name (sample_client 4 ''unknown'' 0 []) (Some (replicate 40 (CHR ''x'') @ [NUL])) = Inr c'"
    using c_str_append by (fastforce simp: update_client_name_def)
  from names_fit[OF u] u show ?thesis by blast
qed

text \<open>a port is taken modulo 65536, without a complaint.\<close>

theorem port_is_cut:
  assumes "0 < n" and "n < 2 ^ 31" and "ip = ANY_HOST \<or> inet_pton AF_INET ip \<noteq> None" and "plenty s"
  shows "\<exists>a s'. get_addr_info_from_ip_and_port inet_pton ip (decimal n) s
    = Inr ((0, Some (\<lparr>sa_family = AF_INET, sin_port = n mod 65536, sin_addr = a\<rparr>, 16)), s')"
  using get_addr_info_port[where inet_pton = inet_pton and n = n and ip = ip and s = s] assms by blast

theorem port_is_cut_witness:
  "\<exists>a s'. get_addr_info_from_ip_and_port (\<lambda>_ _. None) ANY_HOST (decimal 70000) idle_pool
    = Inr ((0, Some (\<lparr>sa_family = AF_INET, sin_port = 70000 mod 65536, sin_addr = a\<rparr>, 16)), s')"
  by (rule port_is_cut) (simp_all add: idle_pool_ok)

section \<open>Properties of the client\<close>

text \<open>
  C36: \<^verbatim>\<open>main\<close> of the client comes online at the server's port modulo 65536 when the system
  cooperates, there is room behind the block of the login line and the socket takes all of it. The
  bytes it has then sent, when they arrive at a server for which this client has nothing else to be
  read, make the reading thread name the client with the first 29 characters of the name that was
  given and tell everybody else. The name is one line and fits a block with the command.
\<close>

theorem client_comes_online:
  assumes "0 < n" and "n < 2 ^ 31" and "ip = ANY_HOST \<or> inet_pton AF_INET ip \<noteq> None" and "plenty m"
    and "0 \<le> csocket_ret os" and "0 \<le> connect_ret os" and "has_line os" and "has_fds os" and "has_buff os"
    and "line_text nm" and "length nm < 505" and "outcomes sock = []" and "0 < gap"
    and "server_ok held s" and "fresh_entry p s" and "abs_srv s ! info_ptr p = Some a" "a_in a = []"
  shows "\<exists>adr data s1. client_setup inet_pton [prog, ip, decimal n, nm] gap os sock m
      = Inr (Online \<lparr>sa_family = AF_INET, sin_port = n mod 65536, sin_addr = adr\<rparr> (sock\<lparr>sent := sent sock @ data\<rparr>))
    \<and> handle_event p (arrival data) s = Inr s1 \<and> server_ok held s1
    \<and> abs_srv s1 = a_deliver (clients s) CMD_TO_ALL (take 29 nm) (sys_text (take 29 nm @ '' '' @ MSG_LOGIN_SUFFIX))
        (a_update (info_ptr p) (\<lambda>a. a\<lparr>a_name := take 29 nm\<rparr>) (abs_srv s))"
proof -
  have "NUL \<notin> set nm" "length nm < 2 ^ 63" using assms(10,11) by (simp_all add: line_text_def)
  then have "\<exists>adr. client_setup inet_pton [prog, ip, decimal n, nm] gap os sock m
      = Inr (Online \<lparr>sa_family = AF_INET, sin_port = n mod 65536, sin_addr = adr\<rparr> (sock\<lparr>sent := sent sock @ (CMD_LOGIN @ nm) @ [LF]\<rparr>))"
    using client_setup_ok[where inet_pton = inet_pton and n = n and ip = ip and os = os and s = m and nm = nm and sock = sock]
      assms by blast
  then show ?thesis using login_handled[OF assms(14-17,10,11)] by blast
qed

theorem client_comes_online_witness:
  "\<exists>adr data s1. client_setup (\<lambda>f ip. Some ''addr'') [''IMClient'', ''127.0.0.1'', decimal 70000, ''Bea''] 7
      \<lparr>csocket_ret = 3, connect_ret = 0, has_line = True, has_fds = True, has_buff = True\<rparr> \<lparr>outcomes = [], sent = []\<rparr> idle_pool
    = Inr (Online \<lparr>sa_family = AF_INET, sin_port = 70000 mod 65536, sin_addr = adr\<rparr>
        (\<lparr>outcomes = [], sent = []\<rparr>\<lparr>sent := sent \<lparr>outcomes = [], sent = []\<rparr> @ data\<rparr>))
    \<and> handle_event ann_entry (arrival data) idle_server = Inr s1 \<and> server_ok [] s1
    \<and> abs_srv s1 = a_deliver (clients idle_server) CMD_TO_ALL (take 29 ''Bea'') (sys_text (take 29 ''Bea'' @ '' '' @ MSG_LOGIN_SUFFIX))
        (a_update (info_ptr ann_entry) (\<lambda>a. a\<lparr>a_name := take 29 ''Bea''\<rparr>) (abs_srv idle_server))"
  by (rule client_comes_online[OF _ _ _ idle_pool_ok(2) _ _ _ _ _ _ _ _ _ idle_server_ok ann_fresh ann_idle])
    (simp_all add: line_text_def)

text \<open>
  C37: the block for the login line is one byte too small: \<^verbatim>\<open>sprintf\<close> writes its terminating
  zero behind it, whatever the name; where the allocator has left room, the server is sent the
  line it expects and registers the name, cut to 29 characters.
\<close>

theorem login_line:
  assumes "NUL \<notin> set nm" and "length nm < 2 ^ 63" and "outcomes sock = []" and "0 < gap"
  shows "login True 0 (nm @ [NUL]) sock = Inl Out_of_bounds
    \<and> login True gap (nm @ [NUL]) sock = Inr (True, sock\<lparr>sent := sent sock @ (CMD_LOGIN @ nm) @ [LF]\<rparr>)
    \<and> line_msg me (CMD_LOGIN @ nm) = Some (CMD_TO_ALL, take 29 nm, sys_text (take 29 nm @ '' '' @ MSG_LOGIN_SUFFIX))"
  using login_overflows[OF assms(1,2)] login_sends[OF assms(1,2,4,3)] server_reads_login by simp

theorem login_line_witness:
  "login True 0 (''Ann'' @ [NUL]) \<lparr>outcomes = [], sent = []\<rparr> = Inl Out_of_bounds
    \<and> login True 7 (''Ann'' @ [NUL]) \<lparr>outcomes = [], sent = []\<rparr> = Inr (True, \<lparr>outcomes = [], sent = []\<rparr>\<lparr>sent :=
        sent \<lparr>outcomes = [], sent = []\<rparr> @ (CMD_LOGIN @ ''Ann'') @ [LF]\<rparr>)
    \<and> line_msg [] (CMD_LOGIN @ ''Ann'') = Some (CMD_TO_ALL, take 29 ''Ann'', sys_text (take 29 ''Ann'' @ '' '' @ MSG_LOGIN_SUFFIX))"
  by (rule login_line) simp_all

text \<open>
  C38: a line typed without a recipient is framed with \<^verbatim>\<open>TO-ALL: \<close>. Up to 503 characters the
  reading thread, when the frame arrives, tells everybody else, with exactly the typed text as the
  body of the message. A longer one (the client takes up to 1014 characters) does not fit the block in
  which the server looks for the end of a line: it is never read, nobody is told, and the same goes
  for everything that this client sends afterwards.
\<close>

theorem typed_line_to_all:
  assumes "line_text l" and "length l < 1015" and "\<not> starts CMD_TO_C l"
    and "server_ok held s" and "fresh_entry p s" and "abs_srv s ! info_ptr p = Some a" "a_in a = []"
  shows "frame_input behind [Read_data (l @ [LF])] = Inr (''TO-ALL: '' @ l @ [LF])
    \<and> (if length l < 504
       then \<exists>s1. handle_event p (arrival (''TO-ALL: '' @ l @ [LF])) s = Inr s1 \<and> server_ok held s1
         \<and> abs_srv s1 = a_deliver (clients s) CMD_TO_ALL (a_name a) (p2p_text (a_name a) l) (abs_srv s)
       else never_read held p (''TO-ALL: '' @ l @ [LF]) s)"
proof (cases "length l < 504")
  case True
  then show ?thesis
    using frame_broadcast[OF assms(1-3), of behind]
      said_handled[OF assms(4-7) good_broadcast[OF assms(1) True] _ server_reads_broadcast not_login(1)] by simp
next
  case False
  then have "deaf ((''TO-ALL: '' @ l) @ [LF])" by (intro deaf_line) (use assms(1) in \<open>simp_all add: line_text_def\<close>)
  then show ?thesis using frame_broadcast[OF assms(1-3), of behind] deaf_never_read[OF assms(4-7)] False by simp
qed

theorem typed_line_to_all_witness:
  "(\<exists>s1. handle_event ann_entry (arrival (''TO-ALL: '' @ ''hi'' @ [LF])) idle_server = Inr s1
      \<and> abs_srv s1 = a_deliver (clients idle_server) CMD_TO_ALL ''Ann'' (p2p_text ''Ann'' ''hi'') (abs_srv idle_server))
    \<and> frame_input [] [Read_data (replicate 600 (CHR ''x'') @ [LF])] = Inr (''TO-ALL: '' @ replicate 600 (CHR ''x'') @ [LF])
    \<and> never_read [] ann_entry (''TO-ALL: '' @ replicate 600 (CHR ''x'') @ [LF]) idle_server"
  using typed_line_to_all[OF _ _ _ idle_server_ok ann_fresh ann_idle, of "''hi''" "[]"]
    typed_line_to_all[OF _ _ _ idle_server_ok ann_fresh ann_idle, of "replicate 600 (CHR ''x'')" "[]"]
  by (auto simp: line_text_def starts_def wire)

text \<open>
  C39: a line typed for one recipient is sent as it is when the name has at most 29 characters, and
  the reading thread tells that client only; with a longer name it is framed like any other line and
  everybody is told. Again this holds as long as the frame fits a block (511 and 503 typed
  characters), and from there on the client is never heard again.
\<close>

theorem typed_line_to_one:
  assumes "l = CMD_TO_C @ tgt @ '': '' @ body" and "line_text l" and "length l < 1015" and "CHR '':'' \<notin> set tgt"
    and "server_ok held s" and "fresh_entry p s" and "abs_srv s ! info_ptr p = Some a" "a_in a = []"
    and "data = (if length tgt < 30 then l @ [LF] else ''TO-ALL: '' @ l @ [LF])"
  shows "frame_input behind [Read_data (l @ [LF])] = Inr data
    \<and> (if length data \<le> 512
       then \<exists>s1. handle_event p (arrival data) s = Inr s1 \<and> server_ok held s1
         \<and> abs_srv s1 = (if length tgt < 30 then a_deliver (clients s) tgt (a_name a) (p2p_text (a_name a) body) (abs_srv s)
             else a_deliver (clients s) CMD_TO_ALL (a_name a) (p2p_text (a_name a) l) (abs_srv s))
       else never_read held p data s)"
proof (cases "length data \<le> 512")
  case True
  show ?thesis
  proof (cases "length tgt < 30")
    case short: True
    then have "length l < 512" using True assms(9) by simp
    then show ?thesis
      using short True frame_private[OF assms(1-4), of behind] assms(9) not_login(2)[of "tgt @ '': '' @ body"]
        said_handled[OF assms(5-8) good_private[OF assms(1,2) _ assms(4) short], of tgt]
        server_reads_private[OF assms(4), of "a_name a" body]
      by (simp add: assms(1) CLIENT_NAME_MAXIMUM_SIZE_def)
  next
    case False
    then have "length l < 504" using True assms(9) by simp
    then show ?thesis
      using False True frame_private[OF assms(1-4), of behind] assms(9)
        said_handled[OF assms(5-8) good_broadcast[OF assms(2)] _ server_reads_broadcast not_login(1)]
      by (simp add: CLIENT_NAME_MAXIMUM_SIZE_def)
  qed
next
  case False
  have "LF \<notin> set l" using assms(2) by (simp add: line_text_def)
  then have "deaf data"
    using False deaf_line[of l] deaf_line[of "''TO-ALL: '' @ l"] by (auto simp: assms(9))
  then show ?thesis
    using False frame_private[OF assms(1-4), of behind] deaf_never_read[OF assms(5-8)] assms(9)
    by (simp add: CLIENT_NAME_MAXIMUM_SIZE_def)
qed

theorem typed_line_to_one_witness:
  "frame_input [] [Read_data ((CMD_TO_C @ ''Bob'' @ '': '' @ ''hi'') @ [LF])] = Inr ((CMD_TO_C @ ''Bob'' @ '': '' @ ''hi'') @ [LF])
    \<and> (\<exists>s1. handle_event ann_entry (arrival ((CMD_TO_C @ ''Bob'' @ '': '' @ ''hi'') @ [LF])) idle_server = Inr s1
      \<and> abs_srv s1 = a_deliver (clients idle_server) ''Bob'' ''Ann'' (p2p_text ''Ann'' ''hi'') (abs_srv idle_server))"
proof -
  have "line_text (CMD_TO_C @ ''Bob'' @ '': '' @ ''hi'')" by (simp add: line_text_def wire)
  from typed_line_to_one[OF refl this _ _ idle_server_ok ann_fresh ann_idle refl, of "[]"] show ?thesis by (auto simp: wire)
qed

text \<open>
  C40: at the end of its standard input the client does not end: every further round of its
  loop sends one more \<^verbatim>\<open>TO-ALL: \<close> without an end of line.
\<close>

theorem end_of_input_floods:
  assumes "s_socket \<noteq> 0" and "is_online c" and "outcomes (to_server c) = []"
  shows "client_loop behind s_socket (replicate n (1, stdin_eof s_socket)) c
    = Inr (c\<lparr>to_server := (to_server c)\<lparr>sent := sent (to_server c) @ concat (replicate n ''TO-ALL: '')\<rparr>\<rparr>)"
  by (rule eof_floods[OF assms])

theorem end_of_input_floods_witness:
  "client_loop [] 3 (replicate 5 (1, stdin_eof 3)) online_client = Inr (online_client\<lparr>to_server :=
    (to_server online_client)\<lparr>sent := sent (to_server online_client) @ concat (replicate 5 ''TO-ALL: '')\<rparr>\<rparr>)"
  by (rule end_of_input_floods) (simp_all add: online_client_def)

end
